(* ===== verification/Prelude.thy ===== *)
theory Prelude
  imports "HOL-Library.Word" "HOL-Library.Monad_Syntax" "HOL-Library.Multiset"
begin

text \<open>
  Shared vocabulary of the development: the machine types of the C sources, the results a C
  function can have, bounds-checked array access, and the generic lemmas on lists and words the
  component theories rely on.
\<close>

unbundle bit_operations_syntax

named_theorems c_simps \<open>unfolding rules for the C-level primitives\<close>
named_theorems array_simps \<open>facts on bounds-checked array access\<close>

section \<open>Machine types\<close>

type_synonym byte = "8 word"
type_synonym word32 = "32 word"
type_synonym word64 = "64 word"

text \<open>The status codes of \<open>DataStruct_learn/Status/Status.h\<close>.\<close>

abbreviation (input) OK :: int where "OK \<equiv> 1"
abbreviation (input) ERROR :: int where "ERROR \<equiv> 0"
abbreviation (input) OVERFLOW :: int where "OVERFLOW \<equiv> - 2"

definition INT_MAX :: int where
  "INT_MAX = 2147483647"

text \<open>A C \<open>int\<close> sum that leaves the 32-bit range wraps around (two's complement).\<close>

definition c_int :: "int \<Rightarrow> int" where
  "c_int x = signed_take_bit 31 x"

lemma c_int_id [c_simps]: "- INT_MAX \<le> x \<Longrightarrow> x \<le> INT_MAX \<Longrightarrow> c_int x = x"
  by (simp add: c_int_def INT_MAX_def signed_take_bit_int_eq_self_iff)

section \<open>Results of a C call\<close>

text \<open>
  \<open>Ret v\<close>: the call returns \<open>v\<close>. \<open>Exit n\<close>: it ends the process with \<open>exit(n)\<close>.
  \<open>Undef\<close>: it performs an access outside an array (undefined behaviour).
\<close>

datatype 'a outcome = Ret 'a | Exit int | Undef

fun seq :: "'a outcome \<Rightarrow> ('a \<Rightarrow> 'b outcome) \<Rightarrow> 'b outcome" where
  "seq (Ret x) f = f x"
| "seq (Exit n) f = Exit n"
| "seq Undef f = Undef"

fun of_option :: "'a option \<Rightarrow> 'a outcome" where
  "of_option None = Undef"
| "of_option (Some x) = Ret x"

fun returned :: "'a outcome \<Rightarrow> 'a option" where
  "returned (Ret x) = Some x"
| "returned (Exit n) = None"
| "returned Undef = None"

lemma seq_assoc: "seq (seq m f) g = seq m (\<lambda>x. seq (f x) g)"
  by (cases m) simp_all

lemma seq_eq_Ret [c_simps]: "seq m f = Ret y \<longleftrightarrow> (\<exists>x. m = Ret x \<and> f x = Ret y)"
  by (cases m) simp_all

section \<open>Bounds-checked arrays\<close>

definition aget :: "'a list \<Rightarrow> nat \<Rightarrow> 'a option" where
  "aget xs i = (if i < length xs then Some (xs ! i) else None)"

definition aset :: "'a list \<Rightarrow> nat \<Rightarrow> 'a \<Rightarrow> 'a list option" where
  "aset xs i v = (if i < length xs then Some (xs[i := v]) else None)"

lemma aget_in [array_simps]: "i < length xs \<Longrightarrow> aget xs i = Some (xs ! i)"
  by (simp add: aget_def)

lemma aset_in [array_simps]: "i < length xs \<Longrightarrow> aset xs i v = Some (xs[i := v])"
  by (simp add: aset_def)

lemma aget_out [array_simps]: "length xs \<le> i \<Longrightarrow> aget xs i = None"
  by (simp add: aget_def)

lemma aset_out [array_simps]: "length xs \<le> i \<Longrightarrow> aset xs i v = None"
  by (simp add: aset_def)

text \<open>\<open>memcpy(&out[off], bs, n)\<close> on a buffer with room for the write.\<close>

definition buf_write :: "'a list \<Rightarrow> nat \<Rightarrow> 'a list \<Rightarrow> 'a list" where
  "buf_write out off bs = take off out @ bs @ drop (off + length bs) out"

lemma length_buf_write [simp]:
  "off + length bs \<le> length out \<Longrightarrow> length (buf_write out off bs) = length out"
  by (simp add: buf_write_def)

lemma take_buf_write_end:
  "off + length bs \<le> length out \<Longrightarrow>
    take (off + length bs) (buf_write out off bs) = take off out @ bs"
  by (simp add: buf_write_def)

lemma drop_buf_write_end:
  "off + length bs \<le> length out \<Longrightarrow>
    drop (off + length bs) (buf_write out off bs) = drop (off + length bs) out"
  by (simp add: buf_write_def)

section \<open>Allocation of arrays\<close>

text \<open>
  An allocator answers a request for \<open>n\<close> elements with a block of \<open>n\<close> arbitrary values, or with
  \<open>None\<close> for NULL.
\<close>

type_synonym allocator = "nat \<Rightarrow> int list option"

definition wf_alloc :: "(nat \<Rightarrow> 'a list option) \<Rightarrow> bool" where
  "wf_alloc A \<longleftrightarrow> (\<forall>n xs. A n = Some xs \<longrightarrow> length xs = n)"

section \<open>Positional insertion and deletion on lists\<close>

text \<open>The abstract contents of a sequence after an insertion at, or a deletion from, index \<open>k\<close>.\<close>

definition ins_nth :: "nat \<Rightarrow> 'a \<Rightarrow> 'a list \<Rightarrow> 'a list" where
  "ins_nth k x xs = take k xs @ x # drop k xs"

definition del_nth :: "nat \<Rightarrow> 'a list \<Rightarrow> 'a list" where
  "del_nth k xs = take k xs @ drop (Suc k) xs"

lemma length_ins_nth [simp]: "length (ins_nth k x xs) = Suc (length xs)"
  by (simp add: ins_nth_def)

lemma length_del_nth [simp]: "k < length xs \<Longrightarrow> length (del_nth k xs) = length xs - 1"
  by (simp add: del_nth_def)

lemma ins_nth_append: "length us = k \<Longrightarrow> ins_nth k x (us @ vs) = us @ x # vs"
  by (simp add: ins_nth_def)

lemma del_nth_append: "length us = k \<Longrightarrow> del_nth k (us @ v # vs) = us @ vs"
  by (simp add: del_nth_def)

lemma ins_nth_end: "ins_nth (length xs) x xs = xs @ [x]"
  by (simp add: ins_nth_def)

lemma del_nth_ins_nth: "k \<le> length xs \<Longrightarrow> del_nth k (ins_nth k x xs) = xs"
  by (simp add: ins_nth_def del_nth_def)

lemma ins_nth_del_nth: "k < length xs \<Longrightarrow> ins_nth k (xs ! k) (del_nth k xs) = xs"
  by (simp add: ins_nth_def del_nth_def id_take_nth_drop [symmetric])

lemma nth_ins_nth: "k \<le> length xs \<Longrightarrow> ins_nth k x xs ! k = x"
  by (simp add: ins_nth_def nth_append)

lemma mset_ins_nth: "mset (ins_nth k x xs) = add_mset x (mset xs)"
proof -
  have "mset (take k xs) + mset (drop k xs) = mset xs"
    by (metis append_take_drop_id mset_append)
  then show ?thesis by (simp add: ins_nth_def)
qed

section \<open>Searching an index range\<close>

lemma find_upt_None: "List.find P [0..<n] = None \<longleftrightarrow> (\<forall>k<n. \<not> P k)"
  by (auto simp: find_None_iff)

lemma find_upt_Some: "List.find P [0..<n] = Some k \<longleftrightarrow> k < n \<and> P k \<and> (\<forall>j<k. \<not> P j)"
  by (auto simp: find_Some_iff)

lemma find_map: "List.find P (map f xs) = map_option f (List.find (P \<circ> f) xs)"
  by (induction xs) auto

lemma find_upt_Suc:
  "List.find P [0..<Suc n] = (if P 0 then Some 0 else map_option Suc (List.find (P \<circ> Suc) [0..<n]))"
proof -
  have "[0..<Suc n] = 0 # map Suc [0..<n]"
    by (simp add: upt_conv_Cons map_Suc_upt del: upt_Suc)
  then show ?thesis by (simp add: find_map)
qed

end
