(* ===== verification/LinearList.thy ===== *)
theory LinearList
  imports Prelude
begin

text \<open>
  The contract of a linear list with one-based positions, as the headers \<open>SqArray.h\<close> and
  \<open>SLinkList.h\<close> of \<open>DataStruct_learn/Array\<close> describe it, and what a client may conclude from it.
  A provider gives its well-formedness predicate \<open>inv\<close>, the sequence of elements \<open>abs\<close> it
  stores, and the predicate \<open>room\<close> that says one more element can be stored. \<open>None\<close> stands for
  a call that does not return.
\<close>

locale linear_list =
  fixes inv :: "'s \<Rightarrow> bool"
    and room :: "'s \<Rightarrow> bool"
    and abs :: "'s \<Rightarrow> int list"
    and list_insert :: "'s \<Rightarrow> int \<Rightarrow> int \<Rightarrow> (int \<times> 's) option"
    and list_delete :: "'s \<Rightarrow> int \<Rightarrow> (int \<times> 's \<times> int option) option"
    and get_elem :: "'s \<Rightarrow> int \<Rightarrow> (int \<times> int option) option"
    and locate_elem :: "'s \<Rightarrow> int \<Rightarrow> (int \<Rightarrow> int \<Rightarrow> bool) \<Rightarrow> int option"
    and list_length :: "'s \<Rightarrow> int option"
  assumes insert_ok:
      "\<And>s i e. inv s \<Longrightarrow> room s \<Longrightarrow> 1 \<le> i \<Longrightarrow> i \<le> int (length (abs s)) + 1 \<Longrightarrow>
        \<exists>s'. list_insert s i e = Some (OK, s') \<and> inv s' \<and>
             abs s' = ins_nth (nat (i - 1)) e (abs s)"
    and insert_bad:
      "\<And>s i e. inv s \<Longrightarrow> i < 1 \<or> i > int (length (abs s)) + 1 \<Longrightarrow>
        list_insert s i e = Some (ERROR, s)"
    and delete_ok:
      "\<And>s i. inv s \<Longrightarrow> 1 \<le> i \<Longrightarrow> i \<le> int (length (abs s)) \<Longrightarrow>
        \<exists>s'. list_delete s i = Some (OK, s', Some (abs s ! nat (i - 1))) \<and> inv s' \<and>
             abs s' = del_nth (nat (i - 1)) (abs s)"
    and delete_bad:
      "\<And>s i. inv s \<Longrightarrow> i < 1 \<or> i > int (length (abs s)) \<Longrightarrow>
        list_delete s i = Some (ERROR, s, None)"
    and get_elem_ok:
      "\<And>s i. inv s \<Longrightarrow> 1 \<le> i \<Longrightarrow> i \<le> int (length (abs s)) \<Longrightarrow>
        get_elem s i = Some (OK, Some (abs s ! nat (i - 1)))"
    and get_elem_bad:
      "\<And>s i. inv s \<Longrightarrow> i < 1 \<or> i > int (length (abs s)) \<Longrightarrow> get_elem s i = Some (ERROR, None)"
    and locate_elem_spec:
      "\<And>s e cmp. inv s \<Longrightarrow> locate_elem s e cmp =
        Some (case List.find (\<lambda>k. cmp (abs s ! k) e) [0..<length (abs s)] of
                None \<Rightarrow> 0 | Some k \<Rightarrow> int k + 1)"
    and list_length_spec:
      "\<And>s. inv s \<Longrightarrow> list_length s = Some (int (length (abs s)))"
begin

text \<open>Inserting behind the last element appends.\<close>

lemma insert_last:
  assumes "inv s" "room s"
  shows "\<exists>s'. list_insert s (int (length (abs s)) + 1) e = Some (OK, s') \<and> inv s' \<and>
    abs s' = abs s @ [e]"
proof -
  have "nat (int (length (abs s)) + 1 - 1) = length (abs s)" by simp
  then show ?thesis
    using insert_ok [OF assms, of "int (length (abs s)) + 1" e] by (auto simp: ins_nth_end)
qed

text \<open>Deleting what was just inserted gives the inserted element and the old contents back.\<close>

lemma delete_after_insert:
  assumes "inv s" "room s" "1 \<le> i" "i \<le> int (length (abs s)) + 1"
  shows "\<exists>s' s''. list_insert s i e = Some (OK, s') \<and>
    list_delete s' i = Some (OK, s'', Some e) \<and> inv s'' \<and> abs s'' = abs s"
proof -
  obtain s' where s': "list_insert s i e = Some (OK, s')" "inv s'"
      "abs s' = ins_nth (nat (i - 1)) e (abs s)"
    using insert_ok [OF assms] by blast
  have k: "nat (i - 1) \<le> length (abs s)" using assms(3,4) by linarith
  obtain s'' where "list_delete s' i = Some (OK, s'', Some (abs s' ! nat (i - 1)))" "inv s''"
      "abs s'' = del_nth (nat (i - 1)) (abs s')"
    using delete_ok [OF s'(2) assms(3)] s'(3) assms(4) by auto
  with s' k show ?thesis by (auto simp: nth_ins_nth del_nth_ins_nth)
qed

text \<open>A lookup by equality finds the first position, and reports 0 exactly for absent elements.\<close>

lemma locate_eq_zero_iff:
  assumes "inv s"
  shows "locate_elem s e (=) = Some 0 \<longleftrightarrow> e \<notin> set (abs s)"
proof -
  have "List.find (\<lambda>k. abs s ! k = e) [0..<length (abs s)] = None \<longleftrightarrow> e \<notin> set (abs s)"
    by (auto simp: find_upt_None in_set_conv_nth)
  then show ?thesis
    by (cases "List.find (\<lambda>k. abs s ! k = e) [0..<length (abs s)]")
      (auto simp: locate_elem_spec [OF assms])
qed

lemma get_located:
  assumes "inv s" "locate_elem s e (=) = Some i" "i \<noteq> 0"
  shows "get_elem s i = Some (OK, Some e)"
proof -
  from assms obtain k where k: "k < length (abs s)" "abs s ! k = e" "i = int k + 1"
    by (auto simp: locate_elem_spec find_upt_Some split: option.splits)
  then show ?thesis using get_elem_ok [OF assms(1), of i] by simp
qed

end

end
