(* ===== verification/SqList.thy ===== *)
theory SqList
  imports LinearList
begin

text \<open>
  The sequential list of \<open>DataStruct_learn/Array/SqArray/SqArray.c\<close>: a heap block, the number of
  elements in use and the capacity, with the reallocation of \<open>ListInsert\<close> and the element shifts
  written as the index loops of the source. Memory comes from an \<open>allocator\<close>, which answers a
  request for \<open>n\<close> elements with a block of \<open>n\<close> arbitrary values or with \<open>None\<close> (NULL).
\<close>

section \<open>Data\<close>

record sqlist =
  sq_elem :: "int list option"
  sq_length :: int
  sq_listsize :: int

definition LIST_INIT_SIZE :: int where "LIST_INIT_SIZE = 100"
definition LISTINCREMENT :: int where "LISTINCREMENT = 10"

text \<open>\<open>realloc\<close> to a larger block keeps the old contents.\<close>

definition realloc :: "allocator \<Rightarrow> int list \<Rightarrow> nat \<Rightarrow> int list option" where
  "realloc A old n = map_option (\<lambda>fresh. take n old @ drop (length old) fresh) (A n)"

section \<open>Operations\<close>

text \<open>A pointer argument \<open>SqList *L\<close> is an \<open>option\<close>, \<open>None\<close> for NULL.\<close>

definition InitList_sq :: "allocator \<Rightarrow> sqlist \<Rightarrow> (int \<times> sqlist) outcome" where
  "InitList_sq A L =
     (case A (nat LIST_INIT_SIZE) of
        None \<Rightarrow> Exit OVERFLOW
      | Some base \<Rightarrow> Ret (OK, L\<lparr>sq_elem := Some base, sq_length := 0,
                              sq_listsize := LIST_INIT_SIZE\<rparr>))"

definition DestroyList_sq :: "sqlist option \<Rightarrow> int \<times> sqlist option" where
  "DestroyList_sq p =
     (case p of
        None \<Rightarrow> (ERROR, p)
      | Some L \<Rightarrow>
          if sq_elem L = None then (ERROR, p)
          else (OK, Some (L\<lparr>sq_elem := None, sq_length := 0, sq_listsize := 0\<rparr>)))"

definition ClearList_sq :: "sqlist option \<Rightarrow> int \<times> sqlist option" where
  "ClearList_sq p =
     (case p of
        None \<Rightarrow> (ERROR, p)
      | Some L \<Rightarrow>
          if sq_elem L = None then (ERROR, p) else (OK, Some (L\<lparr>sq_length := 0\<rparr>)))"

definition ListEmpty_sq :: "sqlist \<Rightarrow> bool" where
  "ListEmpty_sq L \<longleftrightarrow> sq_length L = 0"

definition ListLength_sq :: "sqlist \<Rightarrow> int" where
  "ListLength_sq L = sq_length L"

text \<open>Reading through a NULL base or outside the block is undefined.\<close>

definition rd :: "sqlist \<Rightarrow> int \<Rightarrow> int outcome" where
  "rd L i = (case sq_elem L of
      None \<Rightarrow> Undef
    | Some base \<Rightarrow> if i < 0 then Undef else of_option (aget base (nat i)))"

definition GetElem_sq :: "sqlist \<Rightarrow> int \<Rightarrow> (int \<times> int option) outcome" where
  "GetElem_sq L i =
     (if i < 1 \<or> i > sq_length L then Ret (ERROR, None)
      else seq (rd L (i - 1)) (\<lambda>e. Ret (OK, Some e)))"

text \<open>The search loop of \<open>LocateElem\<close>; \<open>p\<close> walks one element per test, so \<open>p = elem + (i - 1)\<close>.\<close>

function locate_loop :: "sqlist \<Rightarrow> int \<Rightarrow> (int \<Rightarrow> int \<Rightarrow> bool) \<Rightarrow> int \<Rightarrow> int outcome" where
  "locate_loop L e cmp i =
     (if i \<le> sq_length L then
        seq (rd L (i - 1)) (\<lambda>v. if \<not> cmp v e then locate_loop L e cmp (i + 1) else Ret i)
      else Ret i)"
  by pat_completeness auto
termination
  by (relation "measure (\<lambda>(L, e, cmp, i). nat (sq_length L - i + 1))") auto

definition LocateElem_sq :: "sqlist \<Rightarrow> int \<Rightarrow> (int \<Rightarrow> int \<Rightarrow> bool) \<Rightarrow> int outcome" where
  "LocateElem_sq L e cmp =
     (if sq_elem L = None then Ret ERROR
      else seq (locate_loop L e cmp 1) (\<lambda>i. if i \<le> sq_length L then Ret i else Ret 0))"

text \<open>The loops of \<open>PriorElem\<close> and \<open>NextElem\<close>: advance while \<open>i < n\<close> and \<open>elem[i] != cur_e\<close>.\<close>

function scan_loop :: "sqlist \<Rightarrow> int \<Rightarrow> int \<Rightarrow> int \<Rightarrow> int outcome" where
  "scan_loop L cur_e n i =
     (if i < n then
        seq (rd L i) (\<lambda>v. if v \<noteq> cur_e then scan_loop L cur_e n (i + 1) else Ret i)
      else Ret i)"
  by pat_completeness auto
termination
  by (relation "measure (\<lambda>(L, cur_e, n, i). nat (n - i))") auto

definition PriorElem_sq :: "sqlist \<Rightarrow> int \<Rightarrow> (int \<times> int option) outcome" where
  "PriorElem_sq L cur_e =
     (if sq_elem L = None \<or> sq_length L < 2 then Ret (ERROR, None)
      else seq (scan_loop L cur_e (sq_length L) 0)
        (\<lambda>i. if i = 0 \<or> i \<ge> sq_length L then Ret (ERROR, None)
             else seq (rd L (i - 1)) (\<lambda>v. Ret (OK, Some v))))"

definition NextElem_sq :: "sqlist \<Rightarrow> int \<Rightarrow> (int \<times> int option) outcome" where
  "NextElem_sq L cur_e =
     (if sq_elem L = None \<or> sq_length L < 2 then Ret (ERROR, None)
      else seq (scan_loop L cur_e (sq_length L - 1) 0)
        (\<lambda>i. if i \<ge> sq_length L - 1 then Ret (ERROR, None)
             else seq (rd L (i + 1)) (\<lambda>v. Ret (OK, Some v))))"

text \<open>\<open>for (p = &elem[length - 1]; p >= q; --p) *(p + 1) = *p;\<close> with element indices for \<open>p\<close>, \<open>q\<close>.\<close>

function shift_right :: "int list \<Rightarrow> int \<Rightarrow> int \<Rightarrow> int list outcome" where
  "shift_right xs p q =
     (if p \<ge> q then
        if p < 0 then Undef
        else seq (of_option (aget xs (nat p)))
          (\<lambda>v. seq (of_option (aset xs (nat (p + 1)) v)) (\<lambda>xs'. shift_right xs' (p - 1) q))
      else Ret xs)"
  by pat_completeness auto
termination
  by (relation "measure (\<lambda>(xs, p, q). nat (p - q + 1))") auto

definition ListInsert_sq :: "allocator \<Rightarrow> sqlist option \<Rightarrow> int \<Rightarrow> int \<Rightarrow> (int \<times> sqlist option) outcome" where
  "ListInsert_sq A p i e =
     (case p of
        None \<Rightarrow> Ret (ERROR, p)
      | Some L \<Rightarrow>
         (case sq_elem L of
            None \<Rightarrow> Ret (ERROR, p)
          | Some base \<Rightarrow>
              if i < 1 \<or> i > c_int (sq_length L + 1) then Ret (ERROR, p)
              else
                seq (if sq_length L \<ge> sq_listsize L then
                       (case realloc A base (nat (c_int (sq_listsize L + LISTINCREMENT))) of
                          None \<Rightarrow> Exit OVERFLOW
                        | Some newbase \<Rightarrow>
                            Ret (newbase, c_int (sq_listsize L + LISTINCREMENT)))
                     else Ret (base, sq_listsize L))
                  (\<lambda>(b, sz). seq (shift_right b (sq_length L - 1) (i - 1))
                    (\<lambda>b'. seq (of_option (aset b' (nat (i - 1)) e))
                      (\<lambda>b''. Ret (OK, Some (L\<lparr>sq_elem := Some b'',
                                              sq_length := c_int (sq_length L + 1),
                                              sq_listsize := sz\<rparr>)))))))"

text \<open>\<open>for (++p; p <= q; ++p) *(p - 1) = *p;\<close>\<close>

function shift_left :: "int list \<Rightarrow> int \<Rightarrow> int \<Rightarrow> int list outcome" where
  "shift_left xs p q =
     (if p \<le> q then
        if p < 1 then Undef
        else seq (of_option (aget xs (nat p)))
          (\<lambda>v. seq (of_option (aset xs (nat (p - 1)) v)) (\<lambda>xs'. shift_left xs' (p + 1) q))
      else Ret xs)"
  by pat_completeness auto
termination
  by (relation "measure (\<lambda>(xs, p, q). nat (q - p + 1))") auto

definition ListDelete_sq :: "sqlist option \<Rightarrow> int \<Rightarrow> (int \<times> sqlist option \<times> int option) outcome" where
  "ListDelete_sq p i =
     (case p of
        None \<Rightarrow> Ret (ERROR, p, None)
      | Some L \<Rightarrow>
         (case sq_elem L of
            None \<Rightarrow> Ret (ERROR, p, None)
          | Some base \<Rightarrow>
              if i < 1 \<or> i > sq_length L then Ret (ERROR, p, None)
              else seq (of_option (aget base (nat (i - 1))))
                (\<lambda>e. seq (shift_left base i (sq_length L - 1))
                  (\<lambda>b'. Ret (OK, Some (L\<lparr>sq_elem := Some b', sq_length := sq_length L - 1\<rparr>),
                            Some e)))))"

text \<open>The values \<open>Visit\<close> is called with, in order.\<close>

function traverse_loop :: "sqlist \<Rightarrow> int \<Rightarrow> int list outcome" where
  "traverse_loop L i =
     (if i < sq_length L then
        seq (rd L i) (\<lambda>v. seq (traverse_loop L (i + 1)) (\<lambda>vs. Ret (v # vs)))
      else Ret [])"
  by pat_completeness auto
termination
  by (relation "measure (\<lambda>(L, i). nat (sq_length L - i))") auto

definition ListTraverse_sq :: "sqlist \<Rightarrow> int list outcome" where
  "ListTraverse_sq L = traverse_loop L 0"

declare locate_loop.simps [simp del] scan_loop.simps [simp del] shift_right.simps [simp del]
  shift_left.simps [simp del] traverse_loop.simps [simp del]

section \<open>Invariant and abstraction\<close>

definition sq_inv :: "sqlist \<Rightarrow> bool" where
  "sq_inv L \<longleftrightarrow>
     (case sq_elem L of
        None \<Rightarrow> False
      | Some base \<Rightarrow> 0 \<le> sq_length L \<and> sq_length L \<le> sq_listsize L \<and>
                     sq_listsize L = int (length base) \<and> sq_listsize L \<le> INT_MAX)"

definition sq_abs :: "sqlist \<Rightarrow> int list" where
  "sq_abs L = (case sq_elem L of None \<Rightarrow> [] | Some base \<Rightarrow> take (nat (sq_length L)) base)"

text \<open>One more element fits: in the block, or after growing it without leaving the \<open>int\<close> range.\<close>

definition sq_room :: "allocator \<Rightarrow> sqlist \<Rightarrow> bool" where
  "sq_room A L \<longleftrightarrow> sq_length L < sq_listsize L \<or>
     (sq_listsize L + LISTINCREMENT \<le> INT_MAX \<and> A (nat (sq_listsize L + LISTINCREMENT)) \<noteq> None)"

lemma sq_invE:
  assumes "sq_inv L"
  obtains base where "sq_elem L = Some base" "0 \<le> sq_length L" "sq_length L \<le> sq_listsize L"
    "sq_listsize L = int (length base)" "sq_listsize L \<le> INT_MAX"
    "sq_abs L = take (nat (sq_length L)) base"
  using assms by (auto simp: sq_inv_def sq_abs_def split: option.splits)

lemma length_sq_abs: "sq_inv L \<Longrightarrow> int (length (sq_abs L)) = sq_length L"
  by (auto elim!: sq_invE)

lemma rd_in: "sq_inv L \<Longrightarrow> 0 \<le> i \<Longrightarrow> i < sq_length L \<Longrightarrow> rd L i = Ret (sq_abs L ! nat i)"
  by (erule sq_invE) (auto simp: rd_def aget_def)

section \<open>The loops\<close>

lemma shift_right_step:
  assumes "q < m" "m < length (xs :: int list)"
  defines "ys \<equiv> xs[m := xs ! (m - 1)]"
  shows "take (Suc q) ys @ take (m - 1 - q) (drop q ys) @ drop m ys =
    take (Suc q) xs @ take (m - q) (drop q xs) @ drop (Suc m) xs"
proof -
  have "take (Suc q) ys = take (Suc q) xs" using assms(1) by (simp add: ys_def)
  moreover have "take (m - 1 - q) (drop q ys) = take (m - 1 - q) (drop q xs)"
    using assms(1) by (simp add: ys_def drop_update_swap)
  moreover have "drop m ys = xs ! (m - 1) # drop (Suc m) xs"
    using assms(2) by (simp add: ys_def drop_update_swap Cons_nth_drop_Suc [symmetric])
  moreover have "take (Suc (m - 1 - q)) (drop q xs) = take (m - 1 - q) (drop q xs) @ [xs ! (m - 1)]"
    using assms(1,2) by (simp add: take_Suc_conv_app_nth)
  moreover have "Suc (m - 1 - q) = m - q" using assms(1) by simp
  ultimately show ?thesis by simp
qed

lemma shift_right_eq:
  "q \<le> m \<Longrightarrow> m < length xs \<Longrightarrow>
    shift_right xs (int m - 1) (int q) =
      Ret (take (Suc q) xs @ take (m - q) (drop q xs) @ drop (Suc m) xs)"
proof (induction "m - q" arbitrary: m xs)
  case 0
  then have "m = q" by simp
  then show ?case by (simp add: shift_right.simps)
next
  case (Suc d)
  then have m: "q < m" "nat (int m - 1) = m - 1" by auto
  let ?ys = "xs[m := xs ! (m - 1)]"
  have "shift_right xs (int m - 1) (int q) = shift_right ?ys (int (m - 1) - 1) (int q)"
    using m Suc.prems by (subst shift_right.simps) (auto simp: array_simps of_nat_diff)
  also have "\<dots> = Ret (take (Suc q) ?ys @ take (m - 1 - q) (drop q ?ys) @ drop m ?ys)"
    using Suc.hyps(1) [of "m - 1" ?ys] Suc.hyps(2) Suc.prems m by simp
  finally show ?case
    using shift_right_step [of q m xs] m(1) Suc.prems by simp
qed

lemma shift_left_step:
  assumes "0 < p" "p < n" "n \<le> length (xs :: int list)"
  defines "ys \<equiv> xs[p - 1 := xs ! p]"
  shows "take p ys @ drop (Suc p) (take n ys) @ drop (n - 1) ys =
    take (p - 1) xs @ drop p (take n xs) @ drop (n - 1) xs"
proof -
  have "take (Suc (p - 1)) ys = take (p - 1) ys @ [ys ! (p - 1)]"
    using assms(1-3) by (intro take_Suc_conv_app_nth) (simp add: ys_def)
  then have "take p ys = take (p - 1) xs @ [xs ! p]"
    using assms(1-3) by (simp add: ys_def)
  moreover have "drop (Suc p) (take n ys) = drop (Suc p) (take n xs)"
    using assms(2) by (simp add: ys_def take_update_swap)
  moreover have "drop (n - 1) ys = drop (n - 1) xs"
    using assms(1,2) by (simp add: ys_def)
  moreover have "drop p (take n xs) = xs ! p # drop (Suc p) (take n xs)"
    using assms(2,3) by (simp add: Cons_nth_drop_Suc [symmetric])
  ultimately show ?thesis by simp
qed

lemma shift_left_eq:
  "0 < p \<Longrightarrow> p \<le> n \<Longrightarrow> n \<le> length xs \<Longrightarrow>
    shift_left xs (int p) (int n - 1) =
      Ret (take (p - 1) xs @ drop p (take n xs) @ drop (n - 1) xs)"
proof (induction "n - p" arbitrary: p xs)
  case 0
  then have "p = n" by simp
  then show ?case by (simp add: shift_left.simps)
next
  case (Suc d)
  then have p: "p < n" "nat (int p - 1) = p - 1" by auto
  let ?ys = "xs[p - 1 := xs ! p]"
  have "shift_left xs (int p) (int n - 1) = shift_left ?ys (int (Suc p)) (int n - 1)"
    using p Suc.prems by (subst shift_left.simps) (auto simp: array_simps add.commute)
  also have "\<dots> = Ret (take p ?ys @ drop (Suc p) (take n ?ys) @ drop (n - 1) ?ys)"
    using Suc.hyps(1) [of "Suc p" ?ys] Suc.hyps(2) Suc.prems p by simp
  finally show ?case
    using shift_left_step [of p n xs] p(1) Suc.prems by simp
qed

lemma locate_loop_eq:
  "sq_inv L \<Longrightarrow> k \<le> length (sq_abs L) \<Longrightarrow>
    locate_loop L e cmp (int k + 1) =
      Ret (case List.find (\<lambda>j. cmp (sq_abs L ! j) e) [k..<length (sq_abs L)] of
             None \<Rightarrow> sq_length L + 1 | Some j \<Rightarrow> int j + 1)"
proof (induction "length (sq_abs L) - k" arbitrary: k)
  case 0
  then show ?case
    using length_sq_abs [of L] by (subst locate_loop.simps) auto
next
  case (Suc d)
  then have k: "k < length (sq_abs L)" "int k < sq_length L"
    using length_sq_abs [of L] by auto
  have "locate_loop L e cmp (int (Suc k) + 1) =
      Ret (case List.find (\<lambda>j. cmp (sq_abs L ! j) e) [Suc k..<length (sq_abs L)] of
             None \<Rightarrow> sq_length L + 1 | Some j \<Rightarrow> int j + 1)"
    using Suc.hyps(1) [of "Suc k"] Suc.hyps(2) Suc.prems k by simp
  then show ?case
    using k Suc.prems
    by (subst locate_loop.simps) (auto simp: rd_in upt_conv_Cons add.commute)
qed

lemma scan_loop_eq:
  assumes "sq_inv L" "n \<le> length (sq_abs L)"
  shows "k \<le> n \<Longrightarrow> scan_loop L e (int n) (int k) =
      Ret (case List.find (\<lambda>j. sq_abs L ! j = e) [k..<n] of None \<Rightarrow> int n | Some j \<Rightarrow> int j)"
proof (induction "n - k" arbitrary: k)
  case 0
  then show ?case by (subst scan_loop.simps) auto
next
  case (Suc d)
  then have k: "k < n" "int k < sq_length L"
    using length_sq_abs [of L] assms by auto
  have "scan_loop L e (int (Suc k)) (int (Suc k)) = Ret (int (Suc k))"
    by (subst scan_loop.simps) simp
  have "scan_loop L e (int n) (int (Suc k)) =
      Ret (case List.find (\<lambda>j. sq_abs L ! j = e) [Suc k..<n] of None \<Rightarrow> int n | Some j \<Rightarrow> int j)"
    using Suc.hyps(1) [of "Suc k"] Suc.hyps(2) k by simp
  then show ?case
    using k assms(1)
    by (subst scan_loop.simps) (auto simp: rd_in upt_conv_Cons add.commute)
qed

lemma traverse_loop_eq:
  "sq_inv L \<Longrightarrow> k \<le> length (sq_abs L) \<Longrightarrow> traverse_loop L (int k) = Ret (drop k (sq_abs L))"
proof (induction "length (sq_abs L) - k" arbitrary: k)
  case 0
  then show ?case
    using length_sq_abs [of L] by (subst traverse_loop.simps) auto
next
  case (Suc d)
  then have k: "k < length (sq_abs L)" "int k < sq_length L"
    using length_sq_abs [of L] by auto
  have "traverse_loop L (int (Suc k)) = Ret (drop (Suc k) (sq_abs L))"
    using Suc.hyps(1) [of "Suc k"] Suc.hyps(2) Suc.prems k by simp
  then show ?case
    using k Suc.prems
    by (subst traverse_loop.simps) (simp add: rd_in add.commute Cons_nth_drop_Suc)
qed

section \<open>Functional behaviour of the operations\<close>

lemma InitList_sq_spec:
  assumes "wf_alloc A" "A 100 = Some base"
  shows "\<exists>L'. InitList_sq A L = Ret (OK, L') \<and> sq_inv L' \<and> sq_abs L' = []"
  using assms by (auto simp: InitList_sq_def LIST_INIT_SIZE_def wf_alloc_def sq_inv_def sq_abs_def
      INT_MAX_def)

lemma GetElem_sq_ok:
  "sq_inv L \<Longrightarrow> 1 \<le> i \<Longrightarrow> i \<le> int (length (sq_abs L)) \<Longrightarrow>
    GetElem_sq L i = Ret (OK, Some (sq_abs L ! nat (i - 1)))"
  by (simp add: GetElem_sq_def rd_in length_sq_abs)

lemma GetElem_sq_bad:
  "sq_inv L \<Longrightarrow> i < 1 \<or> i > int (length (sq_abs L)) \<Longrightarrow> GetElem_sq L i = Ret (ERROR, None)"
  by (auto simp: GetElem_sq_def length_sq_abs)

lemma LocateElem_sq_spec:
  assumes "sq_inv L"
  shows "LocateElem_sq L e cmp =
    Ret (case List.find (\<lambda>k. cmp (sq_abs L ! k) e) [0..<length (sq_abs L)] of
           None \<Rightarrow> 0 | Some k \<Rightarrow> int k + 1)"
proof -
  have "sq_elem L \<noteq> None" using assms by (auto elim!: sq_invE)
  then show ?thesis
    using locate_loop_eq [OF assms, of 0 e cmp] length_sq_abs [OF assms]
    by (cases "List.find (\<lambda>k. cmp (sq_abs L ! k) e) [0..<length (sq_abs L)]")
      (auto simp: LocateElem_sq_def dest: find_upt_Some [THEN iffD1])
qed

lemma realloc_grow:
  assumes "wf_alloc A" "A n = Some fresh" "length old \<le> n"
  shows "\<exists>b. realloc A old n = Some b \<and> length b = n \<and> take (length old) b = old"
  using assms by (auto simp: realloc_def wf_alloc_def)

text \<open>Shifting and writing on a block that has a free slot behind the \<open>m\<close> elements in use.\<close>

lemma insert_block:
  assumes "q \<le> m" "m < length (b :: int list)"
  shows "\<exists>b'. seq (shift_right b (int m - 1) (int q)) (\<lambda>b'. of_option (aset b' q e)) = Ret b' \<and>
    length b' = length b \<and> take (Suc m) b' = ins_nth q e (take m b)"
proof -
  let ?s = "take (Suc q) b @ take (m - q) (drop q b) @ drop (Suc m) b"
  have s: "?s[q := e] = take q b @ e # take (m - q) (drop q b) @ drop (Suc m) b"
    using assms by (simp add: take_Suc_conv_app_nth list_update_append)
  have "take (Suc m) (?s[q := e]) = ins_nth q e (take m b)"
    unfolding s using assms by (auto simp: ins_nth_def min_def drop_take Suc_diff_le)
  moreover have "length (?s[q := e]) = length b" using assms by simp
  ultimately show ?thesis
    using assms by (simp add: shift_right_eq array_simps)
qed

lemma insert_growth:
  assumes "sq_inv L" "wf_alloc A" "sq_room A L" "sq_elem L = Some base"
  shows "\<exists>b sz. (if sq_length L \<ge> sq_listsize L then
             (case realloc A base (nat (c_int (sq_listsize L + LISTINCREMENT))) of
                None \<Rightarrow> Exit OVERFLOW
              | Some newbase \<Rightarrow> Ret (newbase, c_int (sq_listsize L + LISTINCREMENT)))
           else Ret (base, sq_listsize L)) = Ret (b, sz) \<and>
    nat (sq_length L) < length b \<and> sz = int (length b) \<and> sz \<le> INT_MAX \<and>
    take (nat (sq_length L)) b = sq_abs L"
proof (cases "sq_length L < sq_listsize L")
  case True
  then show ?thesis using assms(1,4) by (auto elim!: sq_invE)
next
  case False
  let ?n = "sq_listsize L + LISTINCREMENT"
  from assms(1,4) have L: "0 \<le> sq_length L" "sq_length L = sq_listsize L"
      "sq_listsize L = int (length base)" "sq_abs L = base"
    using False by (auto elim!: sq_invE)
  from False assms(3) obtain fresh where n: "?n \<le> INT_MAX" "A (nat ?n) = Some fresh"
    by (auto simp: sq_room_def)
  have "length base \<le> nat ?n" using L(3) by (simp add: LISTINCREMENT_def nat_le_iff le_nat_iff)
  then obtain b where b: "realloc A base (nat ?n) = Some b" "length b = nat ?n"
      "take (length base) b = base"
    using realloc_grow [OF assms(2) n(2), of base] by blast
  have "c_int ?n = ?n"
    using L n(1) by (intro c_int_id) (auto simp: LISTINCREMENT_def INT_MAX_def)
  then show ?thesis using b L n False by (auto simp: LISTINCREMENT_def)
qed

lemma ListInsert_sq_ok:
  assumes "sq_inv L" "wf_alloc A" "sq_room A L" "1 \<le> i" "i \<le> int (length (sq_abs L)) + 1"
  shows "\<exists>L'. ListInsert_sq A (Some L) i e = Ret (OK, Some L') \<and> sq_inv L' \<and>
    sq_abs L' = ins_nth (nat (i - 1)) e (sq_abs L)"
proof -
  obtain base where base: "sq_elem L = Some base" using assms(1) by (auto elim!: sq_invE)
  obtain b sz where b: "(if sq_length L \<ge> sq_listsize L then
             (case realloc A base (nat (c_int (sq_listsize L + LISTINCREMENT))) of
                None \<Rightarrow> Exit OVERFLOW
              | Some newbase \<Rightarrow> Ret (newbase, c_int (sq_listsize L + LISTINCREMENT)))
           else Ret (base, sq_listsize L)) = Ret (b, sz)"
    and room: "nat (sq_length L) < length b" and sz: "sz = int (length b)" "sz \<le> INT_MAX"
    and abs: "take (nat (sq_length L)) b = sq_abs L"
    using insert_growth [OF assms(1-3) base] by blast
  define m where "m = nat (sq_length L)"
  have m: "sq_length L = int m" using length_sq_abs [OF assms(1)] by (simp add: m_def)
  define q where "q = nat (i - 1)"
  have q: "i - 1 = int q" "q \<le> m" using assms(4,5) length_sq_abs [OF assms(1)] m by (auto simp: q_def)
  obtain b' where b': "seq (shift_right b (int m - 1) (int q)) (\<lambda>b'. of_option (aset b' q e)) = Ret b'"
      "length b' = length b" "take (Suc m) b' = ins_nth q e (take m b)"
    using insert_block [OF q(2), of b e] room m by auto
  have c: "c_int (int m + 1) = int m + 1"
    using room sz m by (intro c_int_id) (auto simp: INT_MAX_def)
  have i: "\<not> (i < 1 \<or> i > int m + 1)" using q by linarith
  have "ListInsert_sq A (Some L) i e =
      Ret (OK, Some (L\<lparr>sq_elem := Some b', sq_length := int m + 1, sq_listsize := sz\<rparr>))"
    using b b'(1) i by (auto simp: ListInsert_sq_def base m c q seq_eq_Ret)
  moreover have "sq_inv (L\<lparr>sq_elem := Some b', sq_length := int m + 1, sq_listsize := sz\<rparr>)"
    using b'(2) room sz m by (simp add: sq_inv_def)
  ultimately show ?thesis
    using b'(3) abs m q_def by (auto simp: sq_abs_def nat_add_distrib)
qed

lemma ListInsert_sq_bad:
  assumes "sq_inv L" "i < 1 \<or> i > int (length (sq_abs L)) + 1"
  shows "ListInsert_sq A (Some L) i e = Ret (ERROR, Some L)"
proof (cases "i < 1")
  case True
  then show ?thesis using assms(1) by (auto simp: ListInsert_sq_def elim!: sq_invE)
next
  case False
  show ?thesis
  proof (cases "sq_length L = INT_MAX")
    case True
    then have "c_int (sq_length L + 1) = - 2147483648"
      by (simp add: c_int_def INT_MAX_def signed_take_bit_int_eq_self_iff)
    then show ?thesis using False assms(1) by (auto simp: ListInsert_sq_def elim!: sq_invE)
  next
    case False
    then have "c_int (sq_length L + 1) = sq_length L + 1"
      using assms(1) by (intro c_int_id) (auto simp: INT_MAX_def elim!: sq_invE)
    then show ?thesis
      using assms length_sq_abs [OF assms(1)] by (auto simp: ListInsert_sq_def elim!: sq_invE)
  qed
qed

text \<open>A full list whose growth request fails ends the process with \<open>exit(OVERFLOW)\<close>.\<close>

lemma ListInsert_sq_exit:
  assumes "sq_inv L" "1 \<le> i" "i \<le> int (length (sq_abs L)) + 1"
    "sq_length L = sq_listsize L" "sq_listsize L + LISTINCREMENT \<le> INT_MAX"
    "A (nat (sq_listsize L + LISTINCREMENT)) = None"
  shows "ListInsert_sq A (Some L) i e = Exit OVERFLOW"
proof -
  have "0 \<le> sq_listsize L" using assms(1) by (auto elim!: sq_invE)
  then have c: "c_int (sq_listsize L + LISTINCREMENT) = sq_listsize L + LISTINCREMENT"
      "c_int (sq_listsize L + 1) = sq_listsize L + 1"
    using assms(5) by (auto intro!: c_int_id simp: LISTINCREMENT_def INT_MAX_def)
  show ?thesis
    using assms c length_sq_abs [OF assms(1)]
    by (auto simp: ListInsert_sq_def realloc_def elim!: sq_invE)
qed

lemma ListDelete_sq_ok:
  assumes "sq_inv L" "1 \<le> i" "i \<le> int (length (sq_abs L))"
  shows "\<exists>L'. ListDelete_sq (Some L) i = Ret (OK, Some L', Some (sq_abs L ! nat (i - 1))) \<and>
    sq_inv L' \<and> sq_abs L' = del_nth (nat (i - 1)) (sq_abs L)"
proof -
  obtain base where L: "sq_elem L = Some base" "0 \<le> sq_length L" "sq_length L \<le> sq_listsize L"
      "sq_listsize L = int (length base)" "sq_listsize L \<le> INT_MAX"
      "sq_abs L = take (nat (sq_length L)) base"
    using assms(1) by (rule sq_invE)
  define n where "n = nat (sq_length L)"
  define p where "p = nat i"
  have n: "sq_length L = int n" "n \<le> length base" "length (sq_abs L) = n"
    using L by (auto simp: n_def)
  have p: "i = int p" "0 < p" "p \<le> n" using assms(2,3) n by (auto simp: p_def)
  let ?b = "take (p - 1) base @ drop p (take n base) @ drop (n - 1) base"
  let ?L = "L\<lparr>sq_elem := Some ?b, sq_length := sq_length L - 1\<rparr>"
  have "ListDelete_sq (Some L) i = Ret (OK, Some ?L, Some (base ! (p - 1)))"
    using p n L(1) shift_left_eq [OF p(2,3) n(2)]
    by (simp add: ListDelete_sq_def aget_def nat_diff_distrib)
  moreover have "sq_inv ?L" using n p L by (auto simp: sq_inv_def)
  moreover have "sq_abs ?L = del_nth (p - 1) (sq_abs L)"
    using n p L(6) by (simp add: sq_abs_def del_nth_def nat_diff_distrib)
  moreover have "nat (i - 1) = p - 1" using p by simp
  moreover have "base ! (p - 1) = sq_abs L ! (p - 1)" using p n L(6) by simp
  ultimately show ?thesis by auto
qed

lemma ListDelete_sq_bad:
  "sq_inv L \<Longrightarrow> i < 1 \<or> i > int (length (sq_abs L)) \<Longrightarrow>
    ListDelete_sq (Some L) i = Ret (ERROR, Some L, None)"
  by (auto simp: ListDelete_sq_def length_sq_abs elim!: sq_invE)

lemma ListTraverse_sq_eq: "sq_inv L \<Longrightarrow> ListTraverse_sq L = Ret (sq_abs L)"
  using traverse_loop_eq [of L 0] by (simp add: ListTraverse_sq_def)

section \<open>The sequential list implements the linear-list contract\<close>

abbreviation sq_insert where
  "sq_insert A L i e \<equiv> map_option (map_prod id the) (returned (ListInsert_sq A (Some L) i e))"

abbreviation sq_delete where
  "sq_delete L i \<equiv>
     map_option (map_prod id (map_prod the id)) (returned (ListDelete_sq (Some L) i))"

interpretation sq: linear_list
  sq_inv "\<lambda>L. wf_alloc A \<and> sq_room A L" sq_abs "sq_insert A" sq_delete
  "\<lambda>L i. returned (GetElem_sq L i)" "\<lambda>L e cmp. returned (LocateElem_sq L e cmp)"
  "\<lambda>L. Some (ListLength_sq L)" for A
proof (unfold_locales, goal_cases)
  case (1 s i e)
  then show ?case using ListInsert_sq_ok [of s A i e] by auto
next
  case (2 s i e)
  then show ?case by (simp add: ListInsert_sq_bad)
next
  case (3 s i)
  then show ?case using ListDelete_sq_ok [of s i] by auto
next
  case (4 s i)
  then show ?case by (simp add: ListDelete_sq_bad)
next
  case (5 s i)
  then show ?case by (simp add: GetElem_sq_ok)
next
  case (6 s i)
  then show ?case by (simp add: GetElem_sq_bad)
next
  case (7 s e cmp)
  then show ?case by (simp add: LocateElem_sq_spec)
next
  case (8 s)
  then show ?case by (simp add: ListLength_sq_def length_sq_abs)
qed

text \<open>With an allocator that never fails there is room below the \<open>int\<close> limit.\<close>

lemma sq_room_total:
  "sq_inv L \<Longrightarrow> (\<And>n. A n \<noteq> None) \<Longrightarrow> sq_length L + LISTINCREMENT \<le> INT_MAX \<Longrightarrow> sq_room A L"
  by (auto simp: sq_room_def elim!: sq_invE)

section \<open>Neighbours of an element\<close>

lemma PriorElem_sq_spec:
  assumes "sq_inv L"
  shows "PriorElem_sq L e =
    Ret (case List.find (\<lambda>k. sq_abs L ! k = e) [0..<length (sq_abs L)] of
           Some (Suc k) \<Rightarrow> (OK, Some (sq_abs L ! k)) | _ \<Rightarrow> (ERROR, None))"
proof -
  let ?n = "length (sq_abs L)"
  have L: "sq_elem L \<noteq> None" "sq_length L = int ?n"
    using assms length_sq_abs [OF assms] by (auto elim!: sq_invE)
  show ?thesis
  proof (cases "List.find (\<lambda>k. sq_abs L ! k = e) [0..<?n]")
    case None
    then show ?thesis
      using L scan_loop_eq [OF assms order_refl, of 0 e] by (simp add: PriorElem_sq_def)
  next
    case (Some k)
    then have "k < ?n" by (auto dest: find_upt_Some [THEN iffD1])
    then show ?thesis
      using L Some scan_loop_eq [OF assms order_refl, of 0 e]
      by (cases k) (auto simp: PriorElem_sq_def rd_in [OF assms])
  qed
qed

lemma NextElem_sq_spec:
  assumes "sq_inv L"
  shows "NextElem_sq L e =
    Ret (case List.find (\<lambda>k. sq_abs L ! k = e) [0..<length (sq_abs L) - 1] of
           Some k \<Rightarrow> (OK, Some (sq_abs L ! Suc k)) | None \<Rightarrow> (ERROR, None))"
proof -
  let ?n = "length (sq_abs L)"
  have L: "sq_elem L \<noteq> None" "sq_length L = int ?n"
    using assms length_sq_abs [OF assms] by (auto elim!: sq_invE)
  have eq: "scan_loop L e (int (?n - 1)) 0 =
      Ret (case List.find (\<lambda>j. sq_abs L ! j = e) [0..<?n - 1] of None \<Rightarrow> int (?n - 1) | Some j \<Rightarrow> int j)"
    using scan_loop_eq [OF assms, of "?n - 1" 0 e] by simp
  show ?thesis
  proof (cases "List.find (\<lambda>k. sq_abs L ! k = e) [0..<?n - 1]")
    case None
    then show ?thesis using L eq by (auto simp: NextElem_sq_def of_nat_diff)
  next
    case (Some k)
    then have "Suc k < ?n" by (auto dest: find_upt_Some [THEN iffD1])
    then show ?thesis
      using L Some eq
      by (auto simp: NextElem_sq_def of_nat_diff rd_in [OF assms] nat_add_distrib)
  qed
qed

section \<open>Properties\<close>

text \<open>
  Every branch of \<open>ListInsert\<close>. On a well-formed list a valid position with room left inserts
  the element there and keeps the list well-formed, growing the block by \<open>LISTINCREMENT\<close> when it is
  full; a valid position on a full block that cannot be grown ends the program with \<open>OVERFLOW\<close>; any
  other position reports \<open>ERROR\<close> and changes nothing.
\<close>
theorem ListInsert_sq_total:
  assumes "sq_inv L" "wf_alloc A" "sq_listsize L + LISTINCREMENT \<le> INT_MAX"
  shows "if 1 \<le> i \<and> i \<le> int (length (sq_abs L)) + 1
         then if sq_length L < sq_listsize L \<or> A (nat (sq_listsize L + LISTINCREMENT)) \<noteq> None
              then \<exists>L'. ListInsert_sq A (Some L) i e = Ret (OK, Some L') \<and> sq_inv L' \<and>
                     sq_abs L' = ins_nth (nat (i - 1)) e (sq_abs L)
              else ListInsert_sq A (Some L) i e = Exit OVERFLOW
         else ListInsert_sq A (Some L) i e = Ret (ERROR, Some L)"
proof -
  have full: "sq_length L = sq_listsize L" if "\<not> sq_length L < sq_listsize L"
    using that assms(1) by (auto elim!: sq_invE)
  show ?thesis
    using ListInsert_sq_ok [OF assms(1,2)] ListInsert_sq_bad [OF assms(1)]
      ListInsert_sq_exit [OF assms(1)] full assms(3)
    by (auto simp: sq_room_def)
qed

theorem ListInsert_sq_total_witness:
  defines "A \<equiv> (\<lambda>n. Some (replicate n 0)) :: allocator"
    and "L \<equiv> \<lparr>sq_elem = Some [4, 5, 6], sq_length = 3, sq_listsize = 3\<rparr>"
  shows "sq_abs L = [4, 5, 6] \<and>
    (\<exists>L'. ListInsert_sq A (Some L) 2 9 = Ret (OK, Some L') \<and> sq_abs L' = [4, 9, 5, 6])"
  using ListInsert_sq_total [of L A 2 9]
  by (auto simp: A_def L_def sq_inv_def sq_abs_def wf_alloc_def LISTINCREMENT_def INT_MAX_def
      ins_nth_def numeral_eq_Suc)

text \<open>
  Insert, then delete. After an element is inserted at a valid position, deleting that
  position succeeds, gives the element back and restores the contents, through the contract the
  sequential list satisfies.
\<close>
theorem ListDelete_sq_after_insert:
  assumes "sq_inv L" "wf_alloc A" "sq_room A L" "1 \<le> i" "i \<le> int (length (sq_abs L)) + 1"
  shows "\<exists>L' L''. sq_insert A L i e = Some (OK, L') \<and> sq_delete L' i = Some (OK, L'', Some e) \<and>
    sq_inv L'' \<and> sq_abs L'' = sq_abs L"
  using sq.delete_after_insert [of L A i e] assms by blast

theorem ListDelete_sq_after_insert_witness:
  defines "A \<equiv> (\<lambda>n. Some (replicate n 0)) :: allocator"
    and "L \<equiv> \<lparr>sq_elem = Some [4, 5, 6], sq_length = 3, sq_listsize = 3\<rparr>"
  shows "\<exists>L' L''. sq_insert A L 1 9 = Some (OK, L') \<and> sq_delete L' 1 = Some (OK, L'', Some 9) \<and>
    sq_abs L'' = [4, 5, 6]"
  using ListDelete_sq_after_insert [of L A 1 9]
  by (auto simp: A_def L_def sq_inv_def sq_abs_def wf_alloc_def sq_room_def LISTINCREMENT_def
      INT_MAX_def)

text \<open>
  Neighbours. \<open>PriorElem\<close> returns the element before the first occurrence of \<open>cur_e\<close>, and
  \<open>NextElem\<close> the element after its first occurrence that is not last; both report \<open>ERROR\<close> where
  there is none.
\<close>
theorem neighbours_sq:
  assumes "sq_inv L"
  shows "PriorElem_sq L e =
      Ret (case List.find (\<lambda>k. sq_abs L ! k = e) [0..<length (sq_abs L)] of
             Some (Suc k) \<Rightarrow> (OK, Some (sq_abs L ! k)) | _ \<Rightarrow> (ERROR, None)) \<and>
    NextElem_sq L e =
      Ret (case List.find (\<lambda>k. sq_abs L ! k = e) [0..<length (sq_abs L) - 1] of
             Some k \<Rightarrow> (OK, Some (sq_abs L ! Suc k)) | None \<Rightarrow> (ERROR, None))"
  using PriorElem_sq_spec [OF assms] NextElem_sq_spec [OF assms] by blast

theorem neighbours_sq_witness:
  defines "L \<equiv> \<lparr>sq_elem = Some [4, 5, 6, 0], sq_length = 3, sq_listsize = 4\<rparr>"
  shows "PriorElem_sq L 5 = Ret (OK, Some 4) \<and> NextElem_sq L 5 = Ret (OK, Some 6) \<and>
    PriorElem_sq L 4 = Ret (ERROR, None)"
  using neighbours_sq [of L 5] neighbours_sq [of L 4]
  by (simp add: L_def sq_inv_def sq_abs_def INT_MAX_def upt_rec numeral_eq_Suc)

end
