(* ===== verification/SqAlgo.thy ===== *)
theory SqAlgo
  imports SqList
begin

text \<open>
  The clients of the sequential list: the union of \<open>DataStruct_learn/Array/Union/Union.c\<close> and the
  two merges of \<open>DataStruct_learn/Array/MergeSqList/MergeSqList.c\<close>. The first merge is written
  against the list interface, the second against the arrays; both are shown to compute the same
  reference merge.
\<close>

section \<open>Union\<close>

definition equal :: "int \<Rightarrow> int \<Rightarrow> bool" where
  "equal e1 e2 \<longleftrightarrow> e1 = e2"

text \<open>\<open>for (i = 1; i <= Lb_len; i++)\<close>; an output parameter keeps its value when the call fails.\<close>

function union_loop ::
  "allocator \<Rightarrow> sqlist \<Rightarrow> int \<Rightarrow> int \<Rightarrow> sqlist option \<Rightarrow> int \<Rightarrow> int \<Rightarrow> sqlist option outcome"
where
  "union_loop A Lb Lb_len i p La_len e =
     (if i \<le> Lb_len then
        (case p of
           None \<Rightarrow> Undef
         | Some La \<Rightarrow>
            seq (GetElem_sq Lb i) (\<lambda>(st, r).
              let e = (case r of None \<Rightarrow> e | Some v \<Rightarrow> v) in
              seq (LocateElem_sq La e equal) (\<lambda>k.
                if k = 0 then
                  seq (ListInsert_sq A p (La_len + 1) e) (\<lambda>(st, p').
                    union_loop A Lb Lb_len (i + 1) p' (La_len + 1) e)
                else union_loop A Lb Lb_len (i + 1) p La_len e)))
      else Ret p)"
  by pat_completeness auto
termination
  by (relation "measure (\<lambda>(A, Lb, Lb_len, i, p, La_len, e). nat (Lb_len - i + 1))") auto

declare union_loop.simps [simp del]

definition Union :: "allocator \<Rightarrow> sqlist \<Rightarrow> sqlist \<Rightarrow> int \<Rightarrow> sqlist option outcome" where
  \<comment> \<open>\<open>e0\<close>: the value the uninitialised local \<open>e\<close> happens to have\<close>
  "Union A La Lb e0 = union_loop A Lb (ListLength_sq Lb) 1 (Some La) (ListLength_sq La) e0"

text \<open>What the loop computes on the contents.\<close>

fun union_list :: "int list \<Rightarrow> int list \<Rightarrow> int list" where
  "union_list xs [] = xs"
| "union_list xs (y # ys) = union_list (if y \<in> set xs then xs else xs @ [y]) ys"

lemma set_union_list: "set (union_list xs ys) = set xs \<union> set ys"
  by (induction xs ys rule: union_list.induct) auto

lemma distinct_union_list: "distinct xs \<Longrightarrow> distinct (union_list xs ys)"
  by (induction xs ys rule: union_list.induct) auto

lemma union_list_prefix: "\<exists>zs. union_list xs ys = xs @ zs"
  by (induction xs ys rule: union_list.induct) (auto split: if_splits)

lemma union_loop_eq:
  assumes "sq_inv Lb" "wf_alloc A" "\<And>n. A n \<noteq> None"
  shows "sq_inv La \<Longrightarrow> k \<le> length (sq_abs Lb) \<Longrightarrow>
    int (length (sq_abs La)) + int (length (sq_abs Lb) - k) + LISTINCREMENT \<le> INT_MAX \<Longrightarrow>
    \<exists>La'. union_loop A Lb (sq_length Lb) (int k + 1) (Some La) (sq_length La) e = Ret (Some La') \<and>
      sq_inv La' \<and> sq_abs La' = union_list (sq_abs La) (drop k (sq_abs Lb))"
proof (induction "length (sq_abs Lb) - k" arbitrary: k La e)
  case 0
  then show ?case
    using length_sq_abs [OF assms(1)] by (subst union_loop.simps) auto
next
  case (Suc d)
  let ?e = "sq_abs Lb ! k"
  have k: "k < length (sq_abs Lb)" using Suc.hyps(2) by simp
  have drop: "drop k (sq_abs Lb) = ?e # drop (Suc k) (sq_abs Lb)"
    using k by (simp add: Cons_nth_drop_Suc)
  have get: "GetElem_sq Lb (int k + 1) = Ret (OK, Some ?e)"
    using GetElem_sq_ok [OF assms(1), of "int k + 1"] k by simp
  have eq: "equal = (=)" by (intro ext) (simp add: equal_def)
  have loc: "\<exists>r. LocateElem_sq La ?e equal = Ret r \<and> (r = 0 \<longleftrightarrow> ?e \<notin> set (sq_abs La))"
    using sq.locate_eq_zero_iff [OF Suc.prems(1), of ?e] LocateElem_sq_spec [OF Suc.prems(1), of ?e equal]
    by (auto simp: eq)
  have len: "sq_length La = int (length (sq_abs La))" "sq_length Lb = int (length (sq_abs Lb))"
    using length_sq_abs assms(1) Suc.prems(1) by auto
  show ?case
  proof (cases "?e \<in> set (sq_abs La)")
    case True
    then have "union_loop A Lb (sq_length Lb) (int k + 1) (Some La) (sq_length La) e =
        union_loop A Lb (sq_length Lb) (int (Suc k) + 1) (Some La) (sq_length La) ?e"
      using k loc len by (subst union_loop.simps) (auto simp: get)
    then show ?thesis
      using Suc.hyps(1) [of "Suc k" La ?e] Suc.hyps(2) Suc.prems k True by (auto simp: drop)
  next
    case False
    have "sq_room A La" using Suc.prems len by (intro sq_room_total assms(3)) auto
    then obtain La' where La': "ListInsert_sq A (Some La) (sq_length La + 1) ?e = Ret (OK, Some La')"
        "sq_inv La'" "sq_abs La' = sq_abs La @ [?e]"
      using ListInsert_sq_ok [OF Suc.prems(1) assms(2), of "sq_length La + 1" ?e] len
      by (auto simp: ins_nth_end)
    then have "sq_length La' = sq_length La + 1" using length_sq_abs [of La'] len by simp
    then have "union_loop A Lb (sq_length Lb) (int k + 1) (Some La) (sq_length La) e =
        union_loop A Lb (sq_length Lb) (int (Suc k) + 1) (Some La') (sq_length La') ?e"
      using k loc False La' len by (subst union_loop.simps) (auto simp: get)
    then show ?thesis
      using Suc.hyps(1) [of "Suc k" La' ?e] Suc.hyps(2) Suc.prems k False La' by (auto simp: drop)
  qed
qed

section \<open>Merging through the list interface\<close>

text \<open>The loop while neither operand is exhausted; it returns \<open>(i, j, k, Lc)\<close>.\<close>

function merge_loop ::
  "allocator \<Rightarrow> sqlist \<Rightarrow> sqlist \<Rightarrow> int \<Rightarrow> int \<Rightarrow> int \<Rightarrow> int \<Rightarrow> int \<Rightarrow> int \<Rightarrow> int \<Rightarrow> sqlist option \<Rightarrow>
    (int \<times> int \<times> int \<times> sqlist option) outcome"
where
  "merge_loop A La Lb La_len Lb_len i j k ai bj p =
     (if i \<le> La_len \<and> j \<le> Lb_len then
        seq (GetElem_sq La i) (\<lambda>(st, r).
          let ai = (case r of None \<Rightarrow> ai | Some v \<Rightarrow> v) in
          seq (GetElem_sq Lb j) (\<lambda>(st, r).
            let bj = (case r of None \<Rightarrow> bj | Some v \<Rightarrow> v) in
            if ai \<le> bj then
              seq (ListInsert_sq A p (k + 1) ai) (\<lambda>(st, p').
                merge_loop A La Lb La_len Lb_len (i + 1) j (k + 1) ai bj p')
            else
              seq (ListInsert_sq A p (k + 1) bj) (\<lambda>(st, p').
                merge_loop A La Lb La_len Lb_len i (j + 1) (k + 1) ai bj p')))
      else Ret (i, j, k, p))"
  by pat_completeness auto
termination
  by (relation "measure (\<lambda>(A, La, Lb, m, n, i, j, k, ai, bj, p). nat (m - i + 1) + nat (n - j + 1))")
    auto

text \<open>The two tail loops: copy the rest of one operand; they return \<open>(k, Lc)\<close>.\<close>

function drain_loop ::
  "allocator \<Rightarrow> sqlist \<Rightarrow> int \<Rightarrow> int \<Rightarrow> int \<Rightarrow> int \<Rightarrow> sqlist option \<Rightarrow> (int \<times> sqlist option) outcome"
where
  "drain_loop A L len i k e p =
     (if i \<le> len then
        seq (GetElem_sq L i) (\<lambda>(st, r).
          let e = (case r of None \<Rightarrow> e | Some v \<Rightarrow> v) in
          seq (ListInsert_sq A p (k + 1) e) (\<lambda>(st, p'). drain_loop A L len (i + 1) (k + 1) e p'))
      else Ret (k, p))"
  by pat_completeness auto
termination
  by (relation "measure (\<lambda>(A, L, len, i, k, e, p). nat (len - i + 1))") auto

declare merge_loop.simps [simp del] drain_loop.simps [simp del]

definition MergeSqList_1 ::
  "allocator \<Rightarrow> sqlist \<Rightarrow> sqlist \<Rightarrow> sqlist \<Rightarrow> int \<Rightarrow> int \<Rightarrow> sqlist option outcome"
where
  \<comment> \<open>\<open>ai0\<close>, \<open>bj0\<close>: the values of the uninitialised locals; \<open>Lc\<close>: the caller's structure\<close>
  "MergeSqList_1 A La Lb Lc ai0 bj0 =
     seq (InitList_sq A Lc) (\<lambda>(st, Lc).
       let La_len = ListLength_sq La; Lb_len = ListLength_sq Lb in
       seq (merge_loop A La Lb La_len Lb_len 1 1 0 ai0 bj0 (Some Lc)) (\<lambda>(i, j, k, p).
         seq (drain_loop A La La_len i k ai0 p) (\<lambda>(k, p).
           seq (drain_loop A Lb Lb_len j k bj0 p) (\<lambda>(k, p). Ret p))))"

section \<open>Merging on the arrays\<close>

text \<open>
  The pointers \<open>pa\<close>, \<open>pb\<close>, \<open>pc\<close> as indices into the three blocks. \<open>merge_ptr\<close> runs while neither
  operand is exhausted, \<open>copy_ptr\<close> copies the rest of one operand.
\<close>

function merge_ptr ::
  "int list \<Rightarrow> nat \<Rightarrow> int list \<Rightarrow> nat \<Rightarrow> nat \<Rightarrow> nat \<Rightarrow> nat \<Rightarrow> int list \<Rightarrow> (nat \<times> nat \<times> nat \<times> int list) outcome"
where
  "merge_ptr as m bs n pa pb pc cs =
     (if pa < m \<and> pb < n then
        seq (of_option (aget as pa)) (\<lambda>a. seq (of_option (aget bs pb)) (\<lambda>b.
          if a \<le> b then
            seq (of_option (aset cs pc a)) (\<lambda>cs'. merge_ptr as m bs n (pa + 1) pb (pc + 1) cs')
          else
            seq (of_option (aset cs pc b)) (\<lambda>cs'. merge_ptr as m bs n pa (pb + 1) (pc + 1) cs')))
      else Ret (pa, pb, pc, cs))"
  by pat_completeness auto
termination
  by (relation "measure (\<lambda>(as, m, bs, n, pa, pb, pc, cs). (m - pa) + (n - pb))") auto

function copy_ptr :: "int list \<Rightarrow> nat \<Rightarrow> nat \<Rightarrow> nat \<Rightarrow> int list \<Rightarrow> (nat \<times> int list) outcome" where
  "copy_ptr as m pa pc cs =
     (if pa < m then
        seq (of_option (aget as pa)) (\<lambda>a.
          seq (of_option (aset cs pc a)) (\<lambda>cs'. copy_ptr as m (pa + 1) (pc + 1) cs'))
      else Ret (pc, cs))"
  by pat_completeness auto
termination
  by (relation "measure (\<lambda>(as, m, pa, pc, cs). m - pa)") auto

declare merge_ptr.simps [simp del] copy_ptr.simps [simp del]

definition MergeSqList_2 :: "allocator \<Rightarrow> sqlist \<Rightarrow> sqlist \<Rightarrow> sqlist \<Rightarrow> sqlist outcome" where
  "MergeSqList_2 A La Lb Lc =
     (let n = c_int (sq_length La + sq_length Lb) in
      case A (nat n) of
        None \<Rightarrow> Exit OVERFLOW
      | Some cs \<Rightarrow>
         (case (sq_elem La, sq_elem Lb) of
            (Some as, Some bs) \<Rightarrow>
              (let la = nat (sq_length La); lb = nat (sq_length Lb) in
               seq (merge_ptr as la bs lb 0 0 0 cs) (\<lambda>(pa, pb, pc, cs).
                 seq (copy_ptr as la pa pc cs) (\<lambda>(pc, cs).
                   seq (copy_ptr bs lb pb pc cs) (\<lambda>(pc, cs).
                     Ret (Lc\<lparr>sq_elem := Some cs, sq_length := n, sq_listsize := n\<rparr>)))))
          | _ \<Rightarrow> Undef))"

section \<open>The reference merge\<close>

fun merge_list :: "int list \<Rightarrow> int list \<Rightarrow> int list" where
  "merge_list [] ys = ys"
| "merge_list xs [] = xs"
| "merge_list (x # xs) (y # ys) =
     (if x \<le> y then x # merge_list xs (y # ys) else y # merge_list (x # xs) ys)"

lemma merge_list_Nil2 [simp]: "merge_list xs [] = xs"
  by (cases xs) auto

lemma mset_merge_list: "mset (merge_list xs ys) = mset xs + mset ys"
  by (induction xs ys rule: merge_list.induct) auto

lemma length_merge_list: "length (merge_list xs ys) = length xs + length ys"
  by (induction xs ys rule: merge_list.induct) auto

lemma set_merge_list: "set (merge_list xs ys) = set xs \<union> set ys"
  by (induction xs ys rule: merge_list.induct) auto

lemma sorted_merge_list: "sorted xs \<Longrightarrow> sorted ys \<Longrightarrow> sorted (merge_list xs ys)"
  by (induction xs ys rule: merge_list.induct) (auto simp: set_merge_list)

lemma merge_list_drop:
  assumes "i < length xs" "j < length ys"
  shows "merge_list (drop i xs) (drop j ys) =
    (if xs ! i \<le> ys ! j then xs ! i # merge_list (drop (Suc i) xs) (drop j ys)
     else ys ! j # merge_list (drop i xs) (drop (Suc j) ys))"
  using assms by (simp add: Cons_nth_drop_Suc [symmetric])

section \<open>Correctness of the interface merge\<close>

lemma int_Suc_right: "int (Suc n) = int n + 1"
  by simp

text \<open>Appending through \<open>ListInsert\<close>, the only way the merges and the union build their result.\<close>

lemma ListInsert_sq_append:
  assumes "sq_inv L" "wf_alloc A" "\<And>n. A n \<noteq> None"
    "int (length (sq_abs L)) + LISTINCREMENT \<le> INT_MAX"
  shows "\<exists>L'. ListInsert_sq A (Some L) (int (length (sq_abs L)) + 1) e = Ret (OK, Some L') \<and>
    sq_inv L' \<and> sq_abs L' = sq_abs L @ [e]"
proof -
  have "sq_room A L"
    using assms length_sq_abs [OF assms(1)] by (intro sq_room_total) auto
  from ListInsert_sq_ok [OF assms(1,2) this, of "int (length (sq_abs L)) + 1" e]
  show ?thesis by (auto simp: ins_nth_end)
qed

lemma drain_loop_eq:
  assumes "sq_inv L" "wf_alloc A" "\<And>n. A n \<noteq> None"
  shows "sq_inv Lc \<Longrightarrow> a \<le> length (sq_abs L) \<Longrightarrow>
    int (length (sq_abs Lc)) + int (length (sq_abs L) - a) + LISTINCREMENT \<le> INT_MAX \<Longrightarrow>
    \<exists>Lc'. drain_loop A L (sq_length L) (int a + 1) (int (length (sq_abs Lc))) e (Some Lc) =
        Ret (int (length (sq_abs Lc')), Some Lc') \<and>
      sq_inv Lc' \<and> sq_abs Lc' = sq_abs Lc @ drop a (sq_abs L)"
proof (induction "length (sq_abs L) - a" arbitrary: a Lc e)
  case 0
  then show ?case
    using length_sq_abs [OF assms(1)] by (subst drain_loop.simps) auto
next
  case (Suc d)
  let ?v = "sq_abs L ! a"
  have a: "a < length (sq_abs L)" using Suc.hyps(2) by simp
  obtain Lc' where Lc': "sq_inv Lc'" "sq_abs Lc' = sq_abs Lc @ [?v]"
      "ListInsert_sq A (Some Lc) (int (length (sq_abs Lc)) + 1) ?v = Ret (OK, Some Lc')"
    using ListInsert_sq_append [OF Suc.prems(1) assms(2,3), of ?v] Suc.prems(3) by auto
  have "drain_loop A L (sq_length L) (int a + 1) (int (length (sq_abs Lc))) e (Some Lc) =
      drain_loop A L (sq_length L) (int (Suc a) + 1) (int (length (sq_abs Lc'))) ?v (Some Lc')"
    using a Lc' length_sq_abs [OF assms(1)] GetElem_sq_ok [OF assms(1), of "int a + 1"]
    by (subst drain_loop.simps) (auto simp: algebra_simps)
  then show ?case
    using Suc.hyps(1) [of "Suc a" Lc' ?v] Suc.hyps(2) Suc.prems a Lc'
    by (auto simp: Cons_nth_drop_Suc)
qed

lemma merge_loop_eq:
  assumes "sq_inv La" "sq_inv Lb" "wf_alloc A" "\<And>n. A n \<noteq> None"
  defines "xs \<equiv> sq_abs La" and "ys \<equiv> sq_abs Lb"
  shows "sq_inv Lc \<Longrightarrow> a \<le> length xs \<Longrightarrow> b \<le> length ys \<Longrightarrow>
    int (length (sq_abs Lc)) + int (length xs - a) + int (length ys - b) + LISTINCREMENT \<le> INT_MAX \<Longrightarrow>
    \<exists>a' b' Lc'. merge_loop A La Lb (sq_length La) (sq_length Lb) (int a + 1) (int b + 1)
          (int (length (sq_abs Lc))) ai bj (Some Lc) =
        Ret (int a' + 1, int b' + 1, int (length (sq_abs Lc')), Some Lc') \<and>
      sq_inv Lc' \<and> a' \<le> length xs \<and> b' \<le> length ys \<and> (a' = length xs \<or> b' = length ys) \<and>
      sq_abs Lc' @ merge_list (drop a' xs) (drop b' ys) =
        sq_abs Lc @ merge_list (drop a xs) (drop b ys)"
proof (induction "length xs - a + (length ys - b)" arbitrary: a b Lc ai bj rule: less_induct)
  case less
  have len: "sq_length La = int (length xs)" "sq_length Lb = int (length ys)"
    using length_sq_abs assms(1,2) by (auto simp: xs_def ys_def)
  show ?case
  proof (cases "a < length xs \<and> b < length ys")
    case False
    then have "merge_loop A La Lb (sq_length La) (sq_length Lb) (int a + 1) (int b + 1)
          (int (length (sq_abs Lc))) ai bj (Some Lc) =
        Ret (int a + 1, int b + 1, int (length (sq_abs Lc)), Some Lc)"
      using len by (subst merge_loop.simps) auto
    then show ?thesis using False less.prems by fastforce
  next
    case True
    have get: "GetElem_sq La (int a + 1) = Ret (OK, Some (xs ! a))"
        "GetElem_sq Lb (int b + 1) = Ret (OK, Some (ys ! b))"
      using GetElem_sq_ok [OF assms(1), of "int a + 1"] GetElem_sq_ok [OF assms(2), of "int b + 1"] True
      by (auto simp: xs_def ys_def)
    define v where "v = (if xs ! a \<le> ys ! b then xs ! a else ys ! b)"
    define a1 where "a1 = (if xs ! a \<le> ys ! b then Suc a else a)"
    define b1 where "b1 = (if xs ! a \<le> ys ! b then b else Suc b)"
    obtain L1 where L1: "sq_inv L1" "sq_abs L1 = sq_abs Lc @ [v]"
        "ListInsert_sq A (Some Lc) (int (length (sq_abs Lc)) + 1) v = Ret (OK, Some L1)"
      using ListInsert_sq_append [OF less.prems(1) assms(3,4), of v] less.prems(4) by auto
    have "merge_loop A La Lb (sq_length La) (sq_length Lb) (int a + 1) (int b + 1)
          (int (length (sq_abs Lc))) ai bj (Some Lc) =
        merge_loop A La Lb (sq_length La) (sq_length Lb) (int a1 + 1) (int b1 + 1)
          (int (length (sq_abs L1))) (xs ! a) (ys ! b) (Some L1)"
      using True L1 len by (subst merge_loop.simps) 
        (auto simp: get v_def a1_def b1_def int_Suc_right simp del: of_nat_Suc)
    moreover have "v # merge_list (drop a1 xs) (drop b1 ys) = merge_list (drop a xs) (drop b ys)"
      using True merge_list_drop [of a xs b ys] by (simp add: v_def a1_def b1_def)
    moreover have "length xs - a1 + (length ys - b1) < length xs - a + (length ys - b)"
        "a1 \<le> length xs" "b1 \<le> length ys"
        "int (length (sq_abs L1)) + int (length xs - a1) + int (length ys - b1) + LISTINCREMENT \<le> INT_MAX"
      using True L1(2) less.prems(4) by (auto simp: a1_def b1_def)
    ultimately show ?thesis
      using less.hyps [of a1 b1 L1 "xs ! a" "ys ! b"] L1(1,2) by simp
  qed
qed

lemma MergeSqList_1_eq:
  assumes "sq_inv La" "sq_inv Lb" "wf_alloc A" "\<And>n. A n \<noteq> None"
    "int (length (sq_abs La)) + int (length (sq_abs Lb)) + LISTINCREMENT \<le> INT_MAX"
  shows "\<exists>L. MergeSqList_1 A La Lb Lc ai bj = Ret (Some L) \<and> sq_inv L \<and>
    sq_abs L = merge_list (sq_abs La) (sq_abs Lb)"
proof -
  obtain L0 where L0: "InitList_sq A Lc = Ret (OK, L0)" "sq_inv L0" "sq_abs L0 = []"
    using InitList_sq_spec [OF assms(3)] assms(4) [of 100] by (metis not_None_eq)
  obtain a b L1 where m: "merge_loop A La Lb (sq_length La) (sq_length Lb) 1 1 0 ai bj (Some L0) =
        Ret (int a + 1, int b + 1, int (length (sq_abs L1)), Some L1)"
    and L1: "sq_inv L1" "a \<le> length (sq_abs La)" "b \<le> length (sq_abs Lb)"
      "a = length (sq_abs La) \<or> b = length (sq_abs Lb)"
      "sq_abs L1 @ merge_list (drop a (sq_abs La)) (drop b (sq_abs Lb)) =
        merge_list (sq_abs La) (sq_abs Lb)"
    using merge_loop_eq [OF assms(1-4) L0(2), of 0 0 ai bj] assms(5) L0(3) by auto
  have "length (sq_abs L1) + (length (sq_abs La) - a) + (length (sq_abs Lb) - b) =
      length (sq_abs La) + length (sq_abs Lb)"
    using arg_cong [OF L1(5), of length] by (simp add: length_merge_list)
  note bound = this
  obtain L2 where L2: "drain_loop A La (sq_length La) (int a + 1) (int (length (sq_abs L1))) ai (Some L1) =
        Ret (int (length (sq_abs L2)), Some L2)" "sq_inv L2"
      "sq_abs L2 = sq_abs L1 @ drop a (sq_abs La)"
    using drain_loop_eq [OF assms(1,3,4) L1(1,2), of ai] bound assms(5) by auto
  obtain L3 where L3: "drain_loop A Lb (sq_length Lb) (int b + 1) (int (length (sq_abs L2))) bj (Some L2) =
        Ret (int (length (sq_abs L3)), Some L3)" "sq_inv L3"
      "sq_abs L3 = sq_abs L2 @ drop b (sq_abs Lb)"
    using drain_loop_eq [OF assms(2-4) L2(2) L1(3), of bj] bound assms(5) L2(3) by auto
  have "sq_abs L3 = merge_list (sq_abs La) (sq_abs Lb)"
    using L1(4,5) L2(3) L3(3) by auto
  then show ?thesis
    using L0(1) m L2(1) L3(1,2) by (auto simp: MergeSqList_1_def ListLength_sq_def)
qed

section \<open>Correctness of the array merge\<close>

lemma copy_ptr_eq:
  "m \<le> length as \<Longrightarrow> pa \<le> m \<Longrightarrow> pc + (m - pa) \<le> length cs \<Longrightarrow>
    \<exists>cs'. copy_ptr as m pa pc cs = Ret (pc + (m - pa), cs') \<and> length cs' = length cs \<and>
      take (pc + (m - pa)) cs' = take pc cs @ drop pa (take m as)"
proof (induction "m - pa" arbitrary: pa pc cs)
  case 0
  then show ?case by (subst copy_ptr.simps) auto
next
  case (Suc d)
  then have pa: "pa < m" "pc < length cs" by auto
  let ?cs = "cs[pc := as ! pa]"
  have "copy_ptr as m pa pc cs = copy_ptr as m (Suc pa) (Suc pc) ?cs"
    using pa Suc.prems by (subst copy_ptr.simps) (auto simp: array_simps)
  moreover have "take (Suc pc) ?cs = take pc cs @ [as ! pa]"
    using pa(2) by (simp add: take_Suc_conv_app_nth)
  moreover have "drop pa (take m as) = as ! pa # drop (Suc pa) (take m as)"
    using pa(1) Suc.prems(1) by (simp add: Cons_nth_drop_Suc [symmetric])
  ultimately show ?case
    using Suc.hyps(1) [of "Suc pa" "Suc pc" ?cs] Suc.hyps(2) Suc.prems pa(1)
    by (auto simp: Suc_diff_Suc)
qed

lemma merge_ptr_eq:
  assumes "m \<le> length as" "n \<le> length bs"
  defines "xs \<equiv> take m as" and "ys \<equiv> take n bs"
  shows "pa \<le> m \<Longrightarrow> pb \<le> n \<Longrightarrow> pc + (m - pa) + (n - pb) \<le> length cs \<Longrightarrow>
    \<exists>pa' pb' pc' cs'. merge_ptr as m bs n pa pb pc cs = Ret (pa', pb', pc', cs') \<and>
      pa' \<le> m \<and> pb' \<le> n \<and> (pa' = m \<or> pb' = n) \<and> length cs' = length cs \<and>
      pc' + (m - pa') + (n - pb') = pc + (m - pa) + (n - pb) \<and>
      take pc' cs' @ merge_list (drop pa' xs) (drop pb' ys) =
        take pc cs @ merge_list (drop pa xs) (drop pb ys)"
proof (induction "m - pa + (n - pb)" arbitrary: pa pb pc cs rule: less_induct)
  case less
  show ?case
  proof (cases "pa < m \<and> pb < n")
    case False
    then have "merge_ptr as m bs n pa pb pc cs = Ret (pa, pb, pc, cs)"
      by (subst merge_ptr.simps) auto
    then show ?thesis using False less.prems by auto
  next
    case True
    define v where "v = (if as ! pa \<le> bs ! pb then as ! pa else bs ! pb)"
    define a1 where "a1 = (if as ! pa \<le> bs ! pb then Suc pa else pa)"
    define b1 where "b1 = (if as ! pa \<le> bs ! pb then pb else Suc pb)"
    let ?cs = "cs[pc := v]"
    have pc: "pc < length cs" using True less.prems(3) by linarith
    have "merge_ptr as m bs n pa pb pc cs = merge_ptr as m bs n a1 b1 (Suc pc) ?cs"
      using True assms(1,2) pc
      by (subst merge_ptr.simps) (auto simp: array_simps v_def a1_def b1_def)
    moreover have "take (Suc pc) ?cs = take pc cs @ [v]"
      using pc by (simp add: take_Suc_conv_app_nth)
    moreover have "v # merge_list (drop a1 xs) (drop b1 ys) = merge_list (drop pa xs) (drop pb ys)"
      using True assms(1,2) merge_list_drop [of pa xs pb ys]
      by (simp add: v_def a1_def b1_def xs_def ys_def)
    moreover have "m - a1 + (n - b1) < m - pa + (n - pb)" "a1 \<le> m" "b1 \<le> n"
        "Suc pc + (m - a1) + (n - b1) = pc + (m - pa) + (n - pb)"
      using True by (auto simp: a1_def b1_def)
    ultimately show ?thesis
      using less.hyps [of a1 b1 "Suc pc" ?cs] less.prems(3) by simp
  qed
qed

lemma MergeSqList_2_eq:
  assumes "sq_inv La" "sq_inv Lb" "wf_alloc A" "\<And>n. A n \<noteq> None"
    "sq_length La + sq_length Lb \<le> INT_MAX"
  shows "\<exists>L. MergeSqList_2 A La Lb Lc = Ret L \<and> sq_inv L \<and>
    sq_abs L = merge_list (sq_abs La) (sq_abs Lb)"
proof -
  obtain as bs where e: "sq_elem La = Some as" "sq_elem Lb = Some bs"
    using assms(1,2) by (auto elim!: sq_invE)
  define m n where "m = nat (sq_length La)" and "n = nat (sq_length Lb)"
  have La: "sq_length La = int m" "m \<le> length as" "sq_abs La = take m as"
    using assms(1) e by (auto simp: m_def elim!: sq_invE)
  have Lb: "sq_length Lb = int n" "n \<le> length bs" "sq_abs Lb = take n bs"
    using assms(2) e by (auto simp: n_def elim!: sq_invE)
  have c: "c_int (int m + int n) = int m + int n"
    using assms(5) La(1) Lb(1) by (intro c_int_id) (auto simp: INT_MAX_def)
  obtain cs where "A (m + n) = Some cs" using assms(4) [of "m + n"] by auto
  then have cs: "A (nat (int m + int n)) = Some cs" "length cs = m + n"
    using assms(3) by (auto simp: wf_alloc_def nat_add_distrib)
  obtain pa pb pc c1 where m1: "merge_ptr as m bs n 0 0 0 cs = Ret (pa, pb, pc, c1)"
      "pa \<le> m" "pb \<le> n" "pa = m \<or> pb = n" "length c1 = m + n" "pc + (m - pa) + (n - pb) = m + n"
      "take pc c1 @ merge_list (drop pa (take m as)) (drop pb (take n bs)) =
        merge_list (take m as) (take n bs)"
    using merge_ptr_eq [OF La(2) Lb(2), of 0 0 0 cs] cs(2) by auto
  obtain c2 where c2: "copy_ptr as m pa pc c1 = Ret (pc + (m - pa), c2)" "length c2 = m + n"
      "take (pc + (m - pa)) c2 = take pc c1 @ drop pa (take m as)"
    using copy_ptr_eq [OF La(2) m1(2), of pc c1] m1(5,6) by auto
  obtain c3 where c3: "copy_ptr bs n pb (pc + (m - pa)) c2 = Ret (m + n, c3)" "length c3 = m + n"
      "take (m + n) c3 = take (pc + (m - pa)) c2 @ drop pb (take n bs)"
    using copy_ptr_eq [OF Lb(2) m1(3), of "pc + (m - pa)" c2] c2(2) m1(6) by auto
  have "c3 = merge_list (take m as) (take n bs)"
    using m1(4,7) c2(3) c3(2,3) by auto
  then show ?thesis
    using m1(1) c2(1) c3(1,2) cs e La Lb c assms(5)
    by (auto simp: MergeSqList_2_def Let_def sq_inv_def sq_abs_def nat_add_distrib)
qed

section \<open>Properties\<close>

text \<open>
  C28 (\<open>Union\<close>). With an allocator that does not fail and the sizes below the \<open>int\<close> limit, \<open>Union\<close>
  returns a well-formed list that extends \<open>La\<close>, holds exactly the elements of both lists, and has
  no duplicate when \<open>La\<close> has none.
\<close>
theorem Union_correct:
  assumes "sq_inv La" "sq_inv Lb" "wf_alloc A" "\<And>n. A n \<noteq> None"
    "int (length (sq_abs La)) + int (length (sq_abs Lb)) + LISTINCREMENT \<le> INT_MAX"
  shows "\<exists>L zs. Union A La Lb e0 = Ret (Some L) \<and> sq_inv L \<and> sq_abs L = sq_abs La @ zs \<and>
    set (sq_abs L) = set (sq_abs La) \<union> set (sq_abs Lb) \<and>
    distinct (sq_abs La) = distinct (sq_abs La @ zs)"
proof -
  obtain L where L: "Union A La Lb e0 = Ret (Some L)" "sq_inv L"
      "sq_abs L = union_list (sq_abs La) (sq_abs Lb)"
    using union_loop_eq [OF assms(2-4,1), of 0 e0] assms(5)
    by (auto simp: Union_def ListLength_sq_def)
  obtain zs where zs: "sq_abs L = sq_abs La @ zs" using union_list_prefix L(3) by metis
  have "distinct (sq_abs La) \<Longrightarrow> distinct (sq_abs La @ zs)"
    using distinct_union_list L(3) zs by metis
  then have "distinct (sq_abs La) = distinct (sq_abs La @ zs)" by auto
  then show ?thesis using L zs set_union_list by metis
qed

theorem Union_correct_witness:
  defines "A \<equiv> (\<lambda>n. Some (replicate n 0)) :: allocator"
    and "La \<equiv> \<lparr>sq_elem = Some [4, 5], sq_length = 2, sq_listsize = 2\<rparr>"
    and "Lb \<equiv> \<lparr>sq_elem = Some [5, 7], sq_length = 2, sq_listsize = 2\<rparr>"
  shows "\<exists>L. Union A La Lb 0 = Ret (Some L) \<and> set (sq_abs L) = {4, 5, 7} \<and> distinct (sq_abs L)"
proof -
  have abs: "sq_abs La = [4, 5]" "sq_abs Lb = [5, 7]" by (simp_all add: La_def Lb_def sq_abs_def)
  then have "int (length (sq_abs La)) + int (length (sq_abs Lb)) + LISTINCREMENT \<le> INT_MAX"
    by (simp add: LISTINCREMENT_def INT_MAX_def)
  moreover have "sq_inv La" "sq_inv Lb" "wf_alloc A" "\<And>n. A n \<noteq> None"
    by (simp_all add: A_def La_def Lb_def sq_inv_def wf_alloc_def INT_MAX_def)
  ultimately obtain L zs where "Union A La Lb 0 = Ret (Some L)" "sq_abs L = sq_abs La @ zs"
      "set (sq_abs L) = set (sq_abs La) \<union> set (sq_abs Lb)"
      "distinct (sq_abs La) = distinct (sq_abs La @ zs)"
    using Union_correct [of La Lb A 0] by blast
  then show ?thesis unfolding abs by (intro exI [of _ L]) auto
qed

text \<open>
  C26 (merging, and the equivalence of its two algorithms). The element-wise \<open>MergeSqList_1\<close> and the
  pointer version \<open>MergeSqList_2\<close> return lists with the same contents: a permutation of both inputs,
  sorted when the inputs are.
\<close>
theorem MergeSqList_equiv:
  assumes "sq_inv La" "sq_inv Lb" "wf_alloc A" "\<And>n. A n \<noteq> None"
    "int (length (sq_abs La)) + int (length (sq_abs Lb)) + LISTINCREMENT \<le> INT_MAX"
    "sorted (sq_abs La)" "sorted (sq_abs Lb)"
  shows "\<exists>L1 L2. MergeSqList_1 A La Lb Lc ai bj = Ret (Some L1) \<and>
    MergeSqList_2 A La Lb Lc = Ret L2 \<and> sq_inv L1 \<and> sq_inv L2 \<and> sq_abs L1 = sq_abs L2 \<and>
    mset (sq_abs L1) = mset (sq_abs La) + mset (sq_abs Lb) \<and> sorted (sq_abs L1)"
proof -
  have "sq_length La + sq_length Lb \<le> INT_MAX"
    using assms(5) by (simp add: length_sq_abs [OF assms(1)] length_sq_abs [OF assms(2)]
        LISTINCREMENT_def)
  then show ?thesis
    using MergeSqList_1_eq [OF assms(1-5), of Lc ai bj] MergeSqList_2_eq [OF assms(1-4), of Lc]
      mset_merge_list sorted_merge_list [OF assms(6,7)]
    by metis
qed

theorem MergeSqList_equiv_witness:
  defines "A \<equiv> (\<lambda>n. Some (replicate n 0)) :: allocator"
    and "La \<equiv> \<lparr>sq_elem = Some [3, 8], sq_length = 2, sq_listsize = 2\<rparr>"
    and "Lb \<equiv> \<lparr>sq_elem = Some [5, 7], sq_length = 2, sq_listsize = 2\<rparr>"
  shows "\<exists>L1 L2. MergeSqList_1 A La Lb La 0 0 = Ret (Some L1) \<and> MergeSqList_2 A La Lb La = Ret L2 \<and>
    sq_abs L1 = [3, 5, 7, 8] \<and> sq_abs L2 = [3, 5, 7, 8]"
proof -
  have abs: "sq_abs La = [3, 8]" "sq_abs Lb = [5, 7]" by (simp_all add: La_def Lb_def sq_abs_def)
  then have "int (length (sq_abs La)) + int (length (sq_abs Lb)) + LISTINCREMENT \<le> INT_MAX"
    by (simp add: LISTINCREMENT_def INT_MAX_def)
  moreover have "sq_inv La" "sq_inv Lb" "wf_alloc A" "\<And>n. A n \<noteq> None"
    by (simp_all add: A_def La_def Lb_def sq_inv_def wf_alloc_def INT_MAX_def)
  ultimately obtain L1 L2 where L: "MergeSqList_1 A La Lb La 0 0 = Ret (Some L1)"
      "MergeSqList_2 A La Lb La = Ret L2" "sq_abs L1 = sq_abs L2"
      "mset (sq_abs L1) = mset [3, 5, 7, 8]" "sorted (sq_abs L1)"
    using MergeSqList_equiv [of La Lb A La 0 0] abs by auto
  then have "sq_abs L1 = [3, 5, 7, 8]"
    using properties_for_sort [of "sq_abs L1" "[3, 5, 7, 8]"] by simp
  then show ?thesis using L by auto
qed

end
