(* ===== verification/SLinkList.thy ===== *)
theory SLinkList
  imports LinearList
begin

text \<open>
  The static linked list of \<open>DataStruct_learn/Array/SLinkList/SLinkList.c\<close>: an array of nodes whose
  \<open>cur\<close> fields (cursors) chain the free nodes from node 0 and the list from its head node. Every
  read and write of \<open>space\<close> is bounds-checked, and the cursor loops are general recursions, so a
  result \<open>None\<close> stands for an access outside the array or for a loop that never ends.
\<close>

section \<open>Data\<close>

record slnode =
  data :: int
  cur :: nat

type_synonym space = "slnode list"

definition MAXSIZE :: nat where "MAXSIZE = 1000"

section \<open>The spare space\<close>

text \<open>\<open>space[i].cur = v\<close> and \<open>space[i].data = v\<close>.\<close>

definition set_cur :: "space \<Rightarrow> nat \<Rightarrow> nat \<Rightarrow> space option" where
  "set_cur sp i v = do { n \<leftarrow> aget sp i; aset sp i (n\<lparr>cur := v\<rparr>) }"

definition set_data :: "space \<Rightarrow> nat \<Rightarrow> int \<Rightarrow> space option" where
  "set_data sp i v = do { n \<leftarrow> aget sp i; aset sp i (n\<lparr>data := v\<rparr>) }"

definition get_cur :: "space \<Rightarrow> nat \<Rightarrow> nat option" where
  "get_cur sp i = map_option cur (aget sp i)"

definition get_data :: "space \<Rightarrow> nat \<Rightarrow> int option" where
  "get_data sp i = map_option data (aget sp i)"

function init_loop :: "space \<Rightarrow> nat \<Rightarrow> space option" where
  "init_loop sp i =
     (if i < MAXSIZE - 1 then do { sp' \<leftarrow> set_cur sp i (i + 1); init_loop sp' (i + 1) }
      else Some sp)"
  by pat_completeness auto
termination
  by (relation "measure (\<lambda>(sp, i). MAXSIZE - i)") auto

definition InitSpace :: "space \<Rightarrow> space option" where
  "InitSpace sp = do { sp' \<leftarrow> init_loop sp 0; set_cur sp' (MAXSIZE - 1) 0 }"

definition Malloc :: "space \<Rightarrow> (nat \<times> space) option" where
  "Malloc sp = do {
     i \<leftarrow> get_cur sp 0;
     if i \<noteq> 0 then do { c \<leftarrow> get_cur sp i; sp' \<leftarrow> set_cur sp 0 c; Some (i, sp') }
     else Some (i, sp) }"

definition Free :: "space \<Rightarrow> nat \<Rightarrow> space option" where
  "Free sp k = do { c \<leftarrow> get_cur sp 0; sp' \<leftarrow> set_cur sp k c; set_cur sp' 0 k }"

section \<open>List operations\<close>

text \<open>Results: the status code, then the output parameters and the changed space.\<close>

definition InitList_sl :: "space \<Rightarrow> nat \<Rightarrow> (int \<times> nat \<times> space) option" where
  "InitList_sl sp S = do {
     sp \<leftarrow> InitSpace sp;
     (index, sp) \<leftarrow> Malloc sp;
     if index = 0 then Some (ERROR, S, sp)
     else do { sp \<leftarrow> set_cur sp index 0; Some (OK, index, sp) } }"

text \<open>The loop of \<open>DestroyList\<close> and \<open>ClearList\<close>: give back every node from \<open>p\<close> on.\<close>

partial_function (option) free_loop :: "space \<Rightarrow> nat \<Rightarrow> space option" where
  "free_loop sp p =
     (if p \<noteq> 0 then do { c \<leftarrow> get_cur sp p; sp \<leftarrow> Free sp p; free_loop sp c } else Some sp)"

definition DestroyList_sl :: "space \<Rightarrow> nat option \<Rightarrow> (int \<times> nat option \<times> space) option" where
  "DestroyList_sl sp p =
     (case p of
        None \<Rightarrow> Some (ERROR, p, sp)
      | Some S \<Rightarrow> if S = 0 then Some (ERROR, p, sp)
                  else do { sp \<leftarrow> free_loop sp S; Some (OK, Some 0, sp) })"

definition ClearList_sl :: "space \<Rightarrow> nat \<Rightarrow> (int \<times> space) option" where
  "ClearList_sl sp S =
     (if S = 0 then Some (ERROR, sp)
      else do { p \<leftarrow> get_cur sp S; sp \<leftarrow> free_loop sp p; sp \<leftarrow> set_cur sp S 0; Some (OK, sp) })"

definition ListEmpty_sl :: "space \<Rightarrow> nat \<Rightarrow> bool option" where
  "ListEmpty_sl sp S =
     (if S = 0 then Some False else do { c \<leftarrow> get_cur sp S; Some (c = 0) })"

text \<open>The common guard \<open>S == 0 || space[S].cur == 0\<close>.\<close>

definition no_elems :: "space \<Rightarrow> nat \<Rightarrow> bool option" where
  "no_elems sp S = (if S = 0 then Some True else do { c \<leftarrow> get_cur sp S; Some (c = 0) })"

partial_function (option) count_loop :: "space \<Rightarrow> nat \<Rightarrow> int \<Rightarrow> int option" where
  "count_loop sp S cnt =
     (if S \<noteq> 0 then do { c \<leftarrow> get_cur sp S; count_loop sp c (cnt + 1) } else Some cnt)"

definition ListLength_sl :: "space \<Rightarrow> nat \<Rightarrow> int option" where
  "ListLength_sl sp S = do {
     b \<leftarrow> no_elems sp S;
     if b then Some 0 else do { p \<leftarrow> get_cur sp S; count_loop sp p 0 } }"

text \<open>\<open>while (p != 0 && count < n) \<dots>\<close>, shared by \<open>GetElem\<close> and \<open>ListInsert\<close>; returns \<open>(p, count)\<close>.\<close>

partial_function (option) walk_loop :: "space \<Rightarrow> nat \<Rightarrow> int \<Rightarrow> int \<Rightarrow> (nat \<times> int) option" where
  "walk_loop sp p cnt n =
     (if p \<noteq> 0 \<and> cnt < n then do { c \<leftarrow> get_cur sp p; walk_loop sp c (cnt + 1) n }
      else Some (p, cnt))"

definition GetElem_sl :: "space \<Rightarrow> nat \<Rightarrow> int \<Rightarrow> (int \<times> int option) option" where
  "GetElem_sl sp S i = do {
     b \<leftarrow> no_elems sp S;
     if b then Some (ERROR, None)
     else do {
       p \<leftarrow> get_cur sp S;
       (p, cnt) \<leftarrow> walk_loop sp p 0 (i - 1);
       if p = 0 \<or> cnt > i - 1 then Some (ERROR, None)
       else do { e \<leftarrow> get_data sp p; Some (OK, Some e) } } }"

partial_function (option) locate_loop_sl ::
  "space \<Rightarrow> int \<Rightarrow> (int \<Rightarrow> int \<Rightarrow> bool) \<Rightarrow> nat \<Rightarrow> int \<Rightarrow> (nat \<times> int) option" where
  "locate_loop_sl sp e cmp p i =
     (if p \<noteq> 0 then do {
        d \<leftarrow> get_data sp p;
        if \<not> cmp d e then do { c \<leftarrow> get_cur sp p; locate_loop_sl sp e cmp c (i + 1) }
        else Some (p, i) }
      else Some (p, i))"

definition LocateElem_sl :: "space \<Rightarrow> nat \<Rightarrow> int \<Rightarrow> (int \<Rightarrow> int \<Rightarrow> bool) \<Rightarrow> int option" where
  "LocateElem_sl sp S e cmp = do {
     b \<leftarrow> no_elems sp S;
     if b then Some 0
     else do {
       p \<leftarrow> get_cur sp S;
       (p, i) \<leftarrow> locate_loop_sl sp e cmp p 1;
       Some (if p \<noteq> 0 then i else 0) } }"

partial_function (option) prior_loop :: "space \<Rightarrow> int \<Rightarrow> nat \<Rightarrow> nat \<Rightarrow> (nat \<times> nat) option" where
  "prior_loop sp cur_e pre nxt =
     (if nxt \<noteq> 0 then do {
        d \<leftarrow> get_data sp nxt;
        if d \<noteq> cur_e then do { c \<leftarrow> get_cur sp nxt; prior_loop sp cur_e nxt c }
        else Some (pre, nxt) }
      else Some (pre, nxt))"

definition PriorElem_sl :: "space \<Rightarrow> nat \<Rightarrow> int \<Rightarrow> (int \<times> int option) option" where
  "PriorElem_sl sp S cur_e = do {
     b \<leftarrow> no_elems sp S;
     if b then Some (ERROR, None)
     else do {
       pre \<leftarrow> get_cur sp S;
       d \<leftarrow> get_data sp pre;
       if d = cur_e then Some (ERROR, None)
       else do {
         nxt \<leftarrow> get_cur sp pre;
         (pre, nxt) \<leftarrow> prior_loop sp cur_e pre nxt;
         if nxt = 0 then Some (ERROR, None)
         else do { v \<leftarrow> get_data sp pre; Some (OK, Some v) } } } }"

partial_function (option) next_loop :: "space \<Rightarrow> int \<Rightarrow> nat \<Rightarrow> nat option" where
  "next_loop sp cur_e pre = do {
     c \<leftarrow> get_cur sp pre;
     if c \<noteq> 0 then do {
       d \<leftarrow> get_data sp pre;
       if d \<noteq> cur_e then next_loop sp cur_e c else Some pre }
     else Some pre }"

definition NextElem_sl :: "space \<Rightarrow> nat \<Rightarrow> int \<Rightarrow> (int \<times> int option) option" where
  "NextElem_sl sp S cur_e = do {
     b \<leftarrow> no_elems sp S;
     if b then Some (ERROR, None)
     else do {
       pre \<leftarrow> get_cur sp S;
       pre \<leftarrow> next_loop sp cur_e pre;
       c \<leftarrow> get_cur sp pre;
       if c = 0 then Some (ERROR, None)
       else do { v \<leftarrow> get_data sp c; Some (OK, Some v) } } }"

definition ListInsert_sl :: "space \<Rightarrow> nat \<Rightarrow> int \<Rightarrow> int \<Rightarrow> (int \<times> space) option" where
  "ListInsert_sl sp S i e =
     (if S = 0 then Some (ERROR, sp)
      else do {
        (p, j) \<leftarrow> walk_loop sp S 0 (i - 1);
        if p = 0 \<or> j > i - 1 then Some (ERROR, sp)
        else do {
          (s, sp) \<leftarrow> Malloc sp;
          sp \<leftarrow> set_data sp s e;
          c \<leftarrow> get_cur sp p;
          sp \<leftarrow> set_cur sp s c;
          sp \<leftarrow> set_cur sp p s;
          Some (OK, sp) } })"

text \<open>\<open>while (space[p].cur != 0 && j < n) \<dots>\<close> of \<open>ListDelete\<close>.\<close>

partial_function (option) walk_next_loop :: "space \<Rightarrow> nat \<Rightarrow> int \<Rightarrow> int \<Rightarrow> (nat \<times> int) option" where
  "walk_next_loop sp p j n = do {
     c \<leftarrow> get_cur sp p;
     if c \<noteq> 0 \<and> j < n then walk_next_loop sp c (j + 1) n else Some (p, j) }"

definition ListDelete_sl :: "space \<Rightarrow> nat \<Rightarrow> int \<Rightarrow> (int \<times> space \<times> int option) option" where
  "ListDelete_sl sp S i =
     (if S = 0 then Some (ERROR, sp, None)
      else do {
        (p, j) \<leftarrow> walk_next_loop sp S 0 (i - 1);
        q \<leftarrow> get_cur sp p;
        if q = 0 \<or> j > i - 1 then Some (ERROR, sp, None)
        else do {
          c \<leftarrow> get_cur sp q;
          sp \<leftarrow> set_cur sp p c;
          e \<leftarrow> get_data sp q;
          sp \<leftarrow> Free sp q;
          Some (OK, sp, Some e) } })"

partial_function (option) visit_loop :: "space \<Rightarrow> nat \<Rightarrow> int list \<Rightarrow> int list option" where
  "visit_loop sp p vs =
     (if p \<noteq> 0 then do {
        d \<leftarrow> get_data sp p; c \<leftarrow> get_cur sp p; visit_loop sp c (vs @ [d]) }
      else Some vs)"

text \<open>The values \<open>Visit\<close> is called with, in order.\<close>

definition ListTraverse_sl :: "space \<Rightarrow> nat \<Rightarrow> int list option" where
  "ListTraverse_sl sp S = do {
     b \<leftarrow> no_elems sp S;
     if b then Some [] else do { p \<leftarrow> get_cur sp S; visit_loop sp p [] } }"

declare init_loop.simps [simp del]

section \<open>Chains of cursors\<close>

lemma get_cur_in [simp]: "i < length sp \<Longrightarrow> get_cur sp i = Some (cur (sp ! i))"
  by (simp add: get_cur_def aget_def)

lemma get_data_in [simp]: "i < length sp \<Longrightarrow> get_data sp i = Some (data (sp ! i))"
  by (simp add: get_data_def aget_def)

lemma set_cur_in [simp]: "i < length sp \<Longrightarrow> set_cur sp i v = Some (sp[i := (sp ! i)\<lparr>cur := v\<rparr>])"
  by (simp add: set_cur_def aget_def aset_def)

lemma set_data_in [simp]:
  "i < length sp \<Longrightarrow> set_data sp i v = Some (sp[i := (sp ! i)\<lparr>data := v\<rparr>])"
  by (simp add: set_data_def aget_def aset_def)

text \<open>\<open>seg sp p ns q\<close>: following cursors from \<open>p\<close> visits exactly the nodes \<open>ns\<close> and arrives at \<open>q\<close>.\<close>

primrec seg :: "space \<Rightarrow> nat \<Rightarrow> nat list \<Rightarrow> nat \<Rightarrow> bool" where
  "seg sp p [] q \<longleftrightarrow> p = q"
| "seg sp p (n # ns) q \<longleftrightarrow> p = n \<and> n \<noteq> 0 \<and> n < length sp \<and> seg sp (cur (sp ! n)) ns q"

lemma seg_append: "seg sp p (xs @ ys) q \<longleftrightarrow> (\<exists>r. seg sp p xs r \<and> seg sp r ys q)"
  by (induction xs arbitrary: p) auto

lemma seg_in_bounds: "seg sp p ns q \<Longrightarrow> n \<in> set ns \<Longrightarrow> n \<noteq> 0 \<and> n < length sp"
  by (induction ns arbitrary: p) auto

lemma seg_update: "i \<notin> set ns \<Longrightarrow> seg (sp[i := v]) p ns q \<longleftrightarrow> seg sp p ns q"
  by (induction ns arbitrary: p) auto

lemma cur_update_same: "cur v = cur (sp ! i) \<Longrightarrow> cur (sp[i := v] ! n) = cur (sp ! n)"
  by (cases "i < length sp"; cases "n = i") (simp_all add: list_update_beyond)

lemma seg_update_data:
  assumes "cur v = cur (sp ! i)"
  shows "seg (sp[i := v]) p ns q \<longleftrightarrow> seg sp p ns q"
  by (induction ns arbitrary: p) (simp_all add: cur_update_same [OF assms])

lemma seg_zero_start: "seg sp 0 ns q \<Longrightarrow> ns = [] \<and> q = 0"
  by (cases ns) auto

lemma seg_unique: "seg sp p ns 0 \<Longrightarrow> seg sp p ms 0 \<Longrightarrow> ns = ms"
proof (induction ns arbitrary: p ms)
  case Nil
  then show ?case by (auto dest: seg_zero_start)
next
  case (Cons n ns)
  then show ?case by (cases ms) auto
qed

text \<open>The node behind \<open>xs\<close> on a chain, and the cursor of the last node of a segment.\<close>

lemma seg_nth: "seg sp p ns q \<Longrightarrow> k < length ns \<Longrightarrow> seg sp p (take k ns) (ns ! k)"
proof (induction ns arbitrary: p k)
  case Nil
  then show ?case by simp
next
  case (Cons n ns)
  then show ?case by (cases k) auto
qed

section \<open>Representation\<close>

text \<open>
  \<open>sl_rep sp S fr ns\<close>: the free nodes \<open>fr\<close>, the head \<open>S\<close> and the element nodes \<open>ns\<close> are all the
  nodes but node 0, each exactly once, and the two chains run through them in this order.
\<close>

definition sl_rep :: "space \<Rightarrow> nat \<Rightarrow> nat list \<Rightarrow> nat list \<Rightarrow> bool" where
  "sl_rep sp S fr ns \<longleftrightarrow>
     length sp = MAXSIZE \<and> seg sp (cur (sp ! 0)) fr 0 \<and> seg sp S (S # ns) 0 \<and>
     distinct (fr @ S # ns) \<and> set (fr @ S # ns) = {1..<MAXSIZE}"

definition sl_inv :: "space \<Rightarrow> nat \<Rightarrow> bool" where
  "sl_inv sp S \<longleftrightarrow> (\<exists>fr ns. sl_rep sp S fr ns)"

text \<open>The stored sequence is what a traversal visits.\<close>

definition sl_abs :: "space \<Rightarrow> nat \<Rightarrow> int list" where
  "sl_abs sp S = (case ListTraverse_sl sp S of None \<Rightarrow> [] | Some vs \<Rightarrow> vs)"

definition sl_room :: "space \<Rightarrow> bool" where
  "sl_room sp \<longleftrightarrow> get_cur sp 0 \<noteq> Some 0"

lemma sl_repD:
  assumes "sl_rep sp S fr ns"
  shows "length sp = MAXSIZE" "0 < length sp" "seg sp (cur (sp ! 0)) fr 0" "S \<noteq> 0" "S < length sp"
    "seg sp (cur (sp ! S)) ns 0" "distinct fr" "distinct ns" "S \<notin> set fr" "S \<notin> set ns"
    "set fr \<inter> set ns = {}" "0 \<notin> set fr" "0 \<notin> set ns"
    "length fr + length ns = MAXSIZE - 2"
proof -
  from assms have s: "set (fr @ S # ns) = {1..<MAXSIZE}" "distinct (fr @ S # ns)"
      and l: "length sp = MAXSIZE" "seg sp (cur (sp ! 0)) fr 0" "seg sp S (S # ns) 0"
    unfolding sl_rep_def by blast+
  show "length sp = MAXSIZE" "seg sp (cur (sp ! 0)) fr 0" by fact+
  show "S \<noteq> 0" "S < length sp" "seg sp (cur (sp ! S)) ns 0" using l(3) by auto
  show "distinct fr" "distinct ns" "S \<notin> set fr" "S \<notin> set ns" "set fr \<inter> set ns = {}"
    using s(2) by auto
  show "0 < length sp" using l(1) by (simp add: MAXSIZE_def)
  have "0 \<notin> set (fr @ S # ns)" unfolding s(1) by simp
  then show "0 \<notin> set fr" "0 \<notin> set ns" by simp_all
  have "card (set (fr @ S # ns)) = length (fr @ S # ns)" by (rule distinct_card [OF s(2)])
  then have "card {1..<MAXSIZE} = length (fr @ S # ns)" by (simp only: s(1))
  then show "length fr + length ns = MAXSIZE - 2" by simp
qed

section \<open>The loops on a chain\<close>

lemma visit_loop_seg:
  "seg sp p ns 0 \<Longrightarrow> visit_loop sp p vs = Some (vs @ map (\<lambda>n. data (sp ! n)) ns)"
proof (induction ns arbitrary: p vs)
  case Nil
  then show ?case by (subst visit_loop.simps) simp
next
  case (Cons n ns)
  then show ?case by (subst visit_loop.simps) simp
qed

lemma count_loop_seg: "seg sp p ns 0 \<Longrightarrow> count_loop sp p k = Some (k + int (length ns))"
proof (induction ns arbitrary: p k)
  case Nil
  then show ?case by (subst count_loop.simps) simp
next
  case (Cons n ns)
  then show ?case by (subst count_loop.simps) simp
qed

lemma walk_loop_seg:
  "seg sp p ns 0 \<Longrightarrow> walk_loop sp p j (j + int k) =
    Some (if k < length ns then ns ! k else 0, j + int (min k (length ns)))"
proof (induction ns arbitrary: p j k)
  case Nil
  then show ?case by (subst walk_loop.simps) simp
next
  case (Cons n ns)
  show ?case
  proof (cases k)
    case 0
    then show ?thesis using Cons.prems by (subst walk_loop.simps) simp
  next
    case (Suc k')
    have "walk_loop sp p j (j + int k) = walk_loop sp (cur (sp ! n)) (j + 1) (j + int k)"
      using Cons.prems Suc by (subst walk_loop.simps) simp
    moreover have "j + int k = j + 1 + int k'" using Suc by simp
    ultimately show ?thesis
      using Cons.IH [of "cur (sp ! n)" "j + 1" k'] Cons.prems Suc by (simp add: add.assoc)
  qed
qed

lemma walk_loop_short: "n \<le> j \<Longrightarrow> walk_loop sp p j n = Some (p, j)"
  by (subst walk_loop.simps) simp

lemma walk_next_loop_seg:
  "seg sp p (p # ns) 0 \<Longrightarrow> walk_next_loop sp p j (j + int k) =
    Some ((p # ns) ! min k (length ns), j + int (min k (length ns)))"
proof (induction ns arbitrary: p j k)
  case Nil
  then show ?case by (subst walk_next_loop.simps) simp
next
  case (Cons n ns)
  show ?case
  proof (cases k)
    case 0
    then show ?thesis using Cons.prems by (subst walk_next_loop.simps) simp
  next
    case (Suc k')
    have "walk_next_loop sp p j (j + int k) = walk_next_loop sp n (j + 1) (j + int k)"
      using Cons.prems Suc by (subst walk_next_loop.simps) simp
    moreover have "j + int k = j + 1 + int k'" using Suc by simp
    ultimately show ?thesis
      using Cons.IH [of n "j + 1" k'] Cons.prems Suc by (simp add: add.assoc)
  qed
qed

lemma walk_next_loop_short: "p < length sp \<Longrightarrow> n \<le> j \<Longrightarrow> walk_next_loop sp p j n = Some (p, j)"
  by (subst walk_next_loop.simps) simp

section \<open>Initialisation\<close>

lemma seg_upt:
  "0 < a \<Longrightarrow> a \<le> b \<Longrightarrow> b \<le> length sp \<Longrightarrow> (\<And>j. a \<le> j \<Longrightarrow> j < b \<Longrightarrow> cur (sp ! j) = Suc j) \<Longrightarrow>
    seg sp a [a..<b] b"
proof (induction "b - a" arbitrary: a)
  case 0
  then show ?case by simp
next
  case (Suc d)
  then have "a < b" by simp
  with Suc.hyps(1) [of "Suc a"] Suc.hyps(2) Suc.prems show ?case
    by (simp add: upt_conv_Cons)
qed

lemma init_loop_eq:
  "length sp = MAXSIZE \<Longrightarrow> i \<le> MAXSIZE - 1 \<Longrightarrow>
    \<exists>sp'. init_loop sp i = Some sp' \<and> length sp' = MAXSIZE \<and>
      (\<forall>j. i \<le> j \<and> j < MAXSIZE - 1 \<longrightarrow> cur (sp' ! j) = Suc j) \<and> (\<forall>j<i. sp' ! j = sp ! j)"
proof (induction "MAXSIZE - 1 - i" arbitrary: i sp)
  case 0
  then have "\<not> i < MAXSIZE - 1" by linarith
  then have "init_loop sp i = Some sp" by (subst init_loop.simps) (simp only: if_False)
  with 0 show ?case by auto
next
  case (Suc d)
  then have i: "i < MAXSIZE - 1" by simp
  let ?sp = "sp[i := (sp ! i)\<lparr>cur := i + 1\<rparr>]"
  have d: "d = MAXSIZE - 1 - Suc i" using Suc.hyps(2) by linarith
  have "init_loop sp i = init_loop ?sp (Suc i)"
    using i Suc.prems(1) by (subst init_loop.simps) simp
  then obtain sp' where sp': "init_loop sp i = Some sp'" "length sp' = MAXSIZE"
      "\<forall>j. Suc i \<le> j \<and> j < MAXSIZE - 1 \<longrightarrow> cur (sp' ! j) = Suc j" "\<forall>j<Suc i. sp' ! j = ?sp ! j"
    using Suc.hyps(1) [OF d, of ?sp] Suc.prems i by auto
  then have "cur (sp' ! i) = Suc i" using i Suc.prems(1) by simp
  moreover have "\<forall>j<i. sp' ! j = sp ! j" using sp'(4) by simp
  ultimately show ?case using sp' by (metis Suc_leI le_neq_implies_less)
qed

lemma InitSpace_eq:
  assumes "length sp = MAXSIZE"
  shows "\<exists>sp'. InitSpace sp = Some sp' \<and> length sp' = MAXSIZE \<and> cur (sp' ! 0) = 1 \<and>
    seg sp' 1 [1..<MAXSIZE] 0"
proof -
  have big: "2 < MAXSIZE" by (simp add: MAXSIZE_def)
  obtain sp1 where sp1: "init_loop sp 0 = Some sp1" "length sp1 = MAXSIZE"
      "\<forall>j. j < MAXSIZE - 1 \<longrightarrow> cur (sp1 ! j) = Suc j"
    using init_loop_eq [OF assms, of 0] by auto
  let ?sp = "sp1[MAXSIZE - 1 := (sp1 ! (MAXSIZE - 1))\<lparr>cur := 0\<rparr>]"
  have init: "InitSpace sp = Some ?sp" using sp1 big by (simp add: InitSpace_def)
  have "seg ?sp 1 [1..<MAXSIZE - 1] (MAXSIZE - 1)"
    using sp1 big by (intro seg_upt) auto
  then have "seg ?sp 1 ([1..<MAXSIZE - 1] @ [MAXSIZE - 1]) 0"
    using sp1(2) big by (auto simp: seg_append)
  moreover have "[1..<MAXSIZE - 1] @ [MAXSIZE - 1] = [1..<MAXSIZE]"
    using big upt_Suc_append [of 1 "MAXSIZE - 1"] by simp
  moreover have "cur (?sp ! 0) = 1" using sp1 big by simp
  ultimately show ?thesis using init sp1(2) by simp
qed

lemma InitList_sl_rep:
  assumes "length sp = MAXSIZE"
  shows "\<exists>sp'. InitList_sl sp S = Some (OK, 1, sp') \<and> sl_rep sp' 1 [2..<MAXSIZE] []"
proof -
  have big: "2 < MAXSIZE" by (simp add: MAXSIZE_def)
  obtain sp1 where sp1: "InitSpace sp = Some sp1" "length sp1 = MAXSIZE" "cur (sp1 ! 0) = 1"
      "seg sp1 1 [1..<MAXSIZE] 0"
    using InitSpace_eq [OF assms] by blast
  have upt: "[1..<MAXSIZE] = 1 # [2..<MAXSIZE]"
    using big upt_conv_Cons [of 1 MAXSIZE] by (simp add: numeral_2_eq_2)
  let ?sp2 = "sp1[0 := (sp1 ! 0)\<lparr>cur := cur (sp1 ! 1)\<rparr>]"
  let ?sp3 = "?sp2[1 := (?sp2 ! 1)\<lparr>cur := 0\<rparr>]"
  have "InitList_sl sp S = Some (OK, 1, ?sp3)"
    using sp1(1-3) big by (simp add: InitList_sl_def Malloc_def)
  moreover have "seg ?sp3 (cur (sp1 ! 1)) [2..<MAXSIZE] 0"
    using sp1(4) unfolding upt by (simp add: seg_update)
  moreover have "insert 1 {2..<MAXSIZE} = {1..<MAXSIZE}" using big by auto
  ultimately show ?thesis
    using sp1(2) big by (auto simp: sl_rep_def)
qed

section \<open>Observers\<close>

lemma no_elems_rep: "sl_rep sp S fr ns \<Longrightarrow> no_elems sp S = Some (ns = [])"
  using sl_repD(4-6) [of sp S fr ns] by (cases ns) (auto simp: no_elems_def)

lemma ListTraverse_sl_rep:
  assumes "sl_rep sp S fr ns"
  shows "ListTraverse_sl sp S = Some (map (\<lambda>n. data (sp ! n)) ns)"
  using sl_repD(5,6) [OF assms]
  by (simp add: ListTraverse_sl_def no_elems_rep [OF assms] visit_loop_seg)

lemma sl_abs_rep: "sl_rep sp S fr ns \<Longrightarrow> sl_abs sp S = map (\<lambda>n. data (sp ! n)) ns"
  by (simp add: sl_abs_def ListTraverse_sl_rep)

lemma ListLength_sl_rep:
  assumes "sl_rep sp S fr ns"
  shows "ListLength_sl sp S = Some (int (length ns))"
  using sl_repD(5,6) [OF assms]
  by (simp add: ListLength_sl_def no_elems_rep [OF assms] count_loop_seg)

lemma ListEmpty_sl_rep:
  assumes "sl_rep sp S fr ns"
  shows "ListEmpty_sl sp S = Some (ns = [])"
  using no_elems_rep [OF assms] sl_repD(4) [OF assms] by (simp add: ListEmpty_sl_def no_elems_def)

lemma GetElem_sl_rep:
  assumes "sl_rep sp S fr ns"
  shows "GetElem_sl sp S i =
    (if 1 \<le> i \<and> i \<le> int (length ns) then Some (OK, Some (data (sp ! (ns ! nat (i - 1)))))
     else Some (ERROR, None))"
proof (cases "ns = []")
  case True
  then show ?thesis by (simp add: GetElem_sl_def no_elems_rep [OF assms])
next
  case False
  show ?thesis
  proof (cases "1 \<le> i")
    case True
    define k where "k = nat (i - 1)"
    have k: "i - 1 = int k" using True by (simp add: k_def)
    have "k < length ns \<Longrightarrow> ns ! k \<noteq> 0 \<and> ns ! k < length sp"
      using seg_in_bounds [OF sl_repD(6) [OF assms], of "ns ! k"] by simp
    then show ?thesis
      using False True k sl_repD(5) [OF assms] walk_loop_seg [OF sl_repD(6) [OF assms], of 0 k]
      by (auto simp: GetElem_sl_def no_elems_rep [OF assms])
  next
    case F: False
    then show ?thesis
      using False sl_repD(5) [OF assms]
      by (simp add: GetElem_sl_def no_elems_rep [OF assms] walk_loop_short)
  qed
qed

lemma locate_loop_sl_seg:
  "seg sp p ns 0 \<Longrightarrow> locate_loop_sl sp e cmp p (int m + 1) =
    Some (case List.find (\<lambda>k. cmp (data (sp ! (ns ! k))) e) [0..<length ns] of
            None \<Rightarrow> (0, int (m + length ns) + 1) | Some k \<Rightarrow> (ns ! k, int (m + k) + 1))"
proof (induction ns arbitrary: p m)
  case Nil
  then show ?case by (subst locate_loop_sl.simps) simp
next
  case (Cons n ns)
  have find: "List.find P [0..<length (n # ns)] =
      (if P 0 then Some 0 else map_option Suc (List.find (P \<circ> Suc) [0..<length ns]))" for P
    using find_upt_Suc [of P "length ns"] by simp
  have IH: "locate_loop_sl sp e cmp (cur (sp ! n)) (int (Suc m) + 1) =
      Some (case List.find (\<lambda>k. cmp (data (sp ! (ns ! k))) e) [0..<length ns] of
            None \<Rightarrow> (0, int (Suc m + length ns) + 1) | Some k \<Rightarrow> (ns ! k, int (Suc m + k) + 1))"
    using Cons.prems by (intro Cons.IH) simp
  then show ?case
    using Cons.prems unfolding find
    by (subst locate_loop_sl.simps) (auto simp: comp_def add.commute split: option.splits)
qed

lemma LocateElem_sl_rep:
  assumes "sl_rep sp S fr ns"
  shows "LocateElem_sl sp S e cmp =
    Some (case List.find (\<lambda>k. cmp (data (sp ! (ns ! k))) e) [0..<length ns] of
            None \<Rightarrow> 0 | Some k \<Rightarrow> int k + 1)"
proof (cases "ns = []")
  case True
  then show ?thesis by (simp add: LocateElem_sl_def no_elems_rep [OF assms])
next
  case False
  have nz: "k < length ns \<Longrightarrow> ns ! k \<noteq> 0" for k
    using seg_in_bounds [OF sl_repD(6) [OF assms], of "ns ! k"] by simp
  show ?thesis
    using False sl_repD(5) [OF assms] nz
      locate_loop_sl_seg [OF sl_repD(6) [OF assms], of e cmp 0]
    by (cases "List.find (\<lambda>k. cmp (data (sp ! (ns ! k))) e) [0..<length ns]")
      (auto simp: LocateElem_sl_def no_elems_rep [OF assms] dest: find_upt_Some [THEN iffD1])
qed

section \<open>Insertion\<close>

text \<open>The chain of the list around its \<open>k\<close>-th predecessor node.\<close>

lemma rep_split:
  assumes "sl_rep sp S fr ns" "k \<le> length ns"
  defines "p \<equiv> (S # ns) ! k"
  shows "seg sp S (take k (S # ns)) p" "seg sp (cur (sp ! p)) (drop k ns) 0"
    "S # ns = take k (S # ns) @ p # drop k ns" "p \<noteq> 0" "p < length sp" "p \<notin> set fr"
    "p \<notin> set (take k (S # ns))" "p \<notin> set (drop k ns)"
proof -
  have S: "seg sp S (S # ns) 0" "distinct (S # ns)" "set (S # ns) \<inter> set fr = {}"
    using assms(1) by (auto simp: sl_rep_def)
  show split: "S # ns = take k (S # ns) @ p # drop k ns"
    using id_take_nth_drop [of k "S # ns"] assms(2) by (simp add: p_def)
  then have "seg sp S (take k (S # ns) @ p # drop k ns) 0" using S(1) by (rule subst)
  then show "seg sp S (take k (S # ns)) p" "seg sp (cur (sp ! p)) (drop k ns) 0" "p \<noteq> 0"
      "p < length sp"
    by (auto simp: seg_append)
  have "p \<in> set (S # ns)" using assms(2) unfolding p_def by (intro nth_mem) simp
  then show "p \<notin> set fr" using S(3) by blast
  have "distinct (take k (S # ns) @ p # drop k ns)" using split S(2) by (rule subst)
  then show "p \<notin> set (take k (S # ns))" "p \<notin> set (drop k ns)" by auto
qed

text \<open>Running the pointer walk of \<open>ListInsert\<close> from the head.\<close>

lemma walk_from_head:
  assumes "sl_rep sp S fr ns"
  shows "walk_loop sp S 0 (int k) =
    Some (if k \<le> length ns then (S # ns) ! k else 0, int (min k (Suc (length ns))))"
  using walk_loop_seg [of sp S "S # ns" 0 k] assms by (auto simp: sl_rep_def)

lemma ListInsert_sl_bad:
  assumes "sl_rep sp S fr ns" "i < 1 \<or> i > int (length ns) + 1"
  shows "ListInsert_sl sp S i e = Some (ERROR, sp)"
proof (cases "i < 1")
  case True
  then show ?thesis
    using sl_repD(4) [OF assms(1)] by (simp add: ListInsert_sl_def walk_loop_short)
next
  case False
  define k where "k = nat (i - 1)"
  have "i - 1 = int k" "\<not> k \<le> length ns" using False assms(2) by (auto simp: k_def)
  then show ?thesis
    using sl_repD(4) [OF assms(1)] walk_from_head [OF assms(1), of k]
    by (simp add: ListInsert_sl_def)
qed

text \<open>The four writes that link the node \<open>s\<close> in behind \<open>p\<close>.\<close>

definition link_node :: "space \<Rightarrow> nat \<Rightarrow> nat \<Rightarrow> int \<Rightarrow> space" where
  "link_node sp p s e =
     (let sp1 = sp[s := (sp ! s)\<lparr>data := e\<rparr>];
          sp2 = sp1[s := (sp1 ! s)\<lparr>cur := cur (sp1 ! p)\<rparr>]
      in sp2[p := (sp2 ! p)\<lparr>cur := s\<rparr>])"

lemma ListInsert_sl_run:
  assumes "sl_rep sp S fr ns" "k \<le> length ns" "Malloc sp = Some (s, sp1)"
    "length sp1 = length sp" "s < length sp"
  shows "ListInsert_sl sp S (int k + 1) e = Some (OK, link_node sp1 ((S # ns) ! k) s e)"
  using assms(2-5) sl_repD(4) [OF assms(1)] walk_from_head [OF assms(1), of k]
    rep_split(4,5) [OF assms(1,2)]
  by (simp add: ListInsert_sl_def link_node_def Let_def)

lemma ListInsert_sl_rep:
  assumes "sl_rep sp S (f # fr) ns" "k \<le> length ns"
  shows "\<exists>sp'. ListInsert_sl sp S (int k + 1) e = Some (OK, sp') \<and>
    sl_rep sp' S fr (ins_nth k f ns) \<and> data (sp' ! f) = e \<and>
    (\<forall>n. n \<noteq> f \<longrightarrow> data (sp' ! n) = data (sp ! n))"
proof -
  let ?p = "(S # ns) ! k"
  let ?sp1 = "sp[0 := (sp ! 0)\<lparr>cur := cur (sp ! f)\<rparr>]"
  let ?sp' = "link_node ?sp1 ?p f e"
  note R = sl_repD [OF assms(1)] and P = rep_split [OF assms]
  have f: "cur (sp ! 0) = f" "f \<noteq> 0" "f < length sp" "seg sp (cur (sp ! f)) fr 0"
    using R(3) by auto
  have notin: "f \<notin> set fr" "f \<notin> set ns" "f \<noteq> S" "f \<noteq> ?p" "0 \<notin> set fr" "0 \<notin> set ns"
    using R P(6) by auto
  have new: "cur (?sp' ! ?p) = f" "cur (?sp' ! f) = cur (sp ! ?p)" "cur (?sp' ! 0) = cur (sp ! f)"
    using f notin P(4,5) R(2) by (auto simp: link_node_def Let_def)
  have upd: "seg ?sp' x ms y = seg sp x ms y" if "set ms \<inter> {0, f, ?p} = {}" for x ms y
    using that by (auto simp: link_node_def Let_def seg_update)
  have sub: "set (take k (S # ns)) \<subseteq> set (S # ns)" "set (drop k ns) \<subseteq> set ns"
    by (rule set_take_subset) (rule set_drop_subset)
  have "seg ?sp' S (take k (S # ns)) ?p"
    using P(1,7) sub(1) notin R(4) by (subst upd) auto
  moreover have "seg ?sp' (cur (sp ! ?p)) (drop k ns) 0"
    using P(2,8) sub(2) notin by (subst upd) auto
  ultimately have "seg ?sp' S (take k (S # ns) @ ?p # f # drop k ns) 0"
    using new f P(4,5) by (auto simp: seg_append link_node_def Let_def)
  moreover have "take k (S # ns) @ ?p # f # drop k ns = S # ins_nth k f ns"
    using assms(2) take_Suc_conv_app_nth [of k "S # ns"] by (simp add: ins_nth_def)
  ultimately have chain: "seg ?sp' S (S # ins_nth k f ns) 0" by simp
  have free: "seg ?sp' (cur (?sp' ! 0)) fr 0"
    unfolding new(3) using f(4) notin(1,5) P(6) by (subst upd) auto
  have "mset (fr @ S # ins_nth k f ns) = mset ((f # fr) @ S # ns)"
    by (simp add: mset_ins_nth)
  then have "distinct (fr @ S # ins_nth k f ns) = distinct ((f # fr) @ S # ns)"
      "set (fr @ S # ins_nth k f ns) = set ((f # fr) @ S # ns)"
    using mset_eq_imp_distinct_iff mset_eq_setD by blast+
  then have "sl_rep ?sp' S fr (ins_nth k f ns)"
    using assms(1) chain free by (simp only: sl_rep_def) (simp add: link_node_def Let_def)
  moreover have "data (?sp' ! f) = e" "\<forall>n. n \<noteq> f \<longrightarrow> data (?sp' ! n) = data (sp ! n)"
    using f P(5) R(2) notin(4) by (auto simp: link_node_def Let_def nth_list_update)
  moreover have "ListInsert_sl sp S (int k + 1) e = Some (OK, ?sp')"
    using f R(2) by (intro ListInsert_sl_run [OF assms]) (auto simp: Malloc_def)
  ultimately show ?thesis by blast
qed

text \<open>
  On a space with no free node \<open>Malloc\<close> answers 0, which \<open>ListInsert\<close> does not test: it links node
  0 in, so the list is cut off behind the insertion point and its tail becomes the free chain.
\<close>

lemma ListInsert_sl_full:
  assumes "sl_rep sp S [] ns" "k \<le> length ns"
  shows "\<exists>sp'. ListInsert_sl sp S (int k + 1) e = Some (OK, sp') \<and>
    sl_rep sp' S (drop k ns) (take k ns) \<and> (\<forall>n. n \<noteq> 0 \<longrightarrow> data (sp' ! n) = data (sp ! n))"
proof -
  let ?p = "(S # ns) ! k"
  let ?sp' = "link_node sp ?p 0 e"
  note R = sl_repD [OF assms(1)] and P = rep_split [OF assms]
  have z: "cur (sp ! 0) = 0" using R(3) by simp
  have new: "cur (?sp' ! ?p) = 0" "cur (?sp' ! 0) = cur (sp ! ?p)"
    using P(4,5) R(2) by (auto simp: link_node_def Let_def)
  have upd: "seg ?sp' x ms y = seg sp x ms y" if "set ms \<inter> {0, ?p} = {}" for x ms y
    using that by (auto simp: link_node_def Let_def seg_update)
  have sub: "set (take k (S # ns)) \<subseteq> set (S # ns)" "set (drop k ns) \<subseteq> set ns"
    by (rule set_take_subset) (rule set_drop_subset)
  have "seg ?sp' S (take k (S # ns)) ?p"
    using P(1,7) sub(1) R(4,13) by (subst upd) auto
  then have "seg ?sp' S (take k (S # ns) @ [?p]) 0"
    using new P(4,5) by (auto simp: seg_append link_node_def Let_def)
  moreover have "take k (S # ns) @ [?p] = S # take k ns"
    using assms(2) take_Suc_conv_app_nth [of k "S # ns"] by simp
  ultimately have chain: "seg ?sp' S (S # take k ns) 0" by simp
  have free: "seg ?sp' (cur (?sp' ! 0)) (drop k ns) 0"
    unfolding new(2) using P(2,8) sub(2) R(13) by (subst upd) auto
  have "mset (take k ns) + mset (drop k ns) = mset ns"
    by (metis append_take_drop_id mset_append)
  then have "mset (drop k ns @ S # take k ns) = mset ([] @ S # ns)"
    by (simp add: add.commute)
  then have "distinct (drop k ns @ S # take k ns) = distinct ([] @ S # ns)"
      "set (drop k ns @ S # take k ns) = set ([] @ S # ns)"
    using mset_eq_imp_distinct_iff mset_eq_setD by blast+
  then have "sl_rep ?sp' S (drop k ns) (take k ns)"
    using assms(1) chain free by (simp only: sl_rep_def) (simp add: link_node_def Let_def)
  moreover have "\<forall>n. n \<noteq> 0 \<longrightarrow> data (?sp' ! n) = data (sp ! n)"
    using P(5) by (auto simp: link_node_def Let_def nth_list_update)
  moreover have "ListInsert_sl sp S (int k + 1) e = Some (OK, ?sp')"
    using z R(2) by (intro ListInsert_sl_run [OF assms]) (auto simp: Malloc_def)
  ultimately show ?thesis by blast
qed

section \<open>Deletion\<close>

lemma walk_next_from_head:
  assumes "sl_rep sp S fr ns"
  shows "walk_next_loop sp S 0 (int k) =
    Some ((S # ns) ! min k (length ns), int (min k (length ns)))"
  using walk_next_loop_seg [of sp S ns 0 k] assms by (auto simp: sl_rep_def)

lemma ListDelete_sl_bad:
  assumes "sl_rep sp S fr ns" "i < 1 \<or> i > int (length ns)"
  shows "ListDelete_sl sp S i = Some (ERROR, sp, None)"
proof (cases "i < 1")
  case True
  then show ?thesis
    using sl_repD(4,5) [OF assms(1)] by (simp add: ListDelete_sl_def walk_next_loop_short)
next
  case False
  define k where "k = nat (i - 1)"
  have "i - 1 = int k" "length ns \<le> k" using False assms(2) by (auto simp: k_def)
  moreover have "cur (sp ! ((S # ns) ! length ns)) = 0" "(S # ns) ! length ns < length sp"
    using rep_split(2,5) [OF assms(1), of "length ns"] by auto
  ultimately show ?thesis
    using sl_repD(4) [OF assms(1)] walk_next_from_head [OF assms(1), of k]
    by (simp add: ListDelete_sl_def min_absorb2)
qed

lemma ListDelete_sl_rep:
  assumes "sl_rep sp S fr ns" "k < length ns"
  shows "\<exists>sp'. ListDelete_sl sp S (int k + 1) = Some (OK, sp', Some (data (sp ! (ns ! k)))) \<and>
    sl_rep sp' S (ns ! k # fr) (del_nth k ns) \<and> (\<forall>n. data (sp' ! n) = data (sp ! n))"
proof -
  let ?p = "(S # ns) ! k" and ?q = "ns ! k"
  let ?sp1 = "sp[?p := (sp ! ?p)\<lparr>cur := cur (sp ! ?q)\<rparr>]"
  let ?sp2 = "?sp1[?q := (?sp1 ! ?q)\<lparr>cur := cur (sp ! 0)\<rparr>]"
  let ?sp' = "?sp2[0 := (?sp2 ! 0)\<lparr>cur := ?q\<rparr>]"
  have k: "k \<le> length ns" using assms(2) by simp
  note R = sl_repD [OF assms(1)] and P = rep_split [OF assms(1) k]
  have drop: "drop k ns = ?q # drop (Suc k) ns"
    using assms(2) by (simp add: Cons_nth_drop_Suc)
  have q: "cur (sp ! ?p) = ?q" "?q \<noteq> 0" "?q < length sp" "seg sp (cur (sp ! ?q)) (drop (Suc k) ns) 0"
    using P(2) unfolding drop by auto
  have qin: "?q \<in> set ns" using assms(2) by simp
  have pq: "?p \<noteq> ?q" using P(8) unfolding drop by auto
  have nq: "?q \<notin> set (take k (S # ns))" "?q \<notin> set (drop (Suc k) ns)"
  proof -
    have "distinct (take k (S # ns) @ ?p # drop k ns)"
      using P(3) R(8,10) by (metis distinct.simps(2))
    then show "?q \<notin> set (take k (S # ns))" "?q \<notin> set (drop (Suc k) ns)"
      unfolding drop by auto
  qed
  have new: "cur (?sp' ! ?p) = cur (sp ! ?q)" "cur (?sp' ! ?q) = cur (sp ! 0)" "cur (?sp' ! 0) = ?q"
    using P(4,5) R(2) q pq by auto
  have upd: "seg ?sp' x ms y = seg sp x ms y" if "set ms \<inter> {0, ?p, ?q} = {}" for x ms y
    using that by (auto simp: seg_update)
  have sub: "set (take k (S # ns)) \<subseteq> set (S # ns)" "set (drop (Suc k) ns) \<subseteq> set ns"
    by (rule set_take_subset) (rule set_drop_subset)
  have "seg ?sp' S (take k (S # ns)) ?p"
    using P(1,7) nq(1) sub(1) R(4,13) by (subst upd) auto
  moreover have "seg ?sp' (cur (sp ! ?q)) (drop (Suc k) ns) 0"
    using q(4) P(8) nq(2) sub(2) R(13) unfolding drop by (subst upd) auto
  ultimately have "seg ?sp' S (take k (S # ns) @ ?p # drop (Suc k) ns) 0"
    using new P(4,5) by (auto simp: seg_append)
  moreover have "take k (S # ns) @ ?p # drop (Suc k) ns = S # del_nth k ns"
    using k take_Suc_conv_app_nth [of k "S # ns"] by (simp add: del_nth_def)
  ultimately have chain: "seg ?sp' S (S # del_nth k ns) 0" by (simp only:)
  have free: "seg ?sp' (cur (?sp' ! 0)) (?q # fr) 0"
  proof -
    have "seg ?sp' (cur (sp ! 0)) fr 0"
      using R(3,11,12) P(6) qin by (subst upd) auto
    then show ?thesis using new q(2,3) by simp
  qed
  have "mset ((?q # fr) @ S # del_nth k ns) = mset (fr @ S # ns)"
    using mset_append [of "take k ns" "?q # drop (Suc k) ns"] id_take_nth_drop [OF assms(2)]
    by (simp add: del_nth_def)
  then have "distinct ((?q # fr) @ S # del_nth k ns) = distinct (fr @ S # ns)"
      "set ((?q # fr) @ S # del_nth k ns) = set (fr @ S # ns)"
    using mset_eq_imp_distinct_iff mset_eq_setD by blast+
  then have "sl_rep ?sp' S (?q # fr) (del_nth k ns)"
    using assms(1) chain free by (simp only: sl_rep_def) simp
  moreover have "\<forall>n. data (?sp' ! n) = data (sp ! n)"
    using P(5) q(3) R(2) by (auto simp: nth_list_update)
  moreover have "ListDelete_sl sp S (int k + 1) = Some (OK, ?sp', Some (data (sp ! ?q)))"
    using R(2,4) P(4,5) q pq k walk_next_from_head [OF assms(1), of k]
    by (simp add: ListDelete_sl_def Free_def)
  ultimately show ?thesis by blast
qed

section \<open>Giving nodes back\<close>

text \<open>The loop of \<open>ClearList\<close> and \<open>DestroyList\<close> moves a chain to the front of the free chain.\<close>

lemma free_loop_seg:
  "0 < length sp \<Longrightarrow> seg sp p ns 0 \<Longrightarrow> seg sp (cur (sp ! 0)) fr 0 \<Longrightarrow> distinct ns \<Longrightarrow>
    set ns \<inter> set fr = {} \<Longrightarrow>
    \<exists>sp'. free_loop sp p = Some sp' \<and> length sp' = length sp \<and>
      seg sp' (cur (sp' ! 0)) (rev ns @ fr) 0 \<and> (\<forall>n. n \<noteq> 0 \<and> n \<notin> set ns \<longrightarrow> sp' ! n = sp ! n)"
proof (induction ns arbitrary: sp p fr)
  case Nil
  then show ?case by (subst free_loop.simps) auto
next
  case (Cons n ns)
  let ?sp1 = "sp[n := (sp ! n)\<lparr>cur := cur (sp ! 0)\<rparr>]"
  let ?sp2 = "?sp1[0 := (?sp1 ! 0)\<lparr>cur := n\<rparr>]"
  from Cons.prems have n: "p = n" "n \<noteq> 0" "n < length sp" "seg sp (cur (sp ! n)) ns 0" by auto
  have nn: "n \<notin> set ns" "n \<notin> set fr" "0 \<notin> set ns" "0 \<notin> set fr"
    using Cons.prems(2-5) seg_in_bounds [OF n(4)] seg_in_bounds [OF Cons.prems(3)] by auto
  have run: "free_loop sp p = free_loop ?sp2 (cur (sp ! n))"
    using n Cons.prems(1) by (subst free_loop.simps) (simp add: Free_def)
  have ns: "seg ?sp2 (cur (sp ! n)) ns 0" using n(4) nn by (simp add: seg_update)
  have fr: "seg ?sp2 (cur (?sp2 ! 0)) (n # fr) 0"
    using Cons.prems(1,3) n(2,3) nn by (simp add: seg_update)
  obtain sp' where "free_loop ?sp2 (cur (sp ! n)) = Some sp'" "length sp' = length sp"
      "seg sp' (cur (sp' ! 0)) (rev ns @ n # fr) 0"
      "\<forall>i. i \<noteq> 0 \<and> i \<notin> set ns \<longrightarrow> sp' ! i = ?sp2 ! i"
    using Cons.IH [OF _ ns fr] Cons.prems(1,4,5) nn by auto
  then show ?case using run by (auto simp: nth_list_update)
qed

lemma ClearList_sl_rep:
  assumes "sl_rep sp S fr ns"
  shows "\<exists>sp'. ClearList_sl sp S = Some (OK, sp') \<and> sl_rep sp' S (rev ns @ fr) []"
proof -
  note R = sl_repD [OF assms]
  obtain sp1 where sp1: "free_loop sp (cur (sp ! S)) = Some sp1" "length sp1 = length sp"
      "seg sp1 (cur (sp1 ! 0)) (rev ns @ fr) 0"
    using free_loop_seg [OF R(2,6,3,8)] R(11) by blast
  let ?sp' = "sp1[S := (sp1 ! S)\<lparr>cur := 0\<rparr>]"
  have "seg ?sp' (cur (?sp' ! 0)) (rev ns @ fr) 0"
    using sp1(3) R(4,9,10) by (simp add: seg_update)
  moreover have "seg ?sp' S (S # []) 0" using R(4,5) sp1(2) by simp
  moreover have "mset ((rev ns @ fr) @ S # []) = mset (fr @ S # ns)" by simp
  then have "distinct ((rev ns @ fr) @ S # []) = distinct (fr @ S # ns)"
      "set ((rev ns @ fr) @ S # []) = set (fr @ S # ns)"
    using mset_eq_imp_distinct_iff mset_eq_setD by blast+
  ultimately have "sl_rep ?sp' S (rev ns @ fr) []"
    using assms sp1(2) by (simp only: sl_rep_def) simp
  moreover have "ClearList_sl sp S = Some (OK, ?sp')"
    using R(4,5) sp1(1,2) by (simp add: ClearList_sl_def)
  ultimately show ?thesis by blast
qed

lemma DestroyList_sl_rep:
  assumes "sl_rep sp S fr ns"
  shows "\<exists>sp'. DestroyList_sl sp (Some S) = Some (OK, Some 0, sp') \<and> length sp' = MAXSIZE \<and>
    seg sp' (cur (sp' ! 0)) (rev ns @ S # fr) 0 \<and> distinct (rev ns @ S # fr) \<and>
    set (rev ns @ S # fr) = {1..<MAXSIZE}"
proof -
  note R = sl_repD [OF assms]
  have S: "seg sp S (S # ns) 0" "distinct (S # ns)" "set (S # ns) \<inter> set fr = {}"
    using R(4,5,6,8,9,10,11) by auto
  obtain sp' where sp': "free_loop sp S = Some sp'" "length sp' = length sp"
      "seg sp' (cur (sp' ! 0)) (rev (S # ns) @ fr) 0"
    using free_loop_seg [OF R(2) S(1) R(3) S(2,3)] by blast
  have "mset (rev ns @ S # fr) = mset (fr @ S # ns)" by simp
  then have "distinct (rev ns @ S # fr) = distinct (fr @ S # ns)"
      "set (rev ns @ S # fr) = set (fr @ S # ns)"
    using mset_eq_imp_distinct_iff mset_eq_setD by blast+
  then show ?thesis
    using assms sp' R(1,4) by (simp add: DestroyList_sl_def sl_rep_def)
qed

section \<open>Neighbours of an element\<close>

lemma prior_loop_seg:
  "seg sp nxt ns 0 \<Longrightarrow> \<exists>pre' nxt'. prior_loop sp e pre nxt = Some (pre', nxt') \<and>
    (case List.find (\<lambda>k. data (sp ! (ns ! k)) = e) [0..<length ns] of
       None \<Rightarrow> nxt' = 0
     | Some k \<Rightarrow> nxt' = ns ! k \<and> nxt' \<noteq> 0 \<and> pre' = (pre # ns) ! k)"
proof (induction ns arbitrary: pre nxt)
  case Nil
  then show ?case by (subst prior_loop.simps) simp
next
  case (Cons n ns)
  let ?P = "\<lambda>k. data (sp ! ((n # ns) ! k)) = e"
  have find: "List.find ?P [0..<length (n # ns)] =
      (if ?P 0 then Some 0 else map_option Suc (List.find (\<lambda>k. data (sp ! (ns ! k)) = e) [0..<length ns]))"
    using find_upt_Suc [of ?P "length ns"] by (simp add: comp_def)
  show ?case
  proof (cases "data (sp ! n) = e")
    case True
    then have "prior_loop sp e pre nxt = Some (pre, n)"
      using Cons.prems by (subst prior_loop.simps) simp
    then show ?thesis using True Cons.prems unfolding find by simp
  next
    case False
    then have "prior_loop sp e pre nxt = prior_loop sp e n (cur (sp ! n))"
      using Cons.prems by (subst prior_loop.simps) simp
    moreover have "seg sp (cur (sp ! n)) ns 0" using Cons.prems by simp
    ultimately show ?thesis
      using Cons.IH [of "cur (sp ! n)" n] False unfolding find
      by (cases "List.find (\<lambda>k. data (sp ! (ns ! k)) = e) [0..<length ns]") auto
  qed
qed

lemma PriorElem_sl_rep:
  assumes "sl_rep sp S fr ns"
  shows "PriorElem_sl sp S e =
    Some (case List.find (\<lambda>k. data (sp ! (ns ! k)) = e) [0..<length ns] of
            Some (Suc k) \<Rightarrow> (OK, Some (data (sp ! (ns ! k)))) | _ \<Rightarrow> (ERROR, None))"
proof (cases ns)
  case Nil
  then show ?thesis by (simp add: PriorElem_sl_def no_elems_rep [OF assms])
next
  case (Cons n ms)
  let ?P = "\<lambda>k. data (sp ! (ns ! k)) = e"
  have find: "List.find ?P [0..<length ns] =
      (if data (sp ! n) = e then Some 0
       else map_option Suc (List.find (\<lambda>k. data (sp ! (ms ! k)) = e) [0..<length ms]))"
    using find_upt_Suc [of ?P "length ms"] Cons by (simp add: comp_def)
  have n: "cur (sp ! S) = n" "n \<noteq> 0" "n < length sp" "seg sp (cur (sp ! n)) ms 0"
    using sl_repD(6) [OF assms] Cons by auto
  obtain pre' nxt' where loop: "prior_loop sp e n (cur (sp ! n)) = Some (pre', nxt')"
      "case List.find (\<lambda>k. data (sp ! (ms ! k)) = e) [0..<length ms] of
       None \<Rightarrow> nxt' = 0 | Some k \<Rightarrow> nxt' = ms ! k \<and> nxt' \<noteq> 0 \<and> pre' = (n # ms) ! k"
    using prior_loop_seg [OF n(4)] by blast
  have "k < length ns \<Longrightarrow> ns ! k < length sp" for k
    using seg_in_bounds [OF sl_repD(6) [OF assms], of "ns ! k"] by simp
  moreover have "List.find (\<lambda>k. data (sp ! (ms ! k)) = e) [0..<length ms] = Some k \<Longrightarrow> k < length ms" for k
    by (simp add: find_upt_Some)
  ultimately show ?thesis
    unfolding find using Cons n loop sl_repD(5) [OF assms]
    by (auto simp: PriorElem_sl_def no_elems_rep [OF assms] split: option.splits)
qed

lemma next_loop_seg:
  "seg sp p (p # ns) 0 \<Longrightarrow> next_loop sp e p =
    Some (case List.find (\<lambda>k. data (sp ! ((p # ns) ! k)) = e) [0..<length ns] of
            None \<Rightarrow> (p # ns) ! length ns | Some k \<Rightarrow> (p # ns) ! k)"
proof (induction ns arbitrary: p)
  case Nil
  then show ?case by (subst next_loop.simps) simp
next
  case (Cons n ns)
  let ?P = "\<lambda>k. data (sp ! ((p # n # ns) ! k)) = e"
  have find: "List.find ?P [0..<length (n # ns)] =
      (if data (sp ! p) = e then Some 0
       else map_option Suc (List.find (\<lambda>k. data (sp ! ((n # ns) ! k)) = e) [0..<length ns]))"
    using find_upt_Suc [of ?P "length ns"] by (simp add: comp_def)
  have "seg sp n (n # ns) 0" using Cons.prems by simp
  from Cons.IH [OF this] Cons.prems show ?case
    unfolding find
    by (subst next_loop.simps)
      (cases "List.find (\<lambda>k. data (sp ! ((n # ns) ! k)) = e) [0..<length ns]"; simp)
qed

lemma NextElem_sl_rep:
  assumes "sl_rep sp S fr ns"
  shows "NextElem_sl sp S e =
    Some (case List.find (\<lambda>k. data (sp ! (ns ! k)) = e) [0..<length ns - 1] of
            Some k \<Rightarrow> (OK, Some (data (sp ! (ns ! Suc k)))) | None \<Rightarrow> (ERROR, None))"
proof (cases ns)
  case Nil
  then show ?thesis by (simp add: NextElem_sl_def no_elems_rep [OF assms])
next
  case (Cons n ms)
  have n: "cur (sp ! S) = n" "seg sp n (n # ms) 0" "seg sp (cur (sp ! S)) ns 0"
    using sl_repD(6) [OF assms] Cons by auto
  have nxt: "cur (sp ! (ns ! k)) = (if Suc k < length ns then ns ! Suc k else 0)"
      "ns ! k \<noteq> 0" "ns ! k < length sp" if "k < length ns" for k
  proof -
    have "seg sp (cur (sp ! S)) (take k ns @ ns ! k # drop (Suc k) ns) 0"
      using n(3) id_take_nth_drop [OF that] by simp
    then have "seg sp (cur (sp ! (ns ! k))) (drop (Suc k) ns) 0" by (auto simp: seg_append)
    then show "cur (sp ! (ns ! k)) = (if Suc k < length ns then ns ! Suc k else 0)"
      by (cases "Suc k < length ns") (auto simp: Cons_nth_drop_Suc [symmetric])
    show "ns ! k \<noteq> 0" "ns ! k < length sp"
      using seg_in_bounds [OF n(3), of "ns ! k"] that by auto
  qed
  have loop: "next_loop sp e n =
      Some (case List.find (\<lambda>k. data (sp ! (ns ! k)) = e) [0..<length ns - 1] of
            None \<Rightarrow> ns ! (length ns - 1) | Some k \<Rightarrow> ns ! k)"
    using next_loop_seg [OF n(2), of e] unfolding Cons by (simp split: option.split)
  show ?thesis
  proof (cases "List.find (\<lambda>k. data (sp ! (ns ! k)) = e) [0..<length ns - 1]")
    case None
    then show ?thesis
      using loop n(1) nxt [of "length ns - 1"] sl_repD(5) [OF assms] Cons
      by (simp add: NextElem_sl_def no_elems_rep [OF assms])
  next
    case (Some k)
    then have "Suc k < length ns" by (simp add: find_upt_Some less_diff_conv)
    then show ?thesis
      using loop n(1) nxt [of k] nxt [of "Suc k"] sl_repD(5) [OF assms] Some Cons
      by (simp add: NextElem_sl_def no_elems_rep [OF assms])
  qed
qed

section \<open>The static list implements the linear-list contract\<close>

lemma sl_room_rep: "sl_rep sp S fr ns \<Longrightarrow> sl_room sp \<longleftrightarrow> fr \<noteq> []"
  using sl_repD(2,3) [of sp S fr ns] by (cases fr) (auto simp: sl_room_def)

lemma map_ins_nth: "map f (ins_nth k x xs) = ins_nth k (f x) (map f xs)"
  by (simp add: ins_nth_def take_map drop_map)

lemma map_del_nth: "map f (del_nth k xs) = del_nth k (map f xs)"
  by (simp add: del_nth_def take_map drop_map)

lemma ListInsert_sl_ok:
  assumes "sl_inv sp S" "sl_room sp" "1 \<le> i" "i \<le> int (length (sl_abs sp S)) + 1"
  shows "\<exists>sp'. ListInsert_sl sp S i e = Some (OK, sp') \<and> sl_inv sp' S \<and>
    sl_abs sp' S = ins_nth (nat (i - 1)) e (sl_abs sp S)"
proof -
  obtain fr ns where rep: "sl_rep sp S fr ns" using assms(1) by (auto simp: sl_inv_def)
  then obtain f fr' where fr: "fr = f # fr'" using assms(2) by (cases fr) (auto simp: sl_room_rep)
  define k where "k = nat (i - 1)"
  have k: "i = int k + 1" "k \<le> length ns"
    using assms(3,4) by (auto simp: k_def sl_abs_rep [OF rep])
  obtain sp' where sp': "ListInsert_sl sp S i e = Some (OK, sp')" "sl_rep sp' S fr' (ins_nth k f ns)"
      "data (sp' ! f) = e" "\<forall>n. n \<noteq> f \<longrightarrow> data (sp' ! n) = data (sp ! n)"
    using ListInsert_sl_rep [of sp S f fr' ns k e] rep fr k by auto
  have "f \<notin> set ns" using sl_repD(11) [OF rep] fr by auto
  then have "map (\<lambda>n. data (sp' ! n)) ns = map (\<lambda>n. data (sp ! n)) ns"
    using sp'(4) by (intro map_cong) auto
  then have "sl_abs sp' S = ins_nth k e (sl_abs sp S)"
    by (simp only: sl_abs_rep [OF rep] sl_abs_rep [OF sp'(2)] map_ins_nth sp'(3))
  then show ?thesis using sp'(1,2) k_def by (auto simp: sl_inv_def)
qed

lemma ListDelete_sl_ok:
  assumes "sl_inv sp S" "1 \<le> i" "i \<le> int (length (sl_abs sp S))"
  shows "\<exists>sp'. ListDelete_sl sp S i = Some (OK, sp', Some (sl_abs sp S ! nat (i - 1))) \<and>
    sl_inv sp' S \<and> sl_abs sp' S = del_nth (nat (i - 1)) (sl_abs sp S)"
proof -
  obtain fr ns where rep: "sl_rep sp S fr ns" using assms(1) by (auto simp: sl_inv_def)
  define k where "k = nat (i - 1)"
  have k: "i = int k + 1" "k < length ns"
    using assms(2,3) by (auto simp: k_def sl_abs_rep [OF rep])
  obtain sp' where sp': "ListDelete_sl sp S i = Some (OK, sp', Some (data (sp ! (ns ! k))))"
      "sl_rep sp' S (ns ! k # fr) (del_nth k ns)" "\<forall>n. data (sp' ! n) = data (sp ! n)"
    using ListDelete_sl_rep [OF rep k(2)] k(1) by auto
  then have "sl_abs sp' S = del_nth k (sl_abs sp S)"
    by (simp add: sl_abs_rep [OF rep] sl_abs_rep [OF sp'(2)] map_del_nth)
  moreover have "sl_abs sp S ! k = data (sp ! (ns ! k))" using k by (simp add: sl_abs_rep [OF rep])
  ultimately show ?thesis using sp'(1,2) k_def by (auto simp: sl_inv_def)
qed

interpretation sl: linear_list
  "\<lambda>sp. sl_inv sp S" sl_room "\<lambda>sp. sl_abs sp S" "\<lambda>sp. ListInsert_sl sp S" "\<lambda>sp. ListDelete_sl sp S"
  "\<lambda>sp. GetElem_sl sp S" "\<lambda>sp. LocateElem_sl sp S" "\<lambda>sp. ListLength_sl sp S" for S
proof (unfold_locales, goal_cases)
  case (1 sp i e)
  then show ?case by (rule ListInsert_sl_ok)
next
  case (2 sp i e)
  then show ?case by (auto simp: sl_inv_def sl_abs_rep ListInsert_sl_bad)
next
  case (3 sp i)
  then show ?case by (rule ListDelete_sl_ok)
next
  case (4 sp i)
  then show ?case by (auto simp: sl_inv_def sl_abs_rep ListDelete_sl_bad)
next
  case (5 sp i)
  then show ?case by (auto simp: sl_inv_def sl_abs_rep GetElem_sl_rep)
next
  case (6 sp i)
  then show ?case by (auto simp: sl_inv_def sl_abs_rep GetElem_sl_rep)
next
  case (7 sp e cmp)
  then obtain fr ns where rep: "sl_rep sp S fr ns" by (auto simp: sl_inv_def)
  have "List.find (\<lambda>k. cmp (sl_abs sp S ! k) e) [0..<length (sl_abs sp S)] =
      List.find (\<lambda>k. cmp (data (sp ! (ns ! k))) e) [0..<length ns]"
    by (rule find_cong) (auto simp: sl_abs_rep [OF rep])
  then show ?case by (simp add: LocateElem_sl_rep [OF rep])
next
  case (8 sp)
  then show ?case by (auto simp: sl_inv_def sl_abs_rep ListLength_sl_rep)
qed

section \<open>Properties\<close>

lemma sl_invE:
  assumes "sl_inv sp S"
  obtains fr ns where "sl_rep sp S fr ns" "sl_abs sp S = map (\<lambda>n. data (sp ! n)) ns"
  using assms by (auto simp: sl_inv_def sl_abs_rep)

lemma InitList_sl_inv:
  assumes "length sp = MAXSIZE"
  shows "\<exists>sp'. InitList_sl sp S = Some (OK, 1, sp') \<and> sl_inv sp' 1 \<and> sl_abs sp' 1 = [] \<and> sl_room sp'"
proof -
  obtain sp' where sp': "InitList_sl sp S = Some (OK, 1, sp')" "sl_rep sp' 1 [2..<MAXSIZE] []"
    using InitList_sl_rep [OF assms] by blast
  have "[2..<MAXSIZE] \<noteq> []" by (simp add: MAXSIZE_def)
  then show ?thesis using sp' by (auto simp: sl_inv_def sl_abs_rep sl_room_rep)
qed



text \<open>
  No node is lost. \<open>ClearList\<close> empties a well-formed list and leaves the space well-formed, so
  every node is again free or the head; \<open>DestroyList\<close> also gives the head back, so that the free
  chain holds each of the \<open>MAXSIZE - 1\<close> nodes once.
\<close>
theorem SLinkList_release:
  assumes "sl_inv sp S"
  shows "(\<exists>sp'. ClearList_sl sp S = Some (OK, sp') \<and> sl_inv sp' S \<and> sl_abs sp' S = []) \<and>
    (\<exists>sp' fr. DestroyList_sl sp (Some S) = Some (OK, Some 0, sp') \<and> length sp' = MAXSIZE \<and>
       seg sp' (cur (sp' ! 0)) fr 0 \<and> distinct fr \<and> set fr = {1..<MAXSIZE})"
proof -
  obtain fr ns where rep: "sl_rep sp S fr ns" using assms by (auto simp: sl_inv_def)
  have "\<exists>sp'. ClearList_sl sp S = Some (OK, sp') \<and> sl_inv sp' S \<and> sl_abs sp' S = []"
    using ClearList_sl_rep [OF rep] unfolding sl_inv_def by (metis list.map(1) sl_abs_rep)
  then show ?thesis using DestroyList_sl_rep [OF rep] by blast
qed

theorem SLinkList_release_witness:
  "\<exists>sp sp'. InitList_sl (replicate MAXSIZE \<lparr>data = 0, cur = 0\<rparr>) 0 = Some (OK, 1, sp) \<and>
    ClearList_sl sp 1 = Some (OK, sp') \<and> sl_abs sp' 1 = []"
proof -
  obtain sp where sp: "InitList_sl (replicate MAXSIZE \<lparr>data = 0, cur = 0\<rparr>) 0 = Some (OK, 1, sp)"
      "sl_inv sp 1"
    using InitList_sl_inv [of "replicate MAXSIZE \<lparr>data = 0, cur = 0\<rparr>" 0] by auto
  show ?thesis using SLinkList_release [OF sp(2)] sp(1) by blast
qed

text \<open>
  C39 (insertion into a full space). When no node is free, \<open>ListInsert\<close> at a valid position still
  returns \<open>OK\<close>, but does not store the element: it links node 0 in, and the list loses everything
  behind the insertion point.
\<close>
theorem ListInsert_sl_full_space:
  assumes "sl_inv sp S" "\<not> sl_room sp" "1 \<le> i" "i \<le> int (length (sl_abs sp S)) + 1"
  shows "\<exists>sp'. ListInsert_sl sp S i e = Some (OK, sp') \<and> sl_inv sp' S \<and>
    sl_abs sp' S = take (nat (i - 1)) (sl_abs sp S)"
proof -
  obtain fr ns where rep: "sl_rep sp S fr ns" and abs: "sl_abs sp S = map (\<lambda>n. data (sp ! n)) ns"
    using assms(1) by (rule sl_invE)
  then have rep0: "sl_rep sp S [] ns" using assms(2) sl_room_rep by blast
  have i: "i = int (nat (i - 1)) + 1" "nat (i - 1) \<le> length ns" using assms(3,4) abs by auto
  obtain sp' where sp': "ListInsert_sl sp S i e = Some (OK, sp')"
      "sl_rep sp' S (drop (nat (i - 1)) ns) (take (nat (i - 1)) ns)"
      "\<forall>n. n \<noteq> 0 \<longrightarrow> data (sp' ! n) = data (sp ! n)"
    using ListInsert_sl_full [OF rep0 i(2), of e] i(1) by auto
  have "n \<noteq> 0" if "n \<in> set ns" for n using sl_repD(13) [OF rep] that by metis
  then have "sl_abs sp' S = take (nat (i - 1)) (sl_abs sp S)"
    using sp'(3) by (auto simp: abs sl_abs_rep [OF sp'(2)] take_map dest!: in_set_takeD)
  then show ?thesis using sp'(1,2) by (auto simp: sl_inv_def)
qed

text \<open>A full space: the list 2, \<dots>, 999 behind head 1.\<close>

definition full_space :: space where
  "full_space = map (\<lambda>i. \<lparr>data = 0, cur = if i = 0 \<or> Suc i = MAXSIZE then 0 else Suc i\<rparr>) [0..<MAXSIZE]"

lemma full_space_rep: "sl_rep full_space 1 [] [2..<MAXSIZE]"
proof -
  have big: "2 < MAXSIZE" by (simp add: MAXSIZE_def)
  let ?m = "MAXSIZE - 1"
  have len: "length full_space = MAXSIZE" by (simp add: full_space_def)
  have cur: "cur (full_space ! j) = (if j = 0 \<or> Suc j = MAXSIZE then 0 else Suc j)" if "j < MAXSIZE" for j
    using that by (simp add: full_space_def)
  have "seg full_space 1 [1..<?m] ?m" using big len cur by (intro seg_upt) auto
  moreover have "[1..<MAXSIZE] = [1..<?m] @ [?m]"
    using big upt_Suc_append [of 1 ?m] by simp
  ultimately have "seg full_space 1 [1..<MAXSIZE] 0"
    using big len cur [of ?m] by (simp add: seg_append)
  moreover have ivl: "[1..<MAXSIZE] = 1 # [2..<MAXSIZE]"
    using big upt_conv_Cons [of 1 MAXSIZE] by (simp add: numeral_2_eq_2)
  moreover have "set (1 # [2..<MAXSIZE]) = {1..<MAXSIZE}" using ivl by (metis set_upt)
  ultimately show ?thesis using len cur [of 0] big by (simp add: sl_rep_def)
qed

theorem ListInsert_sl_full_space_witness:
  "sl_inv full_space 1 \<and> length (sl_abs full_space 1) = MAXSIZE - 2 \<and>
   (\<exists>sp'. ListInsert_sl full_space 1 1 7 = Some (OK, sp') \<and> sl_abs sp' 1 = [])"
  using ListInsert_sl_full_space [of full_space 1 1 7] full_space_rep
  by (auto simp: sl_inv_def sl_room_rep sl_abs_rep)

end
