(* ===== verification/Difference.thy ===== *)
theory Difference
  imports SLinkList
begin

text \<open>
  \<open>difference\<close> of \<open>DataStruct_learn/Array/Difference/Difference.c\<close>: the symmetric difference of two
  sets, built in a static linked list. The numbers it reads are the arguments \<open>A\<close> and \<open>B\<close>; printing
  and opening the file are not modelled.
\<close>

section \<open>Definition\<close>

text \<open>Reading set A: a node is taken for each element and linked in behind \<open>R\<close>.\<close>

fun read_A :: "space \<Rightarrow> nat \<Rightarrow> int list \<Rightarrow> (nat \<times> space) option" where
  "read_A sp R [] = Some (R, sp)"
| "read_A sp R (a # as) = do {
     (i, sp) \<leftarrow> Malloc sp;
     sp \<leftarrow> set_data sp i a;
     sp \<leftarrow> set_cur sp R i;
     read_A sp i as }"

text \<open>\<open>while (k != space[R].cur && space[k].data != b)\<close>; returns \<open>(p, k)\<close>.\<close>

partial_function (option) search_b :: "space \<Rightarrow> nat \<Rightarrow> int \<Rightarrow> nat \<Rightarrow> nat \<Rightarrow> (nat \<times> nat) option" where
  "search_b sp R b p k = do {
     t \<leftarrow> get_cur sp R;
     if k \<noteq> t then do {
       d \<leftarrow> get_data sp k;
       if d \<noteq> b then do { c \<leftarrow> get_cur sp k; search_b sp R b k c } else Some (p, k) }
     else Some (p, k) }"

fun read_B :: "space \<Rightarrow> nat \<Rightarrow> nat \<Rightarrow> int list \<Rightarrow> space option" where
  "read_B sp S R [] = Some sp"
| "read_B sp S R (b # bs) = do {
     k \<leftarrow> get_cur sp S;
     (p, k) \<leftarrow> search_b sp R b S k;
     t \<leftarrow> get_cur sp R;
     if k = t then do {
       (i, sp) \<leftarrow> Malloc sp;
       sp \<leftarrow> set_data sp i b;
       t \<leftarrow> get_cur sp R;
       sp \<leftarrow> set_cur sp i t;
       sp \<leftarrow> set_cur sp R i;
       read_B sp S R bs }
     else do {
       c \<leftarrow> get_cur sp k;
       sp \<leftarrow> set_cur sp p c;
       sp \<leftarrow> Free sp k;
       read_B sp S (if R = k then p else R) bs } }"

definition difference :: "space \<Rightarrow> int list \<Rightarrow> int list \<Rightarrow> (nat \<times> space) option" where
  "difference sp A B = do {
     sp \<leftarrow> InitSpace sp;
     (S, sp) \<leftarrow> Malloc sp;
     (R, sp) \<leftarrow> read_A sp S A;
     sp \<leftarrow> set_cur sp R 0;
     sp \<leftarrow> read_B sp S R B;
     Some (S, sp) }"

section \<open>Reading A\<close>

text \<open>While A is read the cursor of the last node \<open>R\<close> is not yet set.\<close>

definition open_rep :: "space \<Rightarrow> nat \<Rightarrow> nat list \<Rightarrow> nat list \<Rightarrow> bool" where
  "open_rep sp S fr ns \<longleftrightarrow>
     length sp = MAXSIZE \<and> seg sp (cur (sp ! 0)) fr 0 \<and>
     seg sp S (butlast (S # ns)) (last (S # ns)) \<and>
     distinct (fr @ S # ns) \<and> set (fr @ S # ns) = {1..<MAXSIZE}"

lemma open_rep_bounds:
  assumes "open_rep sp S fr ns" "n \<in> set (fr @ S # ns)"
  shows "n \<noteq> 0" "n < length sp"
proof -
  have "n \<in> {1..<MAXSIZE}" using assms unfolding open_rep_def by blast
  then show "n \<noteq> 0" "n < length sp" using assms(1) by (auto simp: open_rep_def)
qed

lemma read_A_step:
  fixes a :: int
  assumes "open_rep sp S (f # fr) ns"
  defines "R \<equiv> last (S # ns)"
  defines "sp1 \<equiv> sp[0 := (sp ! 0)\<lparr>cur := cur (sp ! f)\<rparr>]"
  defines "sp2 \<equiv> sp1[f := (sp1 ! f)\<lparr>data := a\<rparr>]"
  defines "sp3 \<equiv> sp2[R := (sp2 ! R)\<lparr>cur := f\<rparr>]"
  shows "read_A sp R (a # as) = read_A sp3 f as" "open_rep sp3 S fr (ns @ [f])"
    "data (sp3 ! f) = a" "n \<noteq> f \<Longrightarrow> data (sp3 ! n) = data (sp ! n)"
proof -
  have rep: "seg sp (cur (sp ! 0)) (f # fr) 0" "seg sp S (butlast (S # ns)) R"
      "distinct ((f # fr) @ S # ns)" "length sp = MAXSIZE" "set ((f # fr) @ S # ns) = {1..<MAXSIZE}"
    using assms(1) unfolding open_rep_def R_def by blast+
  have Rin: "R \<in> set (S # ns)" unfolding R_def by (rule last_in_set) simp
  have f: "cur (sp ! 0) = f" "f \<noteq> 0" "f < length sp" "seg sp (cur (sp ! f)) fr 0" using rep(1) by auto
  have R: "R \<noteq> 0" "R < length sp" "R \<noteq> f" "R \<notin> set fr"
    using open_rep_bounds [OF assms(1), of R] Rin rep(3) by auto
  have z: "0 < length sp" "0 \<notin> set fr" "0 \<notin> set (S # ns)" "0 \<noteq> f"
  proof -
    have "0 \<notin> set ((f # fr) @ S # ns)" using open_rep_bounds(1) [OF assms(1), of 0] by blast
    then show "0 < length sp" "0 \<notin> set fr" "0 \<notin> set (S # ns)" "0 \<noteq> f"
      using rep(4) by (auto simp: MAXSIZE_def)
  qed
  have fs: "f \<notin> set fr" "f \<notin> set (S # ns)" using rep(3) by auto
  show "read_A sp R (a # as) = read_A sp3 f as"
    using f R(2) z(1) by (simp add: Malloc_def sp1_def sp2_def sp3_def)
  show "data (sp3 ! f) = a" "n \<noteq> f \<Longrightarrow> data (sp3 ! n) = data (sp ! n)"
    using f(2,3) R z by (auto simp: sp1_def sp2_def sp3_def nth_list_update)
  have upd: "seg sp3 x ms y = seg sp x ms y" if "set ms \<inter> {0, f, R} = {}" for x ms y
    using that by (auto simp: sp1_def sp2_def sp3_def seg_update)
  have cur3: "cur (sp3 ! 0) = cur (sp ! f)" "cur (sp3 ! R) = f"
    using f R z by (auto simp: sp1_def sp2_def sp3_def)
  have split: "S # ns = butlast (S # ns) @ [R]" unfolding R_def by simp
  have sub: "set (butlast (S # ns)) \<subseteq> set (S # ns)" by (auto dest: in_set_butlastD)
  have "distinct (butlast (S # ns) @ [R])" using split rep(3) by (metis distinct_append)
  then have "R \<notin> set (butlast (S # ns))" by simp
  then have "seg sp3 S (butlast (S # ns)) R"
    using rep(2) sub z(3) fs(2) by (subst upd) blast+
  then have "seg sp3 S (butlast (S # ns) @ [R]) f"
    using cur3 R f(3) by (auto simp: seg_append sp1_def sp2_def sp3_def)
  then have "seg sp3 S (S # ns) f" using split by metis
  moreover have "butlast (S # ns @ [f]) = S # ns" "last (S # ns @ [f]) = f"
    by (metis append_Cons butlast_snoc) (metis append_Cons last_snoc)
  moreover have "seg sp3 (cur (sp3 ! 0)) fr 0"
    unfolding cur3(1) using f(4) z(2) fs(1) R(4) by (subst upd) auto
  moreover have "mset (fr @ S # ns @ [f]) = mset ((f # fr) @ S # ns)" by simp
  then have "distinct (fr @ S # ns @ [f]) = distinct ((f # fr) @ S # ns)"
      "set (fr @ S # ns @ [f]) = set ((f # fr) @ S # ns)"
    using mset_eq_imp_distinct_iff mset_eq_setD by blast+
  moreover have "length sp3 = MAXSIZE" using rep(4) by (simp add: sp1_def sp2_def sp3_def)
  ultimately show "open_rep sp3 S fr (ns @ [f])"
    using rep(3,5) unfolding open_rep_def by (simp only:)
qed

lemma read_A_eq:
  "open_rep sp S fr ns \<Longrightarrow> length as \<le> length fr \<Longrightarrow>
    \<exists>sp' fr' ms. read_A sp (last (S # ns)) as = Some (last (S # ns @ ms), sp') \<and>
      open_rep sp' S fr' (ns @ ms) \<and> length fr' = length fr - length as \<and>
      map (\<lambda>n. data (sp' ! n)) (ns @ ms) = map (\<lambda>n. data (sp ! n)) ns @ as"
proof (induction as arbitrary: sp fr ns)
  case Nil
  then show ?case by (intro exI [of _ sp] exI [of _ fr] exI [of _ "[]"]) simp
next
  case (Cons a as)
  then obtain f fr1 where fr: "fr = f # fr1" by (cases fr) auto
  let ?sp1 = "sp[0 := (sp ! 0)\<lparr>cur := cur (sp ! f)\<rparr>]"
  let ?sp2 = "?sp1[f := (?sp1 ! f)\<lparr>data := a\<rparr>]"
  define sp3 where "sp3 = ?sp2[last (S # ns) := (?sp2 ! last (S # ns))\<lparr>cur := f\<rparr>]"
  note step = read_A_step [of sp S f fr1 ns, OF Cons.prems(1) [unfolded fr], where a = a, folded sp3_def]
  have last: "last (S # ns @ [f]) = f" by (metis append_Cons last_snoc)
  obtain sp' fr' ms where IH: "read_A sp3 f as = Some (last (S # (ns @ [f]) @ ms), sp')"
      "open_rep sp' S fr' ((ns @ [f]) @ ms)" "length fr' = length fr1 - length as"
      "map (\<lambda>n. data (sp' ! n)) ((ns @ [f]) @ ms) = map (\<lambda>n. data (sp3 ! n)) (ns @ [f]) @ as"
    using Cons.IH [OF step(2)] Cons.prems(2) last fr by auto
  have "f \<notin> set ns" using Cons.prems(1) fr by (simp add: open_rep_def)
  then have "map (\<lambda>n. data (sp3 ! n)) ns = map (\<lambda>n. data (sp ! n)) ns"
    by (intro map_cong refl step(4)) auto
  then have "map (\<lambda>n. data (sp' ! n)) (ns @ f # ms) = map (\<lambda>n. data (sp ! n)) ns @ a # as"
    using IH(4) step(3) by simp
  moreover have "read_A sp (last (S # ns)) (a # as) = Some (last (S # ns @ f # ms), sp')"
    using step(1) IH(1) by simp
  ultimately show ?case
    using IH(2,3) fr by (intro exI [of _ sp'] exI [of _ fr'] exI [of _ "f # ms"]) simp
qed

section \<open>Reading B\<close>

lemma search_b_seg:
  "R < length sp \<Longrightarrow> seg sp k ms (cur (sp ! R)) \<Longrightarrow> cur (sp ! R) \<notin> set ms \<Longrightarrow>
    search_b sp R b p k =
      Some (case List.find (\<lambda>j. data (sp ! (ms ! j)) = b) [0..<length ms] of
              None \<Rightarrow> (last (p # ms), cur (sp ! R)) | Some j \<Rightarrow> ((p # ms) ! j, ms ! j))"
proof (induction ms arbitrary: p k)
  case Nil
  then show ?case by (subst search_b.simps) simp
next
  case (Cons n ms)
  then have n: "k = n" "n < length sp" "n \<noteq> cur (sp ! R)" "seg sp (cur (sp ! n)) ms (cur (sp ! R))"
      "cur (sp ! R) \<notin> set ms" by auto
  show ?case
  proof (cases "data (sp ! n) = b")
    case True
    then show ?thesis
      using n Cons.prems(1) by (subst search_b.simps) (simp add: find_upt_Suc del: upt_Suc)
  next
    case False
    then have "search_b sp R b p k = search_b sp R b n (cur (sp ! n))"
      using n Cons.prems(1) by (subst search_b.simps) simp
    then show ?thesis
      using False Cons.IH [OF Cons.prems(1) n(4,5), of n]
      by (simp add: find_upt_Suc comp_def option.case_eq_if option.map_sel del: upt_Suc)
  qed
qed

text \<open>What the loop computes on the values: \<open>as\<close> up to \<open>R\<close>, \<open>ds\<close> behind it.\<close>

fun diff_list :: "int list \<Rightarrow> int list \<Rightarrow> int list \<Rightarrow> int list" where
  "diff_list as ds [] = as @ ds"
| "diff_list as ds (b # bs) =
     (if b \<in> set as then diff_list (remove1 b as) ds bs else diff_list as (b # ds) bs)"

lemma diff_list_distinct:
  "distinct as \<Longrightarrow> distinct bs \<Longrightarrow>
    diff_list as ds bs = filter (\<lambda>a. a \<notin> set bs) as @ rev (filter (\<lambda>b. b \<notin> set as) bs) @ ds"
proof (induction as ds bs rule: diff_list.induct)
  case (1 as ds)
  then show ?case by simp
next
  case (2 as ds b bs)
  show ?case
  proof (cases "b \<in> set as")
    case True
    have "filter (\<lambda>c. c \<notin> set (remove1 b as)) bs = filter (\<lambda>c. c \<notin> set as) bs"
      using 2(3,4) by (intro filter_cong) auto
    then show ?thesis
      using True 2 by (simp add: distinct_remove1_removeAll removeAll_filter_not_eq eq_commute [of b])
  next
    case False
    then have "filter (\<lambda>a. a \<notin> set (b # bs)) as = filter (\<lambda>a. a \<notin> set bs) as"
      by (intro filter_cong) auto
    then show ?thesis using False 2 by simp
  qed
qed

lemma remove1_first:
  assumes "j < length xs" "xs ! j = x" "\<forall>i<j. xs ! i \<noteq> x"
  shows "remove1 x xs = del_nth j xs"
proof -
  have "x \<notin> set (take j xs)" using assms by (auto simp: in_set_conv_nth)
  moreover have "xs = take j xs @ x # drop (Suc j) xs" using assms id_take_nth_drop by blast
  ultimately show ?thesis unfolding del_nth_def
    by (metis remove1.simps(2) remove1_append)
qed

lemma take_del_nth: "j < k \<Longrightarrow> k \<le> length xs \<Longrightarrow> take (k - 1) (del_nth j xs) = del_nth j (take k xs)"
  by (cases "j = k - 1") (auto simp: del_nth_def take_drop min_def)

lemma drop_del_nth: "j < k \<Longrightarrow> k \<le> length xs \<Longrightarrow> drop (k - 1) (del_nth j xs) = drop k xs"
  by (simp add: del_nth_def)

lemma nth_Cons_del_nth:
  assumes "j < k" "k \<le> length ns" "distinct ns"
  shows "(if (S # ns) ! k = ns ! j then (S # ns) ! j else (S # ns) ! k) = (S # del_nth j ns) ! (k - 1)"
proof -
  have eq: "(S # ns) ! k = ns ! j \<longleftrightarrow> j = k - 1"
    using assms nth_eq_iff_index_eq [OF assms(3), of "k - 1" j] by (cases k) auto
  show ?thesis
  proof (cases "j = k - 1")
    case True
    then show ?thesis using assms eq by (cases j) (auto simp: del_nth_def nth_append)
  next
    case False
    then have "(del_nth j ns) ! (k - 2) = ns ! (k - 1)"
      using assms by (auto simp: del_nth_def nth_append min_def intro!: arg_cong [of _ _ "(!) ns"])
    then show ?thesis using False assms eq by (cases k) (auto simp: nth_Cons' numeral_2_eq_2)
  qed
qed

text \<open>The nodes up to \<open>R\<close>, the part that is searched.\<close>

lemma head_part:
  assumes "sl_rep sp S fr ns" "k \<le> length ns"
  defines "R \<equiv> (S # ns) ! k"
  shows "seg sp (cur (sp ! S)) (take k ns) (cur (sp ! R))" "cur (sp ! R) \<notin> set (take k ns)"
proof -
  note D = sl_repD [OF assms(1)] and P = rep_split [OF assms(1,2), folded R_def]
  have "seg sp S (take k (S # ns) @ [R]) (cur (sp ! R))" using P(1,4,5) by (auto simp: seg_append)
  moreover have "take k (S # ns) @ [R] = S # take k ns"
    using take_Suc_conv_app_nth [of k "S # ns"] assms(2) by (simp add: R_def)
  ultimately show "seg sp (cur (sp ! S)) (take k ns) (cur (sp ! R))" by simp
  have "set (take k ns) \<inter> set (drop k ns) = {}"
    using D(8) by (rule set_take_disj_set_drop_if_distinct) simp
  moreover have "cur (sp ! R) \<in> {0} \<union> set (drop k ns)" using P(2) by (cases "drop k ns") auto
  moreover have "0 \<notin> set (take k ns)" using D(13) by (auto dest: in_set_takeD)
  ultimately show "cur (sp ! R) \<notin> set (take k ns)" by auto
qed

lemma search_b_head:
  assumes "sl_rep sp S fr ns" "k \<le> length ns"
  defines "R \<equiv> (S # ns) ! k"
  shows "search_b sp R b S (cur (sp ! S)) =
    Some (case List.find (\<lambda>j. data (sp ! (take k ns ! j)) = b) [0..<length (take k ns)] of
            None \<Rightarrow> (last (S # take k ns), cur (sp ! R))
          | Some j \<Rightarrow> ((S # take k ns) ! j, take k ns ! j))"
  unfolding R_def
  by (rule search_b_seg [OF rep_split(5) [OF assms(1,2)] head_part [OF assms(1,2)]])

lemma read_B_insert:
  assumes "sl_rep sp S (f # fr) ns" "k \<le> length ns"
  defines "R \<equiv> (S # ns) ! k"
  assumes "search_b sp R b S (cur (sp ! S)) = Some (p, cur (sp ! R))"
  shows "\<exists>sp'. read_B sp S R (b # bs) = read_B sp' S R bs \<and> sl_rep sp' S fr (ins_nth k f ns) \<and>
    data (sp' ! f) = b \<and> (\<forall>n. n \<noteq> f \<longrightarrow> data (sp' ! n) = data (sp ! n))"
proof -
  note D = sl_repD [OF assms(1)] and P = rep_split [OF assms(1,2), folded R_def]
  let ?sp1 = "sp[0 := (sp ! 0)\<lparr>cur := cur (sp ! f)\<rparr>]"
  have f: "cur (sp ! 0) = f" "f \<noteq> 0" "f < length sp" using D(3) by auto
  have m: "Malloc sp = Some (f, ?sp1)" using f D(2) by (simp add: Malloc_def)
  have "ListInsert_sl sp S (int k + 1) b = Some (OK, link_node ?sp1 R f b)"
    unfolding R_def using f(3) by (intro ListInsert_sl_run [OF assms(1,2) m]) simp_all
  moreover have "read_B sp S R (b # bs) = read_B (link_node ?sp1 R f b) S R bs"
    using assms(4) m D(5) P(5) f(3) by (simp add: link_node_def Let_def)
  ultimately show ?thesis using ListInsert_sl_rep [OF assms(1,2), of b] by auto
qed

lemma read_B_delete:
  assumes "sl_rep sp S fr ns" "k \<le> length ns" "j < k"
  defines "R \<equiv> (S # ns) ! k"
  assumes "search_b sp R b S (cur (sp ! S)) = Some ((S # ns) ! j, ns ! j)"
  shows "\<exists>sp'. read_B sp S R (b # bs) = read_B sp' S ((S # del_nth j ns) ! (k - 1)) bs \<and>
    sl_rep sp' S (ns ! j # fr) (del_nth j ns) \<and> (\<forall>n. data (sp' ! n) = data (sp ! n))"
proof -
  have j: "j < length ns" "j \<le> length ns" using assms(2,3) by simp_all
  note D = sl_repD [OF assms(1)] and P = rep_split [OF assms(1,2), folded R_def]
    and J = rep_split [OF assms(1) j(2)]
  have "drop j ns = ns ! j # drop (Suc j) ns" using j(1) by (simp add: Cons_nth_drop_Suc)
  then have q: "cur (sp ! ((S # ns) ! j)) = ns ! j" "ns ! j \<noteq> 0" "ns ! j < length sp"
    using J(2) by auto
  have "ns ! j \<in> set (take k ns)" using assms(3) j(1) by (auto simp: in_set_conv_nth)
  then have ne: "ns ! j \<noteq> cur (sp ! R)" using head_part(2) [OF assms(1,2)] unfolding R_def by metis
  obtain sp' where sp': "ListDelete_sl sp S (int j + 1) = Some (OK, sp', Some (data (sp ! (ns ! j))))"
      "sl_rep sp' S (ns ! j # fr) (del_nth j ns)" "\<forall>n. data (sp' ! n) = data (sp ! n)"
    using ListDelete_sl_rep [OF assms(1) j(1)] by blast
  have "read_B sp S R (b # bs) =
      read_B sp' S (if R = ns ! j then (S # ns) ! j else R) bs"
    using sp'(1) assms(5) ne D(2,4,5) J(4,5) P(5) q walk_next_from_head [OF assms(1), of j] j
    by (simp add: ListDelete_sl_def Free_def)
  then show ?thesis
    using sp'(2,3) nth_Cons_del_nth [OF assms(3,2) D(8), of S, folded R_def] by auto
qed

lemma read_B_eq:
  "sl_rep sp S fr ns \<Longrightarrow> k \<le> length ns \<Longrightarrow> length bs \<le> length fr \<Longrightarrow>
    \<exists>sp' fr' ms. read_B sp S ((S # ns) ! k) bs = Some sp' \<and> sl_rep sp' S fr' ms \<and>
      map (\<lambda>n. data (sp' ! n)) ms =
        diff_list (take k (map (\<lambda>n. data (sp ! n)) ns)) (drop k (map (\<lambda>n. data (sp ! n)) ns)) bs"
proof (induction bs arbitrary: sp fr ns k)
  case Nil
  then show ?case by auto
next
  case (Cons b bs)
  let ?R = "(S # ns) ! k" and ?D = "map (\<lambda>n. data (sp ! n)) ns"
  let ?find = "List.find (\<lambda>j. data (sp ! (take k ns ! j)) = b) [0..<length (take k ns)]"
  note search = search_b_head [OF Cons.prems(1,2), of b]
  show ?case
  proof (cases ?find)
    case None
    then have b: "b \<notin> set (take k ?D)"
      using Cons.prems(2) by (auto simp: find_upt_None in_set_conv_nth)
    obtain f fr1 where fr: "fr = f # fr1" using Cons.prems(3) by (cases fr) auto
    obtain sp' where sp': "read_B sp S ?R (b # bs) = read_B sp' S ?R bs"
        "sl_rep sp' S fr1 (ins_nth k f ns)" "data (sp' ! f) = b"
        "\<forall>n. n \<noteq> f \<longrightarrow> data (sp' ! n) = data (sp ! n)"
      using read_B_insert [OF Cons.prems(1) [unfolded fr] Cons.prems(2)] search None by force
    have "f \<notin> set ns" using sl_repD(11) [OF Cons.prems(1)] fr by auto
    then have "map (\<lambda>n. data (sp' ! n)) ns = ?D" using sp'(4) by auto
    then have D': "map (\<lambda>n. data (sp' ! n)) (ins_nth k f ns) = ins_nth k b ?D"
      using sp'(3) by (simp only: map_ins_nth)
    have R: "(S # ins_nth k f ns) ! k = ?R"
      using Cons.prems(2) by (cases k) (auto simp: ins_nth_def nth_append)
    have "take k (ins_nth k b ?D) = take k ?D" "drop k (ins_nth k b ?D) = b # drop k ?D"
      using Cons.prems(2) by (auto simp: ins_nth_def)
    then show ?thesis
      using Cons.IH [OF sp'(2), of k] Cons.prems(2,3) fr b D' R sp'(1) by simp
  next
    case (Some j)
    then have j: "j < k" "?D ! j = b" "\<forall>i<j. ?D ! i \<noteq> b"
      using Cons.prems(2) by (auto simp: find_upt_Some)
    have found: "search_b sp ?R b S (cur (sp ! S)) = Some ((S # ns) ! j, ns ! j)"
      using search j(1) Cons.prems(2) unfolding Some by (simp add: nth_Cons')
    obtain sp' where sp': "read_B sp S ?R (b # bs) = read_B sp' S ((S # del_nth j ns) ! (k - 1)) bs"
        "sl_rep sp' S (ns ! j # fr) (del_nth j ns)" "\<forall>n. data (sp' ! n) = data (sp ! n)"
      using read_B_delete [OF Cons.prems(1,2) j(1) found] by blast
    have "remove1 b (take k ?D) = del_nth j (take k ?D)"
      using j Cons.prems(2) by (intro remove1_first) auto
    moreover have "b \<in> set (take k ?D)" using j Cons.prems(2) by (force simp: in_set_conv_nth)
    ultimately have step: "diff_list (take k ?D) (drop k ?D) (b # bs) =
        diff_list (take (k - 1) (del_nth j ?D)) (drop (k - 1) (del_nth j ?D)) bs"
      using j(1) Cons.prems(2) by (simp only: diff_list.simps if_True take_del_nth drop_del_nth length_map)
    have D': "map (\<lambda>n. data (sp' ! n)) (del_nth j ns) = del_nth j ?D"
      using sp'(3) by (simp add: map_del_nth)
    have "k - 1 \<le> length (del_nth j ns)" "length bs \<le> length (ns ! j # fr)"
      using Cons.prems(2,3) j(1) by auto
    then show ?thesis unfolding step sp'(1) by (rule Cons.IH [OF sp'(2), unfolded D'])
  qed
qed

section \<open>The whole function\<close>

lemma init_open_rep:
  assumes "length sp = MAXSIZE"
  shows "\<exists>sp1 sp2. InitSpace sp = Some sp1 \<and> Malloc sp1 = Some (1, sp2) \<and> open_rep sp2 1 [2..<MAXSIZE] []"
proof -
  have big: "2 < MAXSIZE" by (simp add: MAXSIZE_def)
  obtain sp1 where sp1: "InitSpace sp = Some sp1" "length sp1 = MAXSIZE" "cur (sp1 ! 0) = 1"
      "seg sp1 1 [1..<MAXSIZE] 0"
    using InitSpace_eq [OF assms] by blast
  let ?sp2 = "sp1[0 := (sp1 ! 0)\<lparr>cur := cur (sp1 ! 1)\<rparr>]"
  have ivl: "[1..<MAXSIZE] = 1 # [2..<MAXSIZE]" using big by (simp add: upt_conv_Cons numeral_2_eq_2)
  then have "seg sp1 (cur (sp1 ! 1)) [2..<MAXSIZE] 0" using sp1(4) by simp
  then have "seg ?sp2 (cur (sp1 ! 1)) [2..<MAXSIZE] 0" by (subst seg_update) auto
  moreover have "set ([2..<MAXSIZE] @ [1]) = {1..<MAXSIZE}" using big by auto
  ultimately have "open_rep ?sp2 1 [2..<MAXSIZE] []" using sp1(2) big by (simp add: open_rep_def)
  moreover have "Malloc sp1 = Some (1, ?sp2)" using sp1(2,3) big by (simp add: Malloc_def)
  ultimately show ?thesis using sp1(1) by blast
qed

lemma close_rep:
  assumes "open_rep sp S fr ns"
  defines "R \<equiv> last (S # ns)"
  defines "sp' \<equiv> sp[R := (sp ! R)\<lparr>cur := 0\<rparr>]"
  shows "set_cur sp R 0 = Some sp'" "sl_rep sp' S fr ns" "data (sp' ! n) = data (sp ! n)"
proof -
  have Rin: "R \<in> set (S # ns)" unfolding R_def by (rule last_in_set) simp
  then have R: "R \<noteq> 0" "R < length sp" using open_rep_bounds [OF assms(1), of R] by auto
  have rep: "seg sp (cur (sp ! 0)) fr 0" "seg sp S (butlast (S # ns)) R" "distinct (fr @ S # ns)"
    using assms(1) unfolding open_rep_def R_def by blast+
  have split: "S # ns = butlast (S # ns) @ [R]" unfolding R_def by simp
  have "distinct (butlast (S # ns) @ [R])" using split rep(3) by (metis distinct_append)
  then have "seg sp' S (butlast (S # ns)) R" using rep(2) by (simp add: sp'_def seg_update)
  then have "seg sp' S (butlast (S # ns) @ [R]) 0" using R by (simp add: seg_append sp'_def)
  then have "seg sp' S (S # ns) 0" using split by metis
  moreover have "R \<notin> set fr" using Rin rep(3) by auto
  then have "seg sp' (cur (sp' ! 0)) fr 0" using rep(1) R(1) by (simp add: sp'_def seg_update)
  ultimately show "sl_rep sp' S fr ns"
    using assms(1) unfolding open_rep_def sl_rep_def by (simp add: sp'_def)
  show "set_cur sp R 0 = Some sp'" using R(2) by (simp add: sp'_def)
  show "data (sp' ! n) = data (sp ! n)" using R(2) by (cases "n = R") (auto simp: sp'_def)
qed

lemma difference_eq:
  assumes "length sp = MAXSIZE" "length A + length B \<le> MAXSIZE - 2"
  shows "\<exists>sp'. difference sp A B = Some (1, sp') \<and> sl_inv sp' 1 \<and> sl_abs sp' 1 = diff_list A [] B"
proof -
  obtain sp1 sp2 where init: "InitSpace sp = Some sp1" "Malloc sp1 = Some (1, sp2)"
      "open_rep sp2 1 [2..<MAXSIZE] []"
    using init_open_rep [OF assms(1)] by blast
  obtain sp3 fr ns where A: "read_A sp2 1 A = Some (last (1 # ns), sp3)" "open_rep sp3 1 fr ns"
      "length fr = MAXSIZE - 2 - length A" "map (\<lambda>n. data (sp3 ! n)) ns = A"
    using read_A_eq [OF init(3), of A] assms(2) by auto
  define sp4 where "sp4 = sp3[last (1 # ns) := (sp3 ! last (1 # ns))\<lparr>cur := 0\<rparr>]"
  note close = close_rep [OF A(2), folded sp4_def]
  have D: "map (\<lambda>n. data (sp4 ! n)) ns = A" using A(4) close(3) by simp
  have R: "(1 # ns) ! length ns = last (1 # ns)" by (simp add: last_conv_nth)
  have room: "length B \<le> length fr" using assms(2) A(3) by linarith
  obtain sp' fr' ms where B: "read_B sp4 1 (last (1 # ns)) B = Some sp'" "sl_rep sp' 1 fr' ms"
      "map (\<lambda>n. data (sp' ! n)) ms = diff_list A [] B"
    using read_B_eq [OF close(2), of "length ns" B] room D R by auto
  have "difference sp A B = Some (1, sp')"
    using init A(1) close(1) B(1) by (simp add: difference_def)
  then show ?thesis using B(2,3) by (auto simp: sl_inv_def sl_abs_rep)
qed

section \<open>Property\<close>

text \<open>
  C27 (\<open>difference\<close>). On a space of \<open>MAXSIZE\<close> nodes and two sets that fit in it the function returns
  a well-formed static list without duplicates that holds exactly the symmetric difference of the
  two sets: the elements of \<open>A\<close> that remain, in the order of \<open>A\<close>, then the new ones of \<open>B\<close>, last first.
\<close>
theorem difference_correct:
  assumes "length sp = MAXSIZE" "length A + length B \<le> MAXSIZE - 2" "distinct A" "distinct B"
  shows "\<exists>sp'. difference sp A B = Some (1, sp') \<and> sl_inv sp' 1 \<and>
    sl_abs sp' 1 = filter (\<lambda>a. a \<notin> set B) A @ rev (filter (\<lambda>b. b \<notin> set A) B) \<and>
    set (sl_abs sp' 1) = (set A - set B) \<union> (set B - set A) \<and> distinct (sl_abs sp' 1)"
  using difference_eq [OF assms(1,2)] assms(3,4)
  by (auto simp: diff_list_distinct)

theorem difference_correct_witness:
  "\<exists>sp'. difference (replicate MAXSIZE \<lparr>data = 0, cur = 0\<rparr>) [1, 2, 3] [3, 4, 1] = Some (1, sp') \<and>
    sl_abs sp' 1 = [2, 4]"
  using difference_correct [of "replicate MAXSIZE \<lparr>data = 0, cur = 0\<rparr>" "[1, 2, 3]" "[3, 4, 1]"]
  by (auto simp: MAXSIZE_def)

end
