(* ===== verification/NodeHeap.thy ===== *)
theory NodeHeap
  imports Prelude
begin

text \<open>
  A store of singly linked nodes, as the pointer-based lists of \<open>DataStruct_learn\<close> allocate them: an
  address maps to a node with a datum and the address of its successor, and address 0 is NULL. Loading
  from or storing to an address that is NULL or not allocated has no result. \<open>malloc\<close> is a parameter:
  it answers with an address and the arbitrary contents of the new node, or with \<open>None\<close>.
\<close>

section \<open>Definitions\<close>

record LNode =
  nd_data :: int
  nd_next :: nat

type_synonym heap = "nat \<rightharpoonup> LNode"
type_synonym node_alloc = "heap \<Rightarrow> (nat \<times> LNode) option"

abbreviation (input) NULL :: nat where "NULL \<equiv> 0"

definition load :: "heap \<Rightarrow> nat \<Rightarrow> LNode option" where
  "load h p = (if p = NULL then None else h p)"

definition store :: "heap \<Rightarrow> nat \<Rightarrow> (LNode \<Rightarrow> LNode) \<Rightarrow> heap option" where
  "store h p f = do { n \<leftarrow> load h p; Some (h(p \<mapsto> f n)) }"

definition free_node :: "heap \<Rightarrow> nat \<Rightarrow> heap option" where
  "free_node h p = (if p = NULL then Some h else do { n \<leftarrow> h p; Some (h(p := None)) })"

text \<open>What the code relies on: a new node has an address that is not NULL and not in use.\<close>

definition wf_malloc :: "node_alloc \<Rightarrow> bool" where
  "wf_malloc A \<longleftrightarrow> (\<forall>h a n. A h = Some (a, n) \<longrightarrow> a \<noteq> NULL \<and> h a = None)"

text \<open>Memory that does not run out while finitely many nodes are in use.\<close>

definition enough_memory :: "node_alloc \<Rightarrow> bool" where
  "enough_memory A \<longleftrightarrow> (\<forall>h. finite (dom h) \<longrightarrow> A h \<noteq> None)"

section \<open>Chains\<close>

text \<open>The nodes \<open>as\<close> lead from the pointer \<open>p\<close> to the pointer \<open>q\<close>.\<close>

fun chain :: "heap \<Rightarrow> nat \<Rightarrow> nat list \<Rightarrow> nat \<Rightarrow> bool" where
  "chain h p [] q \<longleftrightarrow> p = q"
| "chain h p (a # as) q \<longleftrightarrow> p = a \<and> a \<noteq> NULL \<and> (case h a of None \<Rightarrow> False | Some n \<Rightarrow> chain h (nd_next n) as q)"

definition elems :: "heap \<Rightarrow> nat list \<Rightarrow> int list" where
  "elems h as = map (\<lambda>a. nd_data (the (h a))) as"

lemma elems_simps [simp]:
  "elems h [] = []" "elems h (a # as) = nd_data (the (h a)) # elems h as" "elems h (as @ bs) = elems h as @ elems h bs"
  "length (elems h as) = length as"
  by (simp_all add: elems_def)

lemma elems_nth: "k < length as \<Longrightarrow> elems h as ! k = nd_data (the (h (as ! k)))"
  by (simp add: elems_def)

lemma elems_take_drop: "take k (elems h as) = elems h (take k as)" "drop k (elems h as) = elems h (drop k as)"
  by (simp_all add: elems_def take_map drop_map)

lemma chain_append: "chain h p (as @ bs) q \<longleftrightarrow> (\<exists>r. chain h p as r \<and> chain h r bs q)"
  by (induction as arbitrary: p) (auto split: option.splits)

lemma chain_in_heap: "chain h p as q \<Longrightarrow> a \<in> set as \<Longrightarrow> a \<noteq> NULL \<and> (\<exists>n. h a = Some n)"
  by (induction as arbitrary: p) (auto split: option.splits)

lemma chain_upd [simp]: "a \<notin> set as \<Longrightarrow> chain (h(a := v)) p as q \<longleftrightarrow> chain h p as q"
  by (induction as arbitrary: p) (auto split: option.splits)

lemma elems_upd [simp]: "a \<notin> set as \<Longrightarrow> elems (h(a := v)) as = elems h as"
  by (auto simp: elems_def)

lemma chain_NULL: "chain h p as NULL \<Longrightarrow> p = NULL \<longleftrightarrow> as = []"
  by (cases as) auto

lemma chain_load:
  assumes "chain h p (a # as) q"
  obtains n where "load h a = Some n" "p = a" "a \<noteq> NULL" "h a = Some n" "chain h (nd_next n) as q"
  using assms by (auto simp: load_def split: option.splits)

lemma store_upd: "h p = Some n \<Longrightarrow> p \<noteq> NULL \<Longrightarrow> store h p f = Some (h(p \<mapsto> f n))"
  by (simp add: store_def load_def)

lemma load_in: "h p = Some n \<Longrightarrow> p \<noteq> NULL \<Longrightarrow> load h p = Some n"
  by (simp add: load_def)

lemma load_NULL [simp]: "load h NULL = None"
  by (simp add: load_def)

lemma free_in: "h p = Some n \<Longrightarrow> p \<noteq> NULL \<Longrightarrow> free_node h p = Some (h(p := None))"
  by (simp add: free_node_def)

text \<open>An allocator of this kind: the address behind the highest one in use.\<close>

definition next_free :: node_alloc where
  "next_free h = (if finite (dom h) then Some (Suc (Max (insert 0 (dom h))), \<lparr>nd_data = 0, nd_next = 0\<rparr>) else None)"

lemma next_free_ok: "wf_malloc next_free" "enough_memory next_free"
proof -
  have "Suc (Max (insert 0 (dom h))) \<notin> dom h" if "finite (dom h)" for h :: heap
    using that Max_ge [of "insert 0 (dom h)" "Suc (Max (insert 0 (dom h)))"]
    by (metis finite_insert insertCI not_less_eq_eq order_refl)
  then show "wf_malloc next_free" unfolding wf_malloc_def next_free_def by (auto split: if_splits)
qed (simp add: enough_memory_def next_free_def)

text \<open>Two chains between the same pointers have the same nodes, when the end is NULL.\<close>

lemma chain_unique: "chain h p as NULL \<Longrightarrow> chain h p bs NULL \<Longrightarrow> as = bs"
proof (induction as arbitrary: p bs)
  case (Cons a as)
  then show ?case by (cases bs) (auto split: option.splits)
qed (metis chain.simps(1) chain_NULL)

end
