(* ===== verification/LinkList.thy ===== *)
theory LinkList
  imports LinearList NodeHeap
begin

text \<open>
  The singly linked list with a head node of \<open>DataStruct_learn/List/LinkList/LinkList.c\<close>, on an explicit
  store of nodes. A list is the address of its head node; an operation takes the store and returns the
  new one. A loop is a partial function: it has no result when it loads from an address that holds no
  node, or runs around a cycle.
\<close>

section \<open>Definitions\<close>

definition InitList_ll :: "node_alloc \<Rightarrow> heap \<Rightarrow> (int \<times> heap \<times> nat) outcome" where
  "InitList_ll A h =
     (case A h of
        None \<Rightarrow> Exit OVERFLOW
      | Some (a, n) \<Rightarrow> Ret (OK, h(a \<mapsto> n\<lparr>nd_next := NULL\<rparr>), a))"

text \<open>The loop of \<open>DestroyList\<close>, with the pointer \<open>*L\<close> and the local \<open>p\<close>.\<close>

partial_function (option) destroy_loop_ll :: "heap \<Rightarrow> nat \<Rightarrow> nat \<Rightarrow> heap option" where
  "destroy_loop_ll h L p =
     (if p \<noteq> NULL then do {
        n \<leftarrow> load h L;
        h \<leftarrow> free_node h L;
        destroy_loop_ll h (nd_next n) (nd_next n) }
      else Some h)"

text \<open>The argument \<open>LinkList *L\<close> is \<open>None\<close> for NULL, else the pointer it refers to.\<close>

definition DestroyList_ll :: "heap \<Rightarrow> nat option \<Rightarrow> (int \<times> heap \<times> nat option) option" where
  "DestroyList_ll h L =
     (case L of
        None \<Rightarrow> Some (ERROR, h, L)
      | Some p \<Rightarrow>
          if p = NULL then Some (ERROR, h, L)
          else do { h \<leftarrow> destroy_loop_ll h p p; Some (OK, h, Some NULL) })"

partial_function (option) clear_loop_ll :: "heap \<Rightarrow> nat \<Rightarrow> heap option" where
  "clear_loop_ll h p =
     (if p \<noteq> NULL then do {
        let pre = p;
        n \<leftarrow> load h p;
        h \<leftarrow> free_node h pre;
        clear_loop_ll h (nd_next n) }
      else Some h)"

definition ClearList_ll :: "heap \<Rightarrow> nat \<Rightarrow> (int \<times> heap) option" where
  "ClearList_ll h L =
     (if L = NULL then Some (ERROR, h)
      else do {
        n \<leftarrow> load h L;
        h \<leftarrow> clear_loop_ll h (nd_next n);
        h \<leftarrow> store h L (nd_next_update (\<lambda>_. NULL));
        Some (OK, h) })"

definition ListEmpty_ll :: "heap \<Rightarrow> nat \<Rightarrow> bool option" where
  "ListEmpty_ll h L = (if L \<noteq> NULL then do { n \<leftarrow> load h L; Some (nd_next n = NULL) } else Some False)"

text \<open>The guard \<open>L == NULL || L->next == NULL\<close>.\<close>

definition no_elems_ll :: "heap \<Rightarrow> nat \<Rightarrow> bool option" where
  "no_elems_ll h L = (if L = NULL then Some True else do { n \<leftarrow> load h L; Some (nd_next n = NULL) })"

partial_function (option) length_loop_ll :: "heap \<Rightarrow> nat \<Rightarrow> int \<Rightarrow> int option" where
  "length_loop_ll h p i =
     (if p \<noteq> NULL then do { n \<leftarrow> load h p; length_loop_ll h (nd_next n) (c_int (i + 1)) } else Some i)"

definition ListLength_ll :: "heap \<Rightarrow> nat \<Rightarrow> int option" where
  "ListLength_ll h L = do {
     none \<leftarrow> no_elems_ll h L;
     if none then Some 0 else do { n \<leftarrow> load h L; length_loop_ll h (nd_next n) 0 } }"

text \<open>The loop \<open>while (p->next != NULL && j < i - 1)\<close> of \<open>GetElem\<close> and \<open>ListDelete\<close>.\<close>

partial_function (option) seek_next :: "heap \<Rightarrow> nat \<Rightarrow> int \<Rightarrow> int \<Rightarrow> (nat \<times> int) option" where
  "seek_next h p j i = do {
     n \<leftarrow> load h p;
     if nd_next n \<noteq> NULL \<and> j < i - 1 then seek_next h (nd_next n) (j + 1) i else Some (p, j) }"

definition GetElem_ll :: "heap \<Rightarrow> nat \<Rightarrow> int \<Rightarrow> (int \<times> int option) option" where
  "GetElem_ll h L i = do {
     none \<leftarrow> no_elems_ll h L;
     if none then Some (ERROR, None)
     else do {
       (p, j) \<leftarrow> seek_next h L 0 i;
       n \<leftarrow> load h p;
       if nd_next n = NULL \<or> j > i - 1 then Some (ERROR, None)
       else do { m \<leftarrow> load h (nd_next n); Some (OK, Some (nd_data m)) } } }"

partial_function (option) locate_loop_ll ::
  "heap \<Rightarrow> nat \<Rightarrow> int \<Rightarrow> int \<Rightarrow> (int \<Rightarrow> int \<Rightarrow> bool) \<Rightarrow> (nat \<times> int) option" where
  "locate_loop_ll h p i e Compare =
     (if p \<noteq> NULL then do {
        n \<leftarrow> load h p;
        if \<not> Compare (nd_data n) e then locate_loop_ll h (nd_next n) (c_int (i + 1)) e Compare else Some (p, i) }
      else Some (p, i))"

definition LocateElem_ll :: "heap \<Rightarrow> nat \<Rightarrow> int \<Rightarrow> (int \<Rightarrow> int \<Rightarrow> bool) \<Rightarrow> int option" where
  "LocateElem_ll h L e Compare = do {
     none \<leftarrow> no_elems_ll h L;
     if none then Some 0
     else do {
       n \<leftarrow> load h L;
       (p, i) \<leftarrow> locate_loop_ll h (nd_next n) 1 e Compare;
       Some (if p \<noteq> NULL then i else 0) } }"

partial_function (option) prior_loop_ll :: "heap \<Rightarrow> nat \<Rightarrow> nat \<Rightarrow> int \<Rightarrow> (nat \<times> nat) option" where
  "prior_loop_ll h pre nxt cur_e =
     (if nxt \<noteq> NULL then do {
        n \<leftarrow> load h nxt;
        if nd_data n \<noteq> cur_e then prior_loop_ll h nxt (nd_next n) cur_e else Some (pre, nxt) }
      else Some (pre, nxt))"

definition PriorElem_ll :: "heap \<Rightarrow> nat \<Rightarrow> int \<Rightarrow> (int \<times> int option) option" where
  "PriorElem_ll h L cur_e = do {
     none \<leftarrow> no_elems_ll h L;
     if none then Some (ERROR, None)
     else do {
       n \<leftarrow> load h L;
       let pre = nd_next n;
       m \<leftarrow> load h pre;
       if nd_data m = cur_e then Some (ERROR, None)
       else do {
         (pre, nxt) \<leftarrow> prior_loop_ll h pre (nd_next m) cur_e;
         if nxt = NULL then Some (ERROR, None)
         else do { m \<leftarrow> load h pre; Some (OK, Some (nd_data m)) } } } }"

partial_function (option) next_loop_ll :: "heap \<Rightarrow> nat \<Rightarrow> int \<Rightarrow> nat option" where
  "next_loop_ll h pre cur_e = do {
     n \<leftarrow> load h pre;
     if nd_next n \<noteq> NULL \<and> nd_data n \<noteq> cur_e then next_loop_ll h (nd_next n) cur_e else Some pre }"

definition NextElem_ll :: "heap \<Rightarrow> nat \<Rightarrow> int \<Rightarrow> (int \<times> int option) option" where
  "NextElem_ll h L cur_e = do {
     none \<leftarrow> no_elems_ll h L;
     if none then Some (ERROR, None)
     else do {
       n \<leftarrow> load h L;
       pre \<leftarrow> next_loop_ll h (nd_next n) cur_e;
       m \<leftarrow> load h pre;
       if nd_next m = NULL then Some (ERROR, None)
       else do { m \<leftarrow> load h (nd_next m); Some (OK, Some (nd_data m)) } } }"

text \<open>The loop \<open>while (p != NULL && j < i - 1)\<close> of \<open>ListInsert\<close>.\<close>

partial_function (option) seek_node :: "heap \<Rightarrow> nat \<Rightarrow> int \<Rightarrow> int \<Rightarrow> (nat \<times> int) option" where
  "seek_node h p j i =
     (if p \<noteq> NULL \<and> j < i - 1 then do { n \<leftarrow> load h p; seek_node h (nd_next n) (j + 1) i } else Some (p, j))"

text \<open>A new node \<open>s\<close> behind \<open>p\<close>.\<close>

definition link_behind :: "heap \<Rightarrow> nat \<Rightarrow> nat \<Rightarrow> LNode \<Rightarrow> int \<Rightarrow> heap option" where
  "link_behind h p s n e = do {
     let h = h(s \<mapsto> n\<lparr>nd_data := e\<rparr>);
     m \<leftarrow> load h p;
     h \<leftarrow> store h s (nd_next_update (\<lambda>_. nd_next m));
     store h p (nd_next_update (\<lambda>_. s)) }"

definition ListInsert_ll :: "node_alloc \<Rightarrow> heap \<Rightarrow> nat \<Rightarrow> int \<Rightarrow> int \<Rightarrow> (int \<times> heap) outcome" where
  "ListInsert_ll A h L i e =
     (if L = NULL then Ret (ERROR, h)
      else seq (of_option (seek_node h L 0 i)) (\<lambda>(p, j).
        if p = NULL \<or> j > i - 1 then Ret (ERROR, h)
        else case A h of
            None \<Rightarrow> Exit OVERFLOW
          | Some (s, n) \<Rightarrow> seq (of_option (link_behind h p s n e)) (\<lambda>h. Ret (OK, h))))"

definition ListDelete_ll :: "heap \<Rightarrow> nat \<Rightarrow> int \<Rightarrow> (int \<times> heap \<times> int option) option" where
  "ListDelete_ll h L i = do {
     none \<leftarrow> no_elems_ll h L;
     if none then Some (ERROR, h, None)
     else do {
       (p, j) \<leftarrow> seek_next h L 0 i;
       n \<leftarrow> load h p;
       if nd_next n = NULL \<or> j > i - 1 then Some (ERROR, h, None)
       else do {
         let q = nd_next n;
         m \<leftarrow> load h q;
         h \<leftarrow> store h p (nd_next_update (\<lambda>_. nd_next m));
         h \<leftarrow> free_node h q;
         Some (OK, h, Some (nd_data m)) } } }"

text \<open>The data that \<open>ListTraverse\<close> passes to \<open>Visit\<close>, in order.\<close>

partial_function (option) traverse_loop_ll :: "heap \<Rightarrow> nat \<Rightarrow> int list option" where
  "traverse_loop_ll h p =
     (if p \<noteq> NULL then do { n \<leftarrow> load h p; xs \<leftarrow> traverse_loop_ll h (nd_next n); Some (nd_data n # xs) } else Some [])"

definition ListTraverse_ll :: "heap \<Rightarrow> nat \<Rightarrow> int list option" where
  "ListTraverse_ll h L = do {
     none \<leftarrow> no_elems_ll h L;
     if none then Some [] else do { n \<leftarrow> load h L; traverse_loop_ll h (nd_next n) } }"

text \<open>
  Creation from input: the console, or a file that can be opened (\<open>Some\<close> of its numbers) or not. When
  the input has ended, a datum keeps the arbitrary value of the new node. These functions do not test
  whether \<open>malloc\<close> succeeds.
\<close>

datatype list_input = Console "int list" | File "int list option"

fun read_datum :: "int list \<Rightarrow> LNode \<Rightarrow> int list \<times> LNode" where
  "read_datum [] n = ([], n)"
| "read_datum (x # xs) n = (xs, n\<lparr>nd_data := x\<rparr>)"

primrec head_loop_ll :: "nat \<Rightarrow> node_alloc \<Rightarrow> heap \<Rightarrow> nat \<Rightarrow> int list \<Rightarrow> heap option" where
  "head_loop_ll 0 A h L xs = Some h"
| "head_loop_ll (Suc k) A h L xs = do {
     (p, n) \<leftarrow> A h;
     let (xs, n) = read_datum xs n;
     let h = h(p \<mapsto> n);
     m \<leftarrow> load h L;
     h \<leftarrow> store h p (nd_next_update (\<lambda>_. nd_next m));
     h \<leftarrow> store h L (nd_next_update (\<lambda>_. p));
     head_loop_ll k A h L xs }"

primrec tail_loop_ll :: "nat \<Rightarrow> node_alloc \<Rightarrow> heap \<Rightarrow> nat \<Rightarrow> int list \<Rightarrow> (heap \<times> nat) option" where
  "tail_loop_ll 0 A h q xs = Some (h, q)"
| "tail_loop_ll (Suc k) A h q xs = do {
     (p, n) \<leftarrow> A h;
     let (xs, n) = read_datum xs n;
     let h = h(p \<mapsto> n);
     h \<leftarrow> store h q (nd_next_update (\<lambda>_. p));
     m \<leftarrow> load h q;
     tail_loop_ll k A h (nd_next m) xs }"

definition new_head :: "node_alloc \<Rightarrow> heap \<Rightarrow> (heap \<times> nat) option" where
  "new_head A h = do { (L, n) \<leftarrow> A h; Some (h(L \<mapsto> n\<lparr>nd_next := NULL\<rparr>), L) }"

definition CreateList_Head_ll :: "node_alloc \<Rightarrow> heap \<Rightarrow> int \<Rightarrow> list_input \<Rightarrow> (int \<times> heap \<times> nat option) option" where
  "CreateList_Head_ll A h n src =
     (case (case src of Console xs \<Rightarrow> Some xs | File f \<Rightarrow> f) of
        None \<Rightarrow> Some (ERROR, h, None)
      | Some xs \<Rightarrow> do {
          (h, L) \<leftarrow> new_head A h;
          h \<leftarrow> head_loop_ll (nat n) A h L xs;
          Some (OK, h, Some L) })"

definition CreateList_Tail_ll :: "node_alloc \<Rightarrow> heap \<Rightarrow> int \<Rightarrow> list_input \<Rightarrow> (int \<times> heap \<times> nat option) option" where
  "CreateList_Tail_ll A h n src =
     (case (case src of Console xs \<Rightarrow> Some xs | File f \<Rightarrow> f) of
        None \<Rightarrow> Some (ERROR, h, None)
      | Some xs \<Rightarrow> do {
          (h, L) \<leftarrow> new_head A h;
          (h, q) \<leftarrow> tail_loop_ll (nat n) A h L xs;
          h \<leftarrow> store h q (nd_next_update (\<lambda>_. NULL));
          Some (OK, h, Some L) })"

declare destroy_loop_ll.simps [code] clear_loop_ll.simps [code] length_loop_ll.simps [code] seek_next.simps [code]
  locate_loop_ll.simps [code] prior_loop_ll.simps [code] next_loop_ll.simps [code] seek_node.simps [code]
  traverse_loop_ll.simps [code]

section \<open>The nodes of a list\<close>

definition ll_rep :: "heap \<Rightarrow> nat \<Rightarrow> nat list \<Rightarrow> bool" where
  "ll_rep h L as \<longleftrightarrow> chain h L (L # as) NULL \<and> distinct (L # as)"

lemma ll_repE:
  assumes "ll_rep h L as"
  obtains n where "L \<noteq> NULL" "h L = Some n" "load h L = Some n" "chain h (nd_next n) as NULL" "distinct (L # as)"
  using assms by (auto simp: ll_rep_def load_def split: option.splits)

lemma no_elems_ll_eq: "ll_rep h L as \<Longrightarrow> no_elems_ll h L = Some (as = [])"
  by (erule ll_repE) (simp add: no_elems_ll_def chain_NULL)

lemma length_loop_ll_eq:
  "chain h p as NULL \<Longrightarrow> 0 \<le> i \<Longrightarrow> i + int (length as) \<le> INT_MAX \<Longrightarrow> length_loop_ll h p i = Some (i + int (length as))"
proof (induction as arbitrary: p i)
  case Nil
  then show ?case by (subst length_loop_ll.simps) simp
next
  case (Cons a as)
  have "c_int (i + 1) = i + 1" by (rule c_int_id) (use Cons.prems in \<open>simp_all add: INT_MAX_def\<close>)
  then show ?case using Cons by (elim chain_load) (subst length_loop_ll.simps, simp)
qed

lemma traverse_loop_ll_eq: "chain h p as NULL \<Longrightarrow> traverse_loop_ll h p = Some (elems h as)"
proof (induction as arbitrary: p)
  case Nil
  then show ?case by (subst traverse_loop_ll.simps) simp
next
  case (Cons a as)
  then show ?case by (elim chain_load) (subst traverse_loop_ll.simps, simp)
qed

lemma seek_next_eq:
  "chain h p (p # as) NULL \<Longrightarrow> k = min (nat (i - 1 - j)) (length as) \<Longrightarrow>
    seek_next h p j i = Some ((p # as) ! k, j + int k)"
proof (induction as arbitrary: p j k)
  case Nil
  then show ?case by (elim chain_load) (subst seek_next.simps, simp)
next
  case (Cons a as)
  show ?case
  proof (rule chain_load [OF Cons.prems(1)])
    fix n
    assume n: "load h p = Some n" "chain h (nd_next n) (a # as) NULL"
    then have a: "nd_next n = a" "a \<noteq> NULL" by simp_all
    show ?thesis
    proof (cases "j < i - 1")
      case True
      then have "k = Suc (min (nat (i - 1 - (j + 1))) (length as))" using Cons.prems(2) by auto
      then show ?thesis using True n a Cons.IH [of a _ "j + 1"] by (subst seek_next.simps) simp
    next
      case False
      then show ?thesis using n Cons.prems(2) by (subst seek_next.simps) simp
    qed
  qed
qed

lemma seek_node_eq:
  "chain h p as NULL \<Longrightarrow> k = min (nat (i - 1 - j)) (length as) \<Longrightarrow>
    seek_node h p j i = Some (if k < length as then as ! k else NULL, j + int k)"
proof (induction as arbitrary: p j k)
  case Nil
  then show ?case by (subst seek_node.simps) simp
next
  case (Cons a as)
  show ?case
  proof (rule chain_load [OF Cons.prems(1)])
    fix n
    assume n: "load h a = Some n" "p = a" "a \<noteq> NULL" "chain h (nd_next n) as NULL"
    show ?thesis
    proof (cases "j < i - 1")
      case True
      then have "k = Suc (min (nat (i - 1 - (j + 1))) (length as))" using Cons.prems(2) by auto
      then show ?thesis using True n Cons.IH [OF n(4), of _ "j + 1"] by (subst seek_node.simps) simp
    next
      case False
      then show ?thesis using n Cons.prems(2) by (subst seek_node.simps) simp
    qed
  qed
qed

text \<open>The node at index \<open>k\<close> of the list with its head node, with what is before and behind it.\<close>

lemma ll_split:
  assumes "ll_rep h L as" "k \<le> length as"
  obtains xs us p ys n where "(L # as) ! k = p" "L # us = xs @ [p]" "length us = k" "as = us @ ys" "chain h L xs p"
    "p \<noteq> NULL" "h p = Some n" "load h p = Some n" "chain h (nd_next n) ys NULL" "distinct (xs @ p # ys)"
proof -
  define p xs us ys where "p = (L # as) ! k" and "xs = take k (L # as)" and "us = take k as" and "ys = drop k as"
  have c: "L # as = xs @ p # ys"
    using id_take_nth_drop [of k "L # as"] assms(2) by (simp add: p_def xs_def ys_def)
  have "chain h L (xs @ p # ys) NULL" "distinct (xs @ p # ys)"
    using assms(1) unfolding ll_rep_def c [symmetric] by simp_all
  moreover from this obtain r where "chain h L xs r" "chain h r (p # ys) NULL" by (auto simp: chain_append)
  moreover have "L # us = xs @ [p]"
    using take_Suc_conv_app_nth [of k "L # as"] assms(2) by (simp add: us_def xs_def p_def)
  moreover have "length us = k" "as = us @ ys" using assms(2) by (simp_all add: us_def ys_def)
  ultimately show thesis using that [of p us xs ys] by (auto simp: p_def load_def split: option.splits)
qed

section \<open>Insertion and deletion\<close>

text \<open>Linking a new node behind the node at index \<open>k\<close> of the list with its head node.\<close>

lemma link_behind_eq:
  assumes "ll_rep h L as" "k \<le> length as" "s \<noteq> NULL" "h s = None"
  shows "\<exists>h'. link_behind h ((L # as) ! k) s n e = Some h' \<and> ll_rep h' L (ins_nth k s as) \<and>
    elems h' (ins_nth k s as) = ins_nth k e (elems h as) \<and> (\<forall>a. a \<notin> set (L # s # as) \<longrightarrow> h' a = h a)"
proof (rule ll_split [OF assms(1,2)])
  fix xs us p ys m
  assume x: "(L # as) ! k = p" "L # us = xs @ [p]" "length us = k" "as = us @ ys" "chain h L xs p"
    "p \<noteq> NULL" "h p = Some m" "load h p = Some m" "chain h (nd_next m) ys NULL" "distinct (xs @ p # ys)"
  have sp: "s \<noteq> p" using x(7) assms(4) by auto
  have sx: "s \<notin> set xs" "s \<notin> set ys"
    using chain_in_heap [OF x(5), of s] chain_in_heap [OF x(9), of s] assms(4) by auto
  define h' where "h' = h(s \<mapsto> n\<lparr>nd_data := e, nd_next := nd_next m\<rparr>, p \<mapsto> m\<lparr>nd_next := s\<rparr>)"
  have l: "link_behind h p s n e = Some h'"
    using sp x(6,7) assms(3) by (simp add: link_behind_def load_def store_def h'_def fun_upd_twist)
  have i: "ins_nth k s as = us @ s # ys" unfolding x(4) by (rule ins_nth_append [OF x(3)])
  have c: "L # us @ zs = xs @ p # zs" for zs using arg_cong [OF x(2), of "\<lambda>us. us @ zs"] by simp
  have v: "h' p = Some (m\<lparr>nd_next := s\<rparr>)" "h' s = Some (n\<lparr>nd_data := e, nd_next := nd_next m\<rparr>)"
    using sp by (simp_all add: h'_def)
  have "chain h' L xs p" "chain h' (nd_next m) ys NULL" using x(5,9,10) sx by (simp_all add: h'_def)
  then have "chain h' L (xs @ p # s # ys) NULL"
    using v x(6) assms(3) by (intro chain_append [THEN iffD2] exI [of _ p]) simp
  moreover have "distinct (xs @ p # s # ys)" using x(10) sx sp by auto
  ultimately have rep: "ll_rep h' L (ins_nth k s as)" unfolding ll_rep_def i c by simp
  have "elems h' xs = elems h xs" "elems h' ys = elems h ys" using x(10) sx by (simp_all add: h'_def)
  moreover from this have "elems h' (L # us) = elems h (L # us)" unfolding x(2) using v(1) x(7) by simp
  then have "elems h' us = elems h us" by simp
  moreover have "nd_data (the (h' s)) = e" by (simp add: v(2))
  ultimately have "elems h' (ins_nth k s as) = ins_nth k e (elems h as)"
    unfolding i x(4) using x(3) by (simp add: ins_nth_append)
  moreover have "p \<in> set (L # as)" unfolding x(1) [symmetric] by (rule nth_mem) (use assms(2) in simp)
  ultimately show ?thesis using l rep x(1) by (auto simp: h'_def)
qed

lemma seek_node_at:
  assumes "ll_rep h L as" "1 \<le> i" "i \<le> int (length as) + 1"
  shows "seek_node h L 0 i = Some ((L # as) ! nat (i - 1), i - 1)" "(L # as) ! nat (i - 1) \<noteq> NULL"
proof -
  define k where "k = nat (i - 1)"
  have k: "k < length (L # as)" "int k = i - 1" using assms(2,3) by (auto simp: k_def)
  have c: "chain h L (L # as) NULL" using assms(1) by (auto simp: ll_rep_def)
  have "seek_node h L 0 i = Some (if k < length (L # as) then (L # as) ! k else NULL, 0 + int k)"
    by (rule seek_node_eq [OF c]) (use k in auto)
  then show "seek_node h L 0 i = Some ((L # as) ! nat (i - 1), i - 1)"
    using k unfolding k_def [symmetric] by simp
  show "(L # as) ! nat (i - 1) \<noteq> NULL"
    using chain_in_heap [OF c nth_mem [OF k(1)]] unfolding k_def [symmetric] by blast
qed

lemma ListInsert_ll_ok:
  assumes "ll_rep h L as" "wf_malloc A" "A h = Some (s, n)" "1 \<le> i" "i \<le> int (length as) + 1"
  shows "\<exists>h'. ListInsert_ll A h L i e = Ret (OK, h') \<and> ll_rep h' L (ins_nth (nat (i - 1)) s as) \<and>
    elems h' (ins_nth (nat (i - 1)) s as) = ins_nth (nat (i - 1)) e (elems h as) \<and>
    (\<forall>a. a \<notin> set (L # s # as) \<longrightarrow> h' a = h a)"
proof -
  let ?k = "nat (i - 1)"
  have s: "s \<noteq> NULL" "h s = None" using assms(2,3) by (auto simp: wf_malloc_def)
  have k: "?k \<le> length as" using assms(5) by linarith
  have L: "L \<noteq> NULL" using assms(1) by (auto simp: ll_rep_def)
  obtain h' where "link_behind h ((L # as) ! ?k) s n e = Some h'" "ll_rep h' L (ins_nth ?k s as)"
    "elems h' (ins_nth ?k s as) = ins_nth ?k e (elems h as)" "\<forall>a. a \<notin> set (L # s # as) \<longrightarrow> h' a = h a"
    using link_behind_eq [OF assms(1) k s] by blast
  then show ?thesis using seek_node_at [OF assms(1,4,5)] assms(3) L by (simp add: ListInsert_ll_def)
qed

lemma ListInsert_ll_bad:
  assumes "ll_rep h L as" "i < 1 \<or> i > int (length as) + 1"
  shows "ListInsert_ll A h L i e = Ret (ERROR, h)"
proof -
  have c: "chain h L (L # as) NULL" and L: "L \<noteq> NULL" using assms(1) by (auto simp: ll_rep_def)
  show ?thesis
  proof (cases "i < 1")
    case True
    then have "seek_node h L 0 i = Some (L, 0)" by (subst seek_node.simps) simp
    then show ?thesis using True L by (simp add: ListInsert_ll_def)
  next
    case False
    have "seek_node h L 0 i = Some (if length (L # as) < length (L # as) then (L # as) ! length (L # as) else NULL,
        0 + int (length (L # as)))"
      by (rule seek_node_eq [OF c]) (use False assms(2) in auto)
    then show ?thesis using L by (simp add: ListInsert_ll_def)
  qed
qed

text \<open>\<open>exit(OVERFLOW)\<close> when the position is valid and there is no memory.\<close>

lemma ListInsert_ll_exit:
  assumes "ll_rep h L as" "A h = None" "1 \<le> i" "i \<le> int (length as) + 1"
  shows "ListInsert_ll A h L i e = Exit OVERFLOW"
  using seek_node_at [OF assms(1,3,4)] assms(1,2) by (auto simp: ListInsert_ll_def ll_rep_def)

lemma seek_next_at:
  assumes "ll_rep h L as" "1 \<le> i" "i \<le> int (length as)"
  shows "seek_next h L 0 i = Some ((L # as) ! nat (i - 1), i - 1)"
proof -
  define k where "k = nat (i - 1)"
  have k: "int k = i - 1" using assms(2) by (auto simp: k_def)
  have c: "chain h L (L # as) NULL" using assms(1) by (auto simp: ll_rep_def)
  have "seek_next h L 0 i = Some ((L # as) ! k, 0 + int k)"
    by (rule seek_next_eq [OF c]) (use k assms(3) in auto)
  then show ?thesis using k unfolding k_def [symmetric] by simp
qed

text \<open>Where the position is not valid, the loop ends at the last node, or does not start.\<close>

lemma seek_next_bad:
  assumes "ll_rep h L as" "i < 1 \<or> i > int (length as)"
  shows "\<exists>p j n. seek_next h L 0 i = Some (p, j) \<and> load h p = Some n \<and> (nd_next n = NULL \<or> j > i - 1)"
proof (cases "i < 1")
  case True
  obtain n where n: "load h L = Some n" using ll_repE [OF assms(1)] by blast
  then have "seek_next h L 0 i = Some (L, 0)" using True by (subst seek_next.simps) simp
  then show ?thesis using n True by auto
next
  case False
  have c: "chain h L (L # as) NULL" using assms(1) by (auto simp: ll_rep_def)
  have "seek_next h L 0 i = Some ((L # as) ! length as, 0 + int (length as))"
    by (rule seek_next_eq [OF c]) (use False assms(2) in auto)
  moreover have "\<exists>n. load h ((L # as) ! length as) = Some n \<and> nd_next n = NULL"
  proof (rule ll_split [OF assms(1) order_refl])
    fix xs us p ys n
    assume x: "(L # as) ! length as = p" "length us = length as" "as = us @ ys" "load h p = Some n" "chain h (nd_next n) ys NULL"
    have "ys = []" using arg_cong [OF x(3), of length] x(2) by simp
    then show ?thesis using x(5) unfolding x(1) x(4) by simp
  qed
  ultimately show ?thesis by auto
qed

lemma ListDelete_ll_bad:
  "ll_rep h L as \<Longrightarrow> i < 1 \<or> i > int (length as) \<Longrightarrow> ListDelete_ll h L i = Some (ERROR, h, None)"
  using seek_next_bad [of h L as i] no_elems_ll_eq [of h L as] by (auto simp: ListDelete_ll_def)

lemma GetElem_ll_bad:
  "ll_rep h L as \<Longrightarrow> i < 1 \<or> i > int (length as) \<Longrightarrow> GetElem_ll h L i = Some (ERROR, None)"
  using seek_next_bad [of h L as i] no_elems_ll_eq [of h L as] by (auto simp: GetElem_ll_def)

text \<open>The node at a valid position, and its predecessor.\<close>

lemma ll_split_pos:
  assumes "ll_rep h L as" "1 \<le> i" "i \<le> int (length as)"
  obtains xs us p q ys n m where "seek_next h L 0 i = Some (p, i - 1)" "L # us = xs @ [p]" "length us = nat (i - 1)"
    "as = us @ q # ys" "chain h L xs p" "p \<noteq> NULL" "h p = Some n" "load h p = Some n" "nd_next n = q" "q \<noteq> NULL"
    "h q = Some m" "load h q = Some m" "chain h (nd_next m) ys NULL" "distinct (xs @ p # q # ys)"
proof -
  have k: "nat (i - 1) \<le> length as" using assms(3) by linarith
  obtain xs us p ys n where x: "(L # as) ! nat (i - 1) = p" "L # us = xs @ [p]" "length us = nat (i - 1)" "as = us @ ys"
    "chain h L xs p" "p \<noteq> NULL" "h p = Some n" "load h p = Some n" "chain h (nd_next n) ys NULL" "distinct (xs @ p # ys)"
    by (rule ll_split [OF assms(1) k])
  have "length ys \<noteq> 0" using x(3,4) assms(2,3) by auto
  then obtain q zs where ys: "ys = q # zs" by (cases ys) auto
  show thesis
  proof (rule chain_load [OF x(9) [unfolded ys]])
    fix m assume "load h q = Some m" "nd_next n = q" "q \<noteq> NULL" "h q = Some m" "chain h (nd_next m) zs NULL"
    then show thesis using that [of p us xs q zs n m] x ys seek_next_at [OF assms] by simp
  qed
qed

lemma GetElem_ll_ok:
  assumes "ll_rep h L as" "1 \<le> i" "i \<le> int (length as)"
  shows "GetElem_ll h L i = Some (OK, Some (elems h as ! nat (i - 1)))"
proof (rule ll_split_pos [OF assms])
  fix xs us p q ys n m
  assume x: "seek_next h L 0 i = Some (p, i - 1)" "length us = nat (i - 1)" "as = us @ q # ys" "load h p = Some n"
    "nd_next n = q" "q \<noteq> NULL" "h q = Some m" "load h q = Some m"
  have "elems h as ! nat (i - 1) = nd_data m" using x(2,3,7) by (simp add: nth_append)
  then show ?thesis using x no_elems_ll_eq [OF assms(1)] by (simp add: GetElem_ll_def)
qed

lemma ListDelete_ll_ok:
  assumes "ll_rep h L as" "1 \<le> i" "i \<le> int (length as)"
  shows "\<exists>h'. ListDelete_ll h L i = Some (OK, h', Some (elems h as ! nat (i - 1))) \<and>
    ll_rep h' L (del_nth (nat (i - 1)) as) \<and> elems h' (del_nth (nat (i - 1)) as) = del_nth (nat (i - 1)) (elems h as) \<and>
    h' (as ! nat (i - 1)) = None \<and> (\<forall>a. a \<notin> set (L # as) \<longrightarrow> h' a = h a)"
proof (rule ll_split_pos [OF assms])
  fix xs us p q ys n m
  assume x: "seek_next h L 0 i = Some (p, i - 1)" "L # us = xs @ [p]" "length us = nat (i - 1)"
    "as = us @ q # ys" "chain h L xs p" "p \<noteq> NULL" "h p = Some n" "load h p = Some n" "nd_next n = q" "q \<noteq> NULL"
    "h q = Some m" "load h q = Some m" "chain h (nd_next m) ys NULL" "distinct (xs @ p # q # ys)"
  define h' where "h' = h(p \<mapsto> n\<lparr>nd_next := nd_next m\<rparr>, q := None)"
  have pq: "p \<noteq> q" using x(14) by auto
  have d: "elems h as ! nat (i - 1) = nd_data m" "as ! nat (i - 1) = q" using x(3,4,11) by (simp_all add: nth_append)
  have r: "ListDelete_ll h L i = Some (OK, h', Some (nd_data m))"
    using x pq no_elems_ll_eq [OF assms(1)] by (simp add: ListDelete_ll_def store_def free_node_def h'_def)
  have c: "L # us @ zs = xs @ p # zs" for zs using arg_cong [OF x(2), of "\<lambda>us. us @ zs"] by simp
  have e: "del_nth (nat (i - 1)) as = us @ ys" unfolding x(4) by (rule del_nth_append [OF x(3)])
  have v: "h' p = Some (n\<lparr>nd_next := nd_next m\<rparr>)" using pq by (simp add: h'_def)
  have "chain h' L xs p" "chain h' (nd_next m) ys NULL" using x(5,13,14) by (simp_all add: h'_def)
  then have "chain h' L (xs @ p # ys) NULL"
    using v x(6) by (intro chain_append [THEN iffD2] exI [of _ p]) simp
  then have rep: "ll_rep h' L (del_nth (nat (i - 1)) as)" unfolding ll_rep_def e c using x(14) by simp
  have "elems h' xs = elems h xs" "elems h' ys = elems h ys" using x(14) by (simp_all add: h'_def)
  moreover from this have "elems h' (L # us) = elems h (L # us)" unfolding x(2) using v(1) x(7) by simp
  ultimately have "elems h' (us @ ys) = elems h (us @ ys)" by simp
  then have "elems h' (del_nth (nat (i - 1)) as) = del_nth (nat (i - 1)) (elems h as)"
    unfolding e unfolding x(4) using x(3) by (simp add: del_nth_append)
  moreover have "p \<in> set (L # as)" unfolding x(4) c [of "q # ys"] by simp
  ultimately show ?thesis using r rep x(4) unfolding d by (auto simp: h'_def)
qed

section \<open>Searching\<close>

lemma locate_loop_ll_eq:
  "chain h p as NULL \<Longrightarrow> 0 \<le> i \<Longrightarrow> i + int (length as) \<le> INT_MAX + 1 \<Longrightarrow>
    \<exists>q j. locate_loop_ll h p i e cmp = Some (q, j) \<and>
      (case List.find (\<lambda>k. cmp (elems h as ! k) e) [0..<length as] of
         None \<Rightarrow> q = NULL | Some k \<Rightarrow> q \<noteq> NULL \<and> j = i + int k)"
proof (induction as arbitrary: p i)
  case Nil
  then show ?case by (subst locate_loop_ll.simps) simp
next
  case (Cons a as)
  show ?case
  proof (rule chain_load [OF Cons.prems(1)])
    fix n assume n: "load h a = Some n" "p = a" "a \<noteq> NULL" "h a = Some n" "chain h (nd_next n) as NULL"
    show ?thesis
    proof (cases "cmp (nd_data n) e")
      case True
      then show ?thesis using n by (subst locate_loop_ll.simps) (simp add: find_upt_Suc del: upt_Suc)
    next
      case False
      have l: "locate_loop_ll h p i e cmp = locate_loop_ll h (nd_next n) (c_int (i + 1)) e cmp"
        using n False by (subst locate_loop_ll.simps) simp
      show ?thesis
      proof (cases as)
        case Nil
        then show ?thesis unfolding l using n False by (subst locate_loop_ll.simps) (simp add: find_upt_Suc del: upt_Suc)
      next
        case (Cons b bs)
        have "c_int (i + 1) = i + 1" by (rule c_int_id) (use Cons.prems Cons in \<open>simp_all add: INT_MAX_def\<close>)
        then show ?thesis
          unfolding l using Cons.IH [OF n(5), of "i + 1"] Cons.prems False n(4)
          by (auto simp: find_upt_Suc comp_def split: option.splits simp del: upt_Suc)
      qed
    qed
  qed
qed

lemma LocateElem_ll_eq:
  assumes "ll_rep h L as" "int (length as) \<le> INT_MAX"
  shows "LocateElem_ll h L e cmp =
    Some (case List.find (\<lambda>k. cmp (elems h as ! k) e) [0..<length as] of None \<Rightarrow> 0 | Some k \<Rightarrow> int k + 1)"
proof (rule ll_repE [OF assms(1)])
  fix n assume n: "load h L = Some n" "chain h (nd_next n) as NULL"
  obtain q j where "locate_loop_ll h (nd_next n) 1 e cmp = Some (q, j)"
    "case List.find (\<lambda>k. cmp (elems h as ! k) e) [0..<length as] of None \<Rightarrow> q = NULL | Some k \<Rightarrow> q \<noteq> NULL \<and> j = 1 + int k"
    using locate_loop_ll_eq [OF n(2), of 1 e cmp] assms(2) by auto
  then show ?thesis using n no_elems_ll_eq [OF assms(1)]
    by (auto simp: LocateElem_ll_def split: option.splits)
qed

lemma ListLength_ll_eq: "ll_rep h L as \<Longrightarrow> int (length as) \<le> INT_MAX \<Longrightarrow> ListLength_ll h L = Some (int (length as))"
  using no_elems_ll_eq [of h L as] length_loop_ll_eq [of h _ as 0] by (auto simp: ListLength_ll_def elim!: ll_repE)

lemma ListTraverse_ll_eq: "ll_rep h L as \<Longrightarrow> ListTraverse_ll h L = Some (elems h as)"
  using no_elems_ll_eq [of h L as] traverse_loop_ll_eq [of h _ as] by (auto simp: ListTraverse_ll_def elim!: ll_repE)

section \<open>Release\<close>

lemma free_chain:
  assumes "chain h p (a # as) NULL" "distinct (a # as)"
  obtains n where "p = a" "a \<noteq> NULL" "load h a = Some n" "free_node h a = Some (h(a := None))"
    "chain (h(a := None)) (nd_next n) as NULL"
proof (rule chain_load [OF assms(1)])
  fix n assume "load h a = Some n" "p = a" "a \<noteq> NULL" "h a = Some n" "chain h (nd_next n) as NULL"
  then show thesis using that [of n] assms(2) by (simp add: free_in)
qed

lemma destroy_loop_ll_eq: "chain h p as NULL \<Longrightarrow> distinct as \<Longrightarrow> destroy_loop_ll h p p = Some (h |` (- set as))"
proof (induction as arbitrary: h p)
  case Nil
  then show ?case by (subst destroy_loop_ll.simps) (simp add: restrict_map_def)
next
  case (Cons a as)
  show ?case
  proof (rule free_chain [OF Cons.prems])
    fix n assume n: "p = a" "a \<noteq> NULL" "load h a = Some n" "free_node h a = Some (h(a := None))"
      "chain (h(a := None)) (nd_next n) as NULL"
    have "destroy_loop_ll h p p = destroy_loop_ll (h(a := None)) (nd_next n) (nd_next n)" using n(1-4) by (subst destroy_loop_ll.simps) simp
    also have "\<dots> = Some ((h(a := None)) |` (- set as))"
      by (rule Cons.IH [OF n(5)]) (use Cons.prems(2) in simp)
    also have "(h(a := None)) |` (- set as) = h |` (- set (a # as))" by (auto simp: restrict_map_def)
    finally show ?thesis .
  qed
qed

lemma clear_loop_ll_eq: "chain h p as NULL \<Longrightarrow> distinct as \<Longrightarrow> clear_loop_ll h p = Some (h |` (- set as))"
proof (induction as arbitrary: h p)
  case Nil
  then show ?case by (subst clear_loop_ll.simps) (simp add: restrict_map_def)
next
  case (Cons a as)
  show ?case
  proof (rule free_chain [OF Cons.prems])
    fix n assume n: "p = a" "a \<noteq> NULL" "load h a = Some n" "free_node h a = Some (h(a := None))"
      "chain (h(a := None)) (nd_next n) as NULL"
    have "clear_loop_ll h p = clear_loop_ll (h(a := None)) (nd_next n)" using n(1-4) by (subst clear_loop_ll.simps) simp
    also have "\<dots> = Some ((h(a := None)) |` (- set as))"
      by (rule Cons.IH [OF n(5)]) (use Cons.prems(2) in simp)
    also have "(h(a := None)) |` (- set as) = h |` (- set (a # as))" by (auto simp: restrict_map_def)
    finally show ?thesis .
  qed
qed

text \<open>\<open>DestroyList\<close> releases the head node and every element, and touches nothing else.\<close>

lemma DestroyList_ll_eq:
  assumes "ll_rep h L as"
  shows "DestroyList_ll h (Some L) = Some (OK, h |` (- set (L # as)), Some NULL)"
  using assms destroy_loop_ll_eq [of h L "L # as"] by (auto simp: DestroyList_ll_def ll_rep_def)

text \<open>\<open>ClearList\<close> releases the elements and keeps an empty list.\<close>

lemma ClearList_ll_eq:
  assumes "ll_rep h L as"
  shows "\<exists>h'. ClearList_ll h L = Some (OK, h') \<and> ll_rep h' L [] \<and> dom h' = dom h - set as \<and>
    (\<forall>a. a \<notin> set (L # as) \<longrightarrow> h' a = h a)"
proof (rule ll_repE [OF assms])
  fix n assume n: "L \<noteq> NULL" "h L = Some n" "load h L = Some n" "chain h (nd_next n) as NULL" "distinct (L # as)"
  have "clear_loop_ll h (nd_next n) = Some (h |` (- set as))" using clear_loop_ll_eq [OF n(4)] n(5) by simp
  moreover have "(h |` (- set as)) L = Some n" using n(2,5) by (simp add: restrict_map_def)
  ultimately have "ClearList_ll h L = Some (OK, (h |` (- set as))(L \<mapsto> n\<lparr>nd_next := NULL\<rparr>))"
    using n(1,3) by (simp add: ClearList_ll_def store_upd)
  then show ?thesis using n by (auto simp: ll_rep_def restrict_map_def dom_def)
qed

section \<open>Neighbours\<close>

text \<open>The predecessor of the first \<open>cur_e\<close> behind the node \<open>b\<close>.\<close>

lemma prior_loop_ll_eq:
  "chain h p as NULL \<Longrightarrow> cur \<in> set (elems h as) \<Longrightarrow> load h b \<noteq> None \<Longrightarrow>
    \<exists>q. prior_loop_ll h b p cur = Some (q, as ! k) \<and> as ! k \<noteq> NULL \<and> q = (b # as) ! k"
  if "k = length (takeWhile (\<lambda>x. x \<noteq> cur) (elems h as))" for k
  using that
proof (induction as arbitrary: p b k)
  case (Cons a as)
  show ?case
  proof (rule chain_load [OF Cons.prems(1)])
    fix n assume n: "load h a = Some n" "p = a" "a \<noteq> NULL" "h a = Some n" "chain h (nd_next n) as NULL"
    show ?thesis
    proof (cases "nd_data n = cur")
      case True
      then show ?thesis using n Cons.prems(4) by (subst prior_loop_ll.simps) simp
    next
      case False
      have "prior_loop_ll h b p cur = prior_loop_ll h a (nd_next n) cur"
        using n False by (subst prior_loop_ll.simps) simp
      then show ?thesis using Cons.IH [OF n(5), of a] Cons.prems False n(1,4) by auto
    qed
  qed
qed simp

lemma prior_loop_ll_none:
  "chain h p as NULL \<Longrightarrow> cur \<notin> set (elems h as) \<Longrightarrow> \<exists>q. prior_loop_ll h b p cur = Some (q, NULL)"
proof (induction as arbitrary: p b)
  case Nil
  then show ?case by (subst prior_loop_ll.simps) simp
next
  case (Cons a as)
  show ?case
  proof (rule chain_load [OF Cons.prems(1)])
    fix n assume n: "load h a = Some n" "p = a" "a \<noteq> NULL" "h a = Some n" "chain h (nd_next n) as NULL"
    then show ?thesis using Cons.IH [OF n(5), of a] Cons.prems(2) by (subst prior_loop_ll.simps) simp
  qed
qed

text \<open>The position of the first \<open>cur_e\<close>, or of the last node when there is none.\<close>

lemma next_loop_ll_eq:
  "chain h p (a # as) NULL \<Longrightarrow> k = min (length (takeWhile (\<lambda>x. x \<noteq> cur) (elems h (a # as)))) (length as) \<Longrightarrow>
    next_loop_ll h p cur = Some ((a # as) ! k)"
proof (induction as arbitrary: p a k)
  case Nil
  then show ?case by (elim chain_load) (subst next_loop_ll.simps, simp)
next
  case (Cons b as)
  show ?case
  proof (rule chain_load [OF Cons.prems(1)])
    fix n assume n: "load h a = Some n" "p = a" "h a = Some n" "chain h (nd_next n) (b # as) NULL"
    then have b: "nd_next n = b" "b \<noteq> NULL" by simp_all
    show ?thesis
    proof (cases "nd_data n = cur")
      case True
      then show ?thesis using n Cons.prems(2) by (subst next_loop_ll.simps) simp
    next
      case False
      then have k: "k = Suc (min (length (takeWhile (\<lambda>x. x \<noteq> cur) (elems h (b # as)))) (length as))"
        using Cons.prems(2) n(3) by simp
      have "next_loop_ll h p cur = next_loop_ll h b cur" using n b False by (subst next_loop_ll.simps) simp
      then show ?thesis using Cons.IH [OF n(4) refl] b k by simp
    qed
  qed
qed

lemma find_upt_takeWhile:
  assumes "n \<le> length xs" "w = length (takeWhile (\<lambda>x. x \<noteq> e) xs)"
  shows "List.find (\<lambda>k. xs ! k = e) [0..<n] = (if w < n then Some w else None)"
proof -
  have *: "xs ! j \<noteq> e" if "j < w" for j
    using that takeWhile_nth [of j "\<lambda>x. x \<noteq> e" xs] set_takeWhileD [OF nth_mem, of j "\<lambda>x. x \<noteq> e" xs] assms(2) by simp
  have "xs ! w = e" if "w < n" using that assms nth_length_takeWhile [of "\<lambda>x. x \<noteq> e" xs] by simp
  then show ?thesis using * by (auto simp: find_upt_Some find_upt_None)
qed

lemma takeWhile_mem: "length (takeWhile (\<lambda>x. x \<noteq> e) xs) < length xs \<longleftrightarrow> e \<in> set xs"
  by (induction xs) auto

lemma PriorElem_ll_eq:
  assumes "ll_rep h L as"
  shows "PriorElem_ll h L e =
    Some (case List.find (\<lambda>k. elems h as ! k = e) [0..<length as] of
            Some (Suc k) \<Rightarrow> (OK, Some (elems h as ! k)) | _ \<Rightarrow> (ERROR, None))"
proof (rule ll_repE [OF assms])
  fix n assume n: "load h L = Some n" "chain h (nd_next n) as NULL"
  note f = find_upt_takeWhile [of "length as" "elems h as", OF _ refl, simplified]
  show ?thesis
  proof (cases as)
    case Nil
    then show ?thesis using no_elems_ll_eq [OF assms] by (simp add: PriorElem_ll_def)
  next
    case (Cons a bs)
    show ?thesis
    proof (rule chain_load [OF n(2) [unfolded Cons]])
      fix m assume m: "load h a = Some m" "nd_next n = a" "a \<noteq> NULL" "h a = Some m" "chain h (nd_next m) bs NULL"
      consider "nd_data m = e" | "nd_data m \<noteq> e" "e \<in> set (elems h bs)" | "nd_data m \<noteq> e" "e \<notin> set (elems h bs)"
        by blast
      then show ?thesis
      proof cases
        case 1
        then show ?thesis using n m Cons no_elems_ll_eq [OF assms] unfolding f by (simp add: PriorElem_ll_def)
      next
        case 2
        define k where "k = length (takeWhile (\<lambda>x. x \<noteq> e) (elems h bs))"
        have kb: "k < length bs" using takeWhile_mem [of e "elems h bs"] 2(2) by (simp add: k_def)
        have k: "k < length (a # bs)" using length_takeWhile_le [of "\<lambda>x. x \<noteq> e" "elems h bs"] by (simp add: k_def)
        have p: "prior_loop_ll h a (nd_next m) e = Some ((a # bs) ! k, bs ! k)" "bs ! k \<noteq> NULL"
          using prior_loop_ll_eq [OF k_def m(5) 2(2), of a] m(1) by auto
        obtain q where "load h ((a # bs) ! k) = Some q" "h ((a # bs) ! k) = Some q"
          using chain_in_heap [OF n(2), of "(a # bs) ! k"] nth_mem [OF k] Cons by (auto simp: load_def)
        moreover from this have "elems h as ! k = nd_data q" using elems_nth [of k "a # bs" h] k Cons by simp
        ultimately show ?thesis
          using n m Cons p 2 kb no_elems_ll_eq [OF assms] unfolding f by (simp add: PriorElem_ll_def k_def [symmetric])
      next
        case 3
        then show ?thesis using n m Cons no_elems_ll_eq [OF assms] prior_loop_ll_none [OF m(5) 3(2), of a]
            takeWhile_mem [of e "elems h bs"] unfolding f by (auto simp: PriorElem_ll_def)
      qed
    qed
  qed
qed

lemma NextElem_ll_eq:
  assumes "ll_rep h L as"
  shows "NextElem_ll h L e =
    Some (case List.find (\<lambda>k. elems h as ! k = e) [0..<length as - 1] of
            Some k \<Rightarrow> (OK, Some (elems h as ! Suc k)) | None \<Rightarrow> (ERROR, None))"
proof (rule ll_repE [OF assms])
  fix n assume n: "load h L = Some n" "chain h (nd_next n) as NULL"
  show ?thesis
  proof (cases as)
    case Nil
    then show ?thesis using no_elems_ll_eq [OF assms] by (simp add: NextElem_ll_def)
  next
    case (Cons a bs)
    define w where "w = length (takeWhile (\<lambda>x. x \<noteq> e) (elems h (a # bs)))"
    define k where "k = min w (length bs)"
    have k: "k < length (a # bs)" by (simp add: k_def)
    have l: "next_loop_ll h (nd_next n) e = Some ((a # bs) ! k)"
      by (rule next_loop_ll_eq) (use n(2) Cons in \<open>simp_all add: k_def w_def\<close>)
    have f: "List.find (\<lambda>k. elems h (a # bs) ! k = e) [0..<length bs] = (if w < length bs then Some w else None)"
      by (rule find_upt_takeWhile) (simp_all add: w_def)
    have "chain h (nd_next n) (take k (a # bs) @ (a # bs) ! k # drop (Suc k) (a # bs)) NULL"
      using n(2) Cons id_take_nth_drop [OF k] by simp
    then obtain m where m: "load h ((a # bs) ! k) = Some m" "chain h (nd_next m) (drop (Suc k) (a # bs)) NULL"
      by (auto simp: chain_append load_def split: option.splits)
    show ?thesis
    proof (cases "w < length bs")
      case True
      then have kw: "k = w" and d: "drop (Suc k) (a # bs) = bs ! w # drop (Suc w) bs"
        by (simp_all add: k_def Cons_nth_drop_Suc)
      obtain m' where "load h (bs ! w) = Some m'" "nd_next m = bs ! w" "bs ! w \<noteq> NULL" "h (bs ! w) = Some m'"
        using m(2) unfolding d by (auto simp: load_def split: option.splits)
      then show ?thesis using n m Cons l f True kw no_elems_ll_eq [OF assms]
        by (simp add: NextElem_ll_def elems_nth)
    next
      case False
      then have "k = length bs" by (simp add: k_def)
      then have "nd_next m = NULL" using m(2) by simp
      then show ?thesis using n m Cons l f False no_elems_ll_eq [OF assms] by (simp add: NextElem_ll_def)
    qed
  qed
qed

section \<open>Creation\<close>

lemma finite_dom_frame: "\<forall>a. a \<notin> set as \<longrightarrow> h' a = h a \<Longrightarrow> finite (dom h) \<Longrightarrow> finite (dom h')"
  by (rule finite_subset [of _ "dom h \<union> set as"]) (auto simp: dom_def)

text \<open>With enough memory and input, inserting at the head reverses the numbers read.\<close>

lemma head_loop_ll_eq:
  assumes "wf_malloc A" "enough_memory A"
  shows "ll_rep h L as \<Longrightarrow> k \<le> length xs \<Longrightarrow> finite (dom h) \<Longrightarrow> \<exists>h' bs. head_loop_ll k A h L xs = Some h' \<and> ll_rep h' L bs \<and>
    elems h' bs = rev (take k xs) @ elems h as"
proof (induction k arbitrary: h as xs)
  case (Suc k)
  obtain x ys where xs: "xs = x # ys" using Suc.prems(2) by (cases xs) auto
  obtain s n where s: "A h = Some (s, n)" using assms(2) Suc.prems(3) by (auto simp: enough_memory_def)
  then have "s \<noteq> NULL" "h s = None" using assms(1) by (auto simp: wf_malloc_def)
  then obtain h1 where h1: "link_behind h L s n x = Some h1" "ll_rep h1 L (s # as)" "elems h1 (s # as) = x # elems h as"
    "\<forall>a. a \<notin> set (L # s # as) \<longrightarrow> h1 a = h a"
    using link_behind_eq [OF Suc.prems(1), of 0 s n x] by (auto simp: ins_nth_def)
  have f: "finite (dom h1)" by (rule finite_dom_frame [OF h1(4) Suc.prems(3)])
  have "head_loop_ll (Suc k) A h L xs = head_loop_ll k A h1 L ys"
    using h1(1) s xs by (auto simp: link_behind_def bind_eq_Some_conv Let_def)
  then show ?case using Suc.IH [OF h1(2) _ f, of ys] Suc.prems(2) xs h1(3) by auto
qed auto

text \<open>Inserting at the tail keeps their order; the last node has no successor until the end.\<close>

lemma tail_loop_ll_eq:
  assumes "wf_malloc A" "enough_memory A"
  shows "chain h L us q \<Longrightarrow> distinct (us @ [q]) \<Longrightarrow> q \<noteq> NULL \<Longrightarrow> h q \<noteq> None \<Longrightarrow> k \<le> length xs \<Longrightarrow> finite (dom h) \<Longrightarrow>
    \<exists>h' us' q'. tail_loop_ll k A h q xs = Some (h', q') \<and> chain h' L us' q' \<and> distinct (us' @ [q']) \<and> q' \<noteq> NULL \<and>
      h' q' \<noteq> None \<and> (\<exists>bs. us' @ [q'] = us @ q # bs) \<and> elems h' (us' @ [q']) = elems h (us @ [q]) @ take k xs"
proof (induction k arbitrary: h us q xs)
  case 0
  then show ?case by auto
next
  case (Suc k)
  obtain x ys where xs: "xs = x # ys" using Suc.prems(5) by (cases xs) auto
  obtain m where m: "h q = Some m" using Suc.prems(4) by auto
  obtain s n where s: "A h = Some (s, n)" using assms(2) Suc.prems(6) by (auto simp: enough_memory_def)
  then have sf: "s \<noteq> NULL" "h s = None" using assms(1) by (auto simp: wf_malloc_def)
  then have sq: "s \<noteq> q" "s \<notin> set us" using m chain_in_heap [OF Suc.prems(1), of s] by auto
  define h1 where "h1 = h(s \<mapsto> n\<lparr>nd_data := x\<rparr>, q \<mapsto> m\<lparr>nd_next := s\<rparr>)"
  have t: "tail_loop_ll (Suc k) A h q xs = tail_loop_ll k A h1 s ys"
    using s xs m sq Suc.prems(3) by (simp add: store_def load_def h1_def)
  have c: "chain h1 L (us @ [q]) s"
    using Suc.prems(1,2,3) sq by (auto simp: chain_append h1_def)
  have d: "distinct ((us @ [q]) @ [s])" using Suc.prems(2) sq by auto
  have "h1 s \<noteq> None" using sq by (simp add: h1_def)
  moreover have "elems h1 ((us @ [q]) @ [s]) = elems h (us @ [q]) @ [x]"
    using Suc.prems(2) sq m by (simp add: h1_def)
  moreover have "finite (dom h1)" using Suc.prems(6) by (simp add: h1_def)
  ultimately show ?case
    using Suc.IH [OF c d sf(1), of ys] Suc.prems(5) xs unfolding t by auto
qed

lemma new_head_rep:
  assumes "wf_malloc A" "enough_memory A" "finite (dom h)"
  shows "\<exists>h' L. new_head A h = Some (h', L) \<and> ll_rep h' L [] \<and> finite (dom h')"
proof -
  obtain L n where "A h = Some (L, n)" "L \<noteq> NULL"
    using assms unfolding wf_malloc_def enough_memory_def by fastforce
  then show ?thesis using assms(3) by (simp add: new_head_def ll_rep_def)
qed

lemma CreateList_ll_eq:
  assumes "wf_malloc A" "enough_memory A" "nat n \<le> length xs" "finite (dom h)"
  shows "\<exists>h' L bs. CreateList_Head_ll A h n (Console xs) = Some (OK, h', Some L) \<and> ll_rep h' L bs \<and>
      elems h' bs = rev (take (nat n) xs)"
    and "\<exists>h' L bs. CreateList_Tail_ll A h n (Console xs) = Some (OK, h', Some L) \<and> ll_rep h' L bs \<and>
      elems h' bs = take (nat n) xs"
proof -
  obtain h1 L where h1: "new_head A h = Some (h1, L)" "ll_rep h1 L []" "finite (dom h1)"
    using new_head_rep [OF assms(1,2,4)] by blast
  show "\<exists>h' L bs. CreateList_Head_ll A h n (Console xs) = Some (OK, h', Some L) \<and> ll_rep h' L bs \<and>
      elems h' bs = rev (take (nat n) xs)"
    using head_loop_ll_eq [OF assms(1,2) h1(2) assms(3) h1(3)] h1(1) by (auto simp: CreateList_Head_ll_def)
  have "chain h1 L [] L" "distinct ([] @ [L])" "L \<noteq> NULL" "h1 L \<noteq> None"
    using h1(2) by (auto simp: ll_rep_def split: option.splits)
  from tail_loop_ll_eq [OF assms(1,2) this assms(3) h1(3)] obtain h2 us q bs where
    t: "tail_loop_ll (nat n) A h1 L xs = Some (h2, q)" "chain h2 L us q" "distinct (us @ [q])" "q \<noteq> NULL" "h2 q \<noteq> None"
      "us @ [q] = [] @ L # bs" "elems h2 (us @ [q]) = elems h1 ([] @ [L]) @ take (nat n) xs"
    by blast
  obtain m where m: "h2 q = Some m" using t(5) by auto
  define h3 where "h3 = h2(q \<mapsto> m\<lparr>nd_next := NULL\<rparr>)"
  have "chain h3 L (us @ [q]) NULL" using t(2,3,4) by (auto simp: chain_append h3_def)
  then have r: "ll_rep h3 L bs" using t(3,6) by (simp add: ll_rep_def)
  have "elems h3 (us @ [q]) = elems h2 (us @ [q])" using t(3) m by (simp add: h3_def)
  then have "elems h3 bs = take (nat n) xs" using t(6,7) by simp
  moreover have "CreateList_Tail_ll A h n (Console xs) = Some (OK, h3, Some L)"
    using h1(1) t(1,4) m by (simp add: CreateList_Tail_ll_def store_upd h3_def)
  ultimately show "\<exists>h' L bs. CreateList_Tail_ll A h n (Console xs) = Some (OK, h', Some L) \<and> ll_rep h' L bs \<and>
      elems h' bs = take (nat n) xs" using r by blast
qed

section \<open>The linked list implements the linear-list contract\<close>

text \<open>The contents of a list are what a traversal visits.\<close>

definition ll_abs :: "heap \<times> nat \<Rightarrow> int list" where
  "ll_abs s = (case ListTraverse_ll (fst s) (snd s) of None \<Rightarrow> [] | Some xs \<Rightarrow> xs)"

definition ll_inv :: "heap \<times> nat \<Rightarrow> bool" where
  "ll_inv s \<longleftrightarrow> (\<exists>as. ll_rep (fst s) (snd s) as \<and> int (length as) \<le> INT_MAX)"

definition ll_room :: "node_alloc \<Rightarrow> heap \<times> nat \<Rightarrow> bool" where
  "ll_room A s \<longleftrightarrow> wf_malloc A \<and> A (fst s) \<noteq> None \<and> int (length (ll_abs s)) < INT_MAX"

definition ll_insert :: "node_alloc \<Rightarrow> heap \<times> nat \<Rightarrow> int \<Rightarrow> int \<Rightarrow> (int \<times> heap \<times> nat) option" where
  "ll_insert A s i e = map_option (\<lambda>(r, h). (r, h, snd s)) (returned (ListInsert_ll A (fst s) (snd s) i e))"

definition ll_delete :: "heap \<times> nat \<Rightarrow> int \<Rightarrow> (int \<times> (heap \<times> nat) \<times> int option) option" where
  "ll_delete s i = map_option (\<lambda>(r, h, e). (r, (h, snd s), e)) (ListDelete_ll (fst s) (snd s) i)"

lemma ll_abs_rep: "ll_rep h L as \<Longrightarrow> ll_abs (h, L) = elems h as"
  by (simp add: ll_abs_def ListTraverse_ll_eq)

lemma length_ins_del [simp]:
  "k < length as \<Longrightarrow> length (del_nth k as) \<le> length as"
  by simp

lemma ll_insert_ok:
  assumes "ll_inv s" "ll_room A s" "1 \<le> i" "i \<le> int (length (ll_abs s)) + 1"
  shows "\<exists>s'. ll_insert A s i e = Some (OK, s') \<and> ll_inv s' \<and> ll_abs s' = ins_nth (nat (i - 1)) e (ll_abs s)"
proof -
  obtain h L where s: "s = (h, L)" by fastforce
  obtain as where r: "ll_rep h L as" using assms(1) by (auto simp: ll_inv_def s)
  note a = ll_abs_rep [OF r]
  obtain p n where A: "A h = Some (p, n)" "wf_malloc A" "int (length as) < INT_MAX"
    using assms(2) by (auto simp: ll_room_def s a)
  have i: "i \<le> int (length as) + 1" using assms(4) by (simp add: s a)
  obtain h' where h': "ListInsert_ll A h L i e = Ret (OK, h')" "ll_rep h' L (ins_nth (nat (i - 1)) p as)"
    "elems h' (ins_nth (nat (i - 1)) p as) = ins_nth (nat (i - 1)) e (elems h as)"
    using ListInsert_ll_ok [OF r A(2,1) assms(3) i, of e] by blast
  have "ll_insert A s i e = Some (OK, h', L)" by (simp add: ll_insert_def s h'(1))
  moreover have "ll_inv (h', L)" using h'(2) A(3) by (auto simp: ll_inv_def intro!: exI)
  moreover have "ll_abs (h', L) = ins_nth (nat (i - 1)) e (ll_abs s)" by (simp add: ll_abs_rep [OF h'(2)] h'(3) s a)
  ultimately show ?thesis by blast
qed

lemma ll_delete_ok:
  assumes "ll_inv s" "1 \<le> i" "i \<le> int (length (ll_abs s))"
  shows "\<exists>s'. ll_delete s i = Some (OK, s', Some (ll_abs s ! nat (i - 1))) \<and> ll_inv s' \<and>
    ll_abs s' = del_nth (nat (i - 1)) (ll_abs s)"
proof -
  obtain h L where s: "s = (h, L)" by fastforce
  obtain as where r: "ll_rep h L as" "int (length as) \<le> INT_MAX" using assms(1) by (auto simp: ll_inv_def s)
  note a = ll_abs_rep [OF r(1)]
  have i: "i \<le> int (length as)" using assms(3) by (simp add: s a)
  then have k: "nat (i - 1) < length as" using assms(2) by linarith
  obtain h' where h': "ListDelete_ll h L i = Some (OK, h', Some (elems h as ! nat (i - 1)))"
    "ll_rep h' L (del_nth (nat (i - 1)) as)" "elems h' (del_nth (nat (i - 1)) as) = del_nth (nat (i - 1)) (elems h as)"
    using ListDelete_ll_ok [OF r(1) assms(2) i] by blast
  have "ll_delete s i = Some (OK, (h', L), Some (ll_abs s ! nat (i - 1)))" by (simp add: ll_delete_def s h'(1) a)
  moreover have "ll_inv (h', L)" using h'(2) r(2) k by (auto simp: ll_inv_def intro!: exI)
  moreover have "ll_abs (h', L) = del_nth (nat (i - 1)) (ll_abs s)" by (simp add: ll_abs_rep [OF h'(2)] h'(3) s a)
  ultimately show ?thesis by blast
qed

interpretation ll: linear_list ll_inv "ll_room A" ll_abs "ll_insert A" ll_delete
  "\<lambda>s. GetElem_ll (fst s) (snd s)" "\<lambda>s. LocateElem_ll (fst s) (snd s)" "\<lambda>s. ListLength_ll (fst s) (snd s)" for A
proof (unfold_locales, goal_cases)
  case (1 s i e)
  then show ?case by (rule ll_insert_ok)
next
  case (2 s i e)
  then show ?case by (cases s) (auto simp: ll_inv_def ll_insert_def ll_abs_rep ListInsert_ll_bad)
next
  case (3 s i)
  then show ?case by (rule ll_delete_ok)
next
  case (4 s i)
  then show ?case by (cases s) (auto simp: ll_inv_def ll_delete_def ll_abs_rep ListDelete_ll_bad)
next
  case (5 s i)
  then show ?case by (cases s) (auto simp: ll_inv_def ll_abs_rep GetElem_ll_ok)
next
  case (6 s i)
  then show ?case by (cases s) (auto simp: ll_inv_def ll_abs_rep GetElem_ll_bad)
next
  case (7 s e cmp)
  then show ?case by (cases s) (auto simp: ll_inv_def ll_abs_rep LocateElem_ll_eq)
next
  case (8 s)
  then show ?case by (cases s) (auto simp: ll_inv_def ll_abs_rep ListLength_ll_eq)
qed

section \<open>The life of a list\<close>

datatype ll_op = Insert int int | Delete int | Clear

text \<open>The store after a sequence of calls, whatever status they return.\<close>

primrec run_ll :: "node_alloc \<Rightarrow> nat \<Rightarrow> ll_op list \<Rightarrow> heap \<Rightarrow> heap option" where
  "run_ll A L [] h = Some h"
| "run_ll A L (c # cs) h = do {
     h \<leftarrow> (case c of
          Insert i e \<Rightarrow> map_option snd (returned (ListInsert_ll A h L i e))
        | Delete i \<Rightarrow> map_option (fst \<circ> snd) (ListDelete_ll h L i)
        | Clear \<Rightarrow> map_option snd (ClearList_ll h L));
     run_ll A L cs h }"

text \<open>The nodes of the list are the only ones that have been added to the store \<open>h0\<close>.\<close>

definition owns :: "heap \<Rightarrow> heap \<Rightarrow> nat \<Rightarrow> nat list \<Rightarrow> bool" where
  "owns h0 h L as \<longleftrightarrow> ll_rep h L as \<and> (\<forall>a\<in>set (L # as). h0 a = None) \<and> (\<forall>a. a \<notin> set (L # as) \<longrightarrow> h a = h0 a)"

lemma owns_insert:
  assumes "owns h0 h L as" "wf_malloc A" "A h \<noteq> None"
  shows "\<exists>r h' as'. ListInsert_ll A h L i e = Ret (r, h') \<and> owns h0 h' L as'"
proof (cases "1 \<le> i \<and> i \<le> int (length as) + 1")
  case True
  obtain s n where s: "A h = Some (s, n)" using assms(3) by auto
  have r: "ll_rep h L as" using assms(1) by (simp add: owns_def)
  obtain h' where h': "ListInsert_ll A h L i e = Ret (OK, h')" "ll_rep h' L (ins_nth (nat (i - 1)) s as)"
    "\<forall>a. a \<notin> set (L # s # as) \<longrightarrow> h' a = h a"
    using ListInsert_ll_ok [OF r assms(2) s, of i e] True by blast
  have f: "s \<notin> set (L # as)" using chain_in_heap [of h L "L # as"] r assms(2) s by (fastforce simp: ll_rep_def wf_malloc_def)
  have "set (ins_nth (nat (i - 1)) s as) = insert s (set as)"
    using mset_ins_nth [of "nat (i - 1)" s as] by (metis set_mset_add_mset_insert set_mset_mset)
  moreover have "h s = None" using assms(2) s by (auto simp: wf_malloc_def)
  then have "h0 s = None" using assms(1) f by (simp add: owns_def)
  ultimately have "owns h0 h' L (ins_nth (nat (i - 1)) s as)" using assms(1) h'(2,3) by (auto simp: owns_def)
  then show ?thesis using h'(1) by blast
next
  case False
  then show ?thesis using assms(1) ListInsert_ll_bad [of h L as i A e] by (auto simp: owns_def)
qed

lemma owns_delete:
  assumes "owns h0 h L as"
  shows "\<exists>r h' x as'. ListDelete_ll h L i = Some (r, h', x) \<and> owns h0 h' L as'"
proof (cases "1 \<le> i \<and> i \<le> int (length as)")
  case True
  let ?k = "nat (i - 1)"
  have r: "ll_rep h L as" using assms by (simp add: owns_def)
  obtain h' where h': "ListDelete_ll h L i = Some (OK, h', Some (elems h as ! ?k))" "ll_rep h' L (del_nth ?k as)"
    "h' (as ! ?k) = None" "\<forall>a. a \<notin> set (L # as) \<longrightarrow> h' a = h a"
    using ListDelete_ll_ok [OF r, of i] True by blast
  have "?k < length as" using True by linarith
  then have "set as = insert (as ! ?k) (set (del_nth ?k as))"
    using ins_nth_del_nth [of ?k as] mset_ins_nth [of ?k "as ! ?k" "del_nth ?k as"]
    by (metis set_mset_add_mset_insert set_mset_mset)
  then show ?thesis using assms h' by (auto simp: owns_def) metis
next
  case False
  then show ?thesis using assms ListDelete_ll_bad [of h L as i] by (auto simp: owns_def)
qed

lemma owns_clear:
  assumes "owns h0 h L as"
  shows "\<exists>h'. ClearList_ll h L = Some (OK, h') \<and> owns h0 h' L []"
proof -
  obtain h' where h': "ClearList_ll h L = Some (OK, h')" "ll_rep h' L []" "dom h' = dom h - set as"
    "\<forall>a. a \<notin> set (L # as) \<longrightarrow> h' a = h a"
    using ClearList_ll_eq [of h L as] assms by (auto simp: owns_def)
  have "h' a = h0 a" if "a \<noteq> L" for a
    using that assms h'(3,4) by (cases "a \<in> set as") (auto simp: owns_def dom_def)
  then show ?thesis using assms h'(1,2) by (auto simp: owns_def)
qed

lemma owns_finite: "owns h0 h L as \<Longrightarrow> finite (dom h0) \<Longrightarrow> finite (dom h)"
  by (rule finite_dom_frame [of "L # as" h h0]) (auto simp: owns_def)

lemma run_ll_owns:
  assumes "wf_malloc A" "enough_memory A" "finite (dom h0)"
  shows "owns h0 h L as \<Longrightarrow> \<exists>h' as'. run_ll A L cs h = Some h' \<and> owns h0 h' L as'"
proof (induction cs arbitrary: h as)
  case (Cons c cs)
  obtain h1 as1 where "run_ll A L (c # cs) h = run_ll A L cs h1" "owns h0 h1 L as1"
  proof (cases c)
    case (Insert i e)
    then show thesis
      using that owns_insert [OF Cons.prems assms(1), of i e] assms(2) owns_finite [OF Cons.prems assms(3)]
      by (auto simp: enough_memory_def)
  next
    case (Delete i)
    then show thesis using that owns_delete [OF Cons.prems, of i] by auto
  next
    case Clear
    then show thesis using that owns_clear [OF Cons.prems] by auto
  qed
  then show ?case using Cons.IH by metis
qed auto

section \<open>Properties\<close>



text \<open>
  C19 (the life of a linked list). From any store, \<open>InitList\<close>, any sequence of insertions, deletions and
  clearings, at whatever positions, and \<open>DestroyList\<close> all return without touching an address that
  holds no node, and leave exactly the store there was before: no node is lost.
\<close>
theorem LinkList_no_leak:
  assumes "wf_malloc A" "enough_memory A" "finite (dom h0)"
  shows "\<exists>h1 L h2. InitList_ll A h0 = Ret (OK, h1, L) \<and> run_ll A L cs h1 = Some h2 \<and>
    DestroyList_ll h2 (Some L) = Some (OK, h0, Some NULL)"
proof -
  obtain L n where L: "A h0 = Some (L, n)" "L \<noteq> NULL" "h0 L = None"
    using assms unfolding wf_malloc_def enough_memory_def by (metis not_None_eq surj_pair)
  define h1 where "h1 = h0(L \<mapsto> n\<lparr>nd_next := NULL\<rparr>)"
  have i: "InitList_ll A h0 = Ret (OK, h1, L)" by (simp add: InitList_ll_def L(1) h1_def)
  have "owns h0 h1 L []" using L by (simp add: owns_def ll_rep_def h1_def)
  then obtain h2 as where h2: "run_ll A L cs h1 = Some h2" "owns h0 h2 L as"
    using run_ll_owns [OF assms, of h1 L "[]" cs] by blast
  have "h2 |` (- set (L # as)) = h0" using h2(2) by (auto simp: owns_def restrict_map_def fun_eq_iff)
  then show ?thesis using i h2 DestroyList_ll_eq [of h2 L as] by (simp add: owns_def)
qed

theorem LinkList_no_leak_witness:
  "\<exists>h1 L h2. InitList_ll next_free (Map.empty(1 \<mapsto> \<lparr>nd_data = 5, nd_next = 0\<rparr>)) = Ret (OK, h1, L) \<and>
    run_ll next_free L [Insert 1 7, Insert 9 0, Insert 2 8, Delete 1, Insert 1 3] h1 = Some h2 \<and>
    DestroyList_ll h2 (Some L) = Some (OK, Map.empty(1 \<mapsto> \<lparr>nd_data = 5, nd_next = 0\<rparr>), Some NULL)"
  by (rule LinkList_no_leak) (simp_all add: next_free_ok)

end
