(* ===== verification/AvlTree.thy ===== *)
theory AvlTree
  imports Prelude
begin

text \<open>
  The height-balanced search tree of \<open>DataStruct_learn/Tree/avl_tree/avl_tree.c\<close>. A tree owns its nodes and
  the code never shares them, so a pointer to a node is modelled by the tree below it, with the stored
  height; a call that dereferences NULL is \<open>None\<close>. The argument \<open>m\<close> of an insertion says whether
  \<open>malloc\<close> succeeds.
\<close>

section \<open>Definitions\<close>

datatype avlNode = Null | Node int avlNode avlNode int

text \<open>The accesses \<open>node->key\<close>, \<open>node->left\<close> and \<open>node->right\<close>.\<close>

fun node_key :: "avlNode \<Rightarrow> int option" where
  "node_key Null = None"
| "node_key (Node k l r h) = Some k"

fun node_left :: "avlNode \<Rightarrow> avlNode option" where
  "node_left Null = None"
| "node_left (Node k l r h) = Some l"

fun node_right :: "avlNode \<Rightarrow> avlNode option" where
  "node_right Null = None"
| "node_right (Node k l r h) = Some r"

definition avl_max :: "int \<Rightarrow> int \<Rightarrow> int" where
  "avl_max a b = (if a > b then a else b)"

definition newNode :: "bool \<Rightarrow> int \<Rightarrow> avlNode" where
  "newNode m key = (if m then Node key Null Null 0 else Null)"

fun nodeHeight :: "avlNode \<Rightarrow> int" where
  "nodeHeight Null = - 1"
| "nodeHeight (Node k l r h) = h"

fun heightDiff :: "avlNode \<Rightarrow> int" where
  "heightDiff Null = 0"
| "heightDiff (Node k l r h) = nodeHeight l - nodeHeight r"

fun minNode :: "avlNode \<Rightarrow> avlNode option" where
  "minNode Null = None"
| "minNode (Node k l r h) = (if l \<noteq> Null then minNode l else Some (Node k l r h))"

text \<open>The assignment of the height that \<open>insert\<close>, \<open>delete\<close> and the rotations make.\<close>

fun set_height :: "avlNode \<Rightarrow> avlNode" where
  "set_height Null = Null"
| "set_height (Node k l r h) = Node k l r (avl_max (nodeHeight l) (nodeHeight r) + 1)"

fun rightRotate :: "avlNode \<Rightarrow> avlNode option" where
  "rightRotate Null = None"
| "rightRotate (Node zk zl zr zh) =
     (case zl of
        Null \<Rightarrow> None
      | Node yk yl T3 yh \<Rightarrow>
          let z = set_height (Node zk T3 zr zh) in Some (set_height (Node yk yl z yh)))"

fun leftRotate :: "avlNode \<Rightarrow> avlNode option" where
  "leftRotate Null = None"
| "leftRotate (Node zk zl zr zh) =
     (case zr of
        Null \<Rightarrow> None
      | Node yk T3 yr yh \<Rightarrow>
          let z = set_height (Node zk zl T3 zh) in Some (set_height (Node yk z yr yh)))"

fun LeftRightRotate :: "avlNode \<Rightarrow> avlNode option" where
  "LeftRightRotate Null = None"
| "LeftRightRotate (Node k l r h) = do { l \<leftarrow> leftRotate l; rightRotate (Node k l r h) }"

fun RightLeftRotate :: "avlNode \<Rightarrow> avlNode option" where
  "RightLeftRotate Null = None"
| "RightLeftRotate (Node k l r h) = do { r \<leftarrow> rightRotate r; leftRotate (Node k l r h) }"

text \<open>The condition \<open>c && P(node->left->key)\<close>, which reads the key only if \<open>c\<close> holds.\<close>

definition left_key_test :: "bool \<Rightarrow> (int \<Rightarrow> bool) \<Rightarrow> avlNode \<Rightarrow> bool option" where
  "left_key_test c P node =
     (if c then do { l \<leftarrow> node_left node; k \<leftarrow> node_key l; Some (P k) } else Some False)"

definition right_key_test :: "bool \<Rightarrow> (int \<Rightarrow> bool) \<Rightarrow> avlNode \<Rightarrow> bool option" where
  "right_key_test c P node =
     (if c then do { r \<leftarrow> node_right node; k \<leftarrow> node_key r; Some (P k) } else Some False)"

text \<open>The second half of \<open>insert\<close>: the balance is read once, before the first rotation.\<close>

definition insert_balance :: "avlNode \<Rightarrow> int \<Rightarrow> avlNode option" where
  "insert_balance node key = do {
     let balance = heightDiff node;
     ll \<leftarrow> left_key_test (balance > 1) (\<lambda>k. key < k) node;
     if ll then rightRotate node
     else do {
       rr \<leftarrow> right_key_test (balance < - 1) (\<lambda>k. key > k) node;
       if rr then leftRotate node
       else do {
         lr \<leftarrow> left_key_test (balance > 1) (\<lambda>k. key > k) node;
         node \<leftarrow> (if lr then LeftRightRotate node else Some node);
         rl \<leftarrow> right_key_test (balance < - 1) (\<lambda>k. key < k) node;
         if rl then RightLeftRotate node else Some node } } }"

fun avl_insert :: "bool \<Rightarrow> avlNode \<Rightarrow> int \<Rightarrow> avlNode option" where
  "avl_insert m Null key = Some (newNode m key)"
| "avl_insert m (Node k l r h) key = do {
     node \<leftarrow>
       (if key < k then do { l \<leftarrow> avl_insert m l key; Some (Node k l r h) }
        else if key > k then do { r \<leftarrow> avl_insert m r key; Some (Node k l r h) }
        else Some (Node k l r h));
     insert_balance (set_height node) key }"

text \<open>The second half of \<open>delete\<close>.\<close>

definition left_diff_test :: "bool \<Rightarrow> (int \<Rightarrow> bool) \<Rightarrow> avlNode \<Rightarrow> bool option" where
  "left_diff_test c P node = (if c then do { l \<leftarrow> node_left node; Some (P (heightDiff l)) } else Some False)"

definition right_diff_test :: "bool \<Rightarrow> (int \<Rightarrow> bool) \<Rightarrow> avlNode \<Rightarrow> bool option" where
  "right_diff_test c P node = (if c then do { r \<leftarrow> node_right node; Some (P (heightDiff r)) } else Some False)"

definition delete_balance :: "avlNode \<Rightarrow> avlNode option" where
  "delete_balance node = do {
     let balance = heightDiff node;
     ll \<leftarrow> left_diff_test (balance > 1) (\<lambda>d. d \<ge> 0) node;
     if ll then rightRotate node
     else do {
       lr \<leftarrow> left_diff_test (balance > 1) (\<lambda>d. d < 0) node;
       node \<leftarrow> (if lr then LeftRightRotate node else Some node);
       rr \<leftarrow> right_diff_test (balance < - 1) (\<lambda>d. d \<ge> 0) node;
       if rr then leftRotate node
       else do {
         rl \<leftarrow> right_diff_test (balance < - 1) (\<lambda>d. d < 0) node;
         if rl then RightLeftRotate node else Some node } } }"

text \<open>
  A node with at most one child is replaced by that child, whose structure is copied over it; a node
  with two children takes the smallest key of its right subtree, which is deleted there.
\<close>

fun avl_delete :: "avlNode \<Rightarrow> int \<Rightarrow> avlNode option" where
  "avl_delete Null queryNum = Some Null"
| "avl_delete (Node k l r h) queryNum = do {
     node \<leftarrow>
       (if queryNum < k then do { l \<leftarrow> avl_delete l queryNum; Some (Node k l r h) }
        else if queryNum > k then do { r \<leftarrow> avl_delete r queryNum; Some (Node k l r h) }
        else if l = Null \<or> r = Null then Some (if l \<noteq> Null then l else r)
        else do {
          temp \<leftarrow> minNode r;
          tk \<leftarrow> node_key temp;
          r \<leftarrow> avl_delete r tk;
          Some (Node tk l r h) });
     if node = Null then Some node else delete_balance (set_height node) }"

fun findNode :: "avlNode \<Rightarrow> int \<Rightarrow> avlNode" where
  "findNode Null queryNum = Null"
| "findNode (Node k l r h) queryNum =
     (if queryNum < k then findNode l queryNum
      else if queryNum > k then findNode r queryNum
      else Node k l r h)"

text \<open>The keys in the order the three traversals print them.\<close>

fun printPreOrder :: "avlNode \<Rightarrow> int list" where
  "printPreOrder Null = []"
| "printPreOrder (Node k l r h) = k # printPreOrder l @ printPreOrder r"

fun printInOrder :: "avlNode \<Rightarrow> int list" where
  "printInOrder Null = []"
| "printInOrder (Node k l r h) = printInOrder l @ k # printInOrder r"

fun printPostOrder :: "avlNode \<Rightarrow> int list" where
  "printPostOrder Null = []"
| "printPostOrder (Node k l r h) = printPostOrder l @ printPostOrder r @ [k]"

section \<open>Invariants\<close>

text \<open>A search tree, and a tree whose stored heights are right and which is balanced everywhere.\<close>

definition bst :: "avlNode \<Rightarrow> bool" where
  "bst t \<longleftrightarrow> sorted_wrt (<) (printInOrder t)"

fun avl :: "avlNode \<Rightarrow> bool" where
  "avl Null \<longleftrightarrow> True"
| "avl (Node k l r h) \<longleftrightarrow> avl l \<and> avl r \<and> h = max (nodeHeight l) (nodeHeight r) + 1 \<and>
     \<bar>nodeHeight l - nodeHeight r\<bar> \<le> 1"

abbreviation keys :: "avlNode \<Rightarrow> int set" where
  "keys t \<equiv> set (printInOrder t)"

lemma avl_max_max [simp]: "avl_max a b = max a b"
  by (simp add: avl_max_def)

lemma bst_simps [simp]:
  "bst Null" "bst (Node k l r h) \<longleftrightarrow> bst l \<and> bst r \<and> (\<forall>x\<in>keys l. x < k) \<and> (\<forall>x\<in>keys r. k < x)"
  by (auto simp: bst_def sorted_wrt_append) (meson order_less_trans)

lemma nodeHeight_ge: "avl t \<Longrightarrow> - 1 \<le> nodeHeight t"
  by (induction t) auto

lemma nodeHeight_Null: "avl t \<Longrightarrow> nodeHeight t = - 1 \<longleftrightarrow> t = Null"
  using nodeHeight_ge by (cases t) fastforce+

section \<open>Rotations\<close>

text \<open>No rotation changes the sequence of the keys.\<close>

lemma printInOrder_rotate:
  "rightRotate t = Some t' \<Longrightarrow> printInOrder t' = printInOrder t"
  "leftRotate t = Some t' \<Longrightarrow> printInOrder t' = printInOrder t"
  by (cases t; auto simp: Let_def split: avlNode.splits)+

declare rightRotate.simps [simp del] leftRotate.simps [simp del]

lemma printInOrder_rotate2:
  "LeftRightRotate t = Some t' \<Longrightarrow> printInOrder t' = printInOrder t"
  "RightLeftRotate t = Some t' \<Longrightarrow> printInOrder t' = printInOrder t"
  by (cases t; auto simp: bind_eq_Some_conv dest!: printInOrder_rotate)+

declare LeftRightRotate.simps [simp del] RightLeftRotate.simps [simp del]

lemma printInOrder_set_height [simp]: "printInOrder (set_height t) = printInOrder t"
  by (cases t) simp_all

lemma printInOrder_insert_balance: "insert_balance t key = Some t' \<Longrightarrow> printInOrder t' = printInOrder t"
  by (auto simp: insert_balance_def Let_def bind_eq_Some_conv dest!: printInOrder_rotate printInOrder_rotate2 split: if_splits)

lemma printInOrder_delete_balance: "delete_balance t = Some t' \<Longrightarrow> printInOrder t' = printInOrder t"
  by (auto simp: delete_balance_def Let_def bind_eq_Some_conv dest!: printInOrder_rotate printInOrder_rotate2 split: if_splits)

section \<open>Insertion\<close>

text \<open>The side of the tree that an insertion of \<open>key\<close> has made higher.\<close>

fun leans :: "int \<Rightarrow> avlNode \<Rightarrow> bool" where
  "leans key Null \<longleftrightarrow> False"
| "leans key (Node k l r h) \<longleftrightarrow>
     key < k \<and> nodeHeight l = nodeHeight r + 1 \<or> k < key \<and> nodeHeight r = nodeHeight l + 1"

lemma insert_balance_none:
  "\<bar>nodeHeight l - nodeHeight r\<bar> \<le> 1 \<Longrightarrow> insert_balance (Node k l r h) key = Some (Node k l r h)"
proof -
  assume "\<bar>nodeHeight l - nodeHeight r\<bar> \<le> 1"
  then have "\<not> 1 < nodeHeight l - nodeHeight r" "\<not> nodeHeight l - nodeHeight r < - 1" by auto
  then show ?thesis by (simp add: insert_balance_def left_key_test_def right_key_test_def Let_def)
qed

lemma avl_Node_ge: "avl t \<Longrightarrow> 0 \<le> nodeHeight t \<Longrightarrow> \<exists>k l r h. t = Node k l r h"
  by (cases t) auto

lemma insert_balance_left:
  assumes "avl l" "avl r" "nodeHeight l = nodeHeight r + 2" "leans key l"
  shows "\<exists>t. insert_balance (Node k l r h) key = Some t \<and> avl t \<and> nodeHeight t = nodeHeight l"
proof (cases l)
  case (Node lk ll lr lh)
  have g: "- 1 \<le> nodeHeight ll" "- 1 \<le> nodeHeight lr" "- 1 \<le> nodeHeight r"
    using assms(1,2) Node by (auto intro: nodeHeight_ge)
  show ?thesis
  proof (cases "key < lk")
    case True
    then show ?thesis using assms Node g
      by (simp add: insert_balance_def left_key_test_def right_key_test_def rightRotate.simps)
  next
    case False
    then have d: "lk < key" "nodeHeight lr = nodeHeight ll + 1" using assms(4) Node by auto
    then obtain rk rl rr rh where lr: "lr = Node rk rl rr rh"
      using avl_Node_ge [of lr] assms(1) Node g by auto
    show ?thesis using assms Node lr d
      by (auto simp: insert_balance_def left_key_test_def right_key_test_def rightRotate.simps leftRotate.simps
          LeftRightRotate.simps)
  qed
qed (use assms in simp)

lemma insert_balance_right:
  assumes "avl l" "avl r" "nodeHeight r = nodeHeight l + 2" "leans key r"
  shows "\<exists>t. insert_balance (Node k l r h) key = Some t \<and> avl t \<and> nodeHeight t = nodeHeight r"
proof (cases r)
  case (Node rk rl rr rh)
  have g: "- 1 \<le> nodeHeight rl" "- 1 \<le> nodeHeight rr" "- 1 \<le> nodeHeight l"
    using assms(1,2) Node by (auto intro: nodeHeight_ge)
  show ?thesis
  proof (cases "key > rk")
    case True
    then show ?thesis using assms Node g
      by (simp add: insert_balance_def left_key_test_def right_key_test_def leftRotate.simps)
  next
    case False
    then have d: "key < rk" "nodeHeight rl = nodeHeight rr + 1" using assms(4) Node by auto
    then obtain lk ll lr lh where rl: "rl = Node lk ll lr lh"
      using avl_Node_ge [of rl] assms(2) Node g by auto
    show ?thesis using assms Node rl d
      by (auto simp: insert_balance_def left_key_test_def right_key_test_def rightRotate.simps leftRotate.simps
          RightLeftRotate.simps)
  qed
qed (use assms in simp)

text \<open>An insertion returns, keeps the balance, and lets the tree grow by at most one level.\<close>

lemma avl_insert_avl:
  "avl t \<Longrightarrow> \<exists>t'. avl_insert True t key = Some t' \<and> avl t' \<and>
    (nodeHeight t' = nodeHeight t \<or> nodeHeight t' = nodeHeight t + 1 \<and> (t = Null \<or> leans key t'))"
proof (induction t)
  case Null
  then show ?case by (simp add: newNode_def)
next
  case (Node k l r h)
  have g: "- 1 \<le> nodeHeight l" "- 1 \<le> nodeHeight r"
    using Node.prems by (auto intro: nodeHeight_ge)
  consider "key < k" | "k < key" | "key = k" by linarith
  then show ?case
  proof cases
    case 1
    obtain l' where l': "avl_insert True l key = Some l'" "avl l'"
      "nodeHeight l' = nodeHeight l \<or> nodeHeight l' = nodeHeight l + 1 \<and> (l = Null \<or> leans key l')"
      using Node by auto
    show ?thesis
    proof (cases "nodeHeight l' = nodeHeight r + 2")
      case True
      then have "leans key l'" using l'(3) Node.prems g by (cases l) auto
      then obtain t where "insert_balance (Node k l' r (max (nodeHeight l') (nodeHeight r) + 1)) key = Some t" "avl t"
        "nodeHeight t = nodeHeight l'"
        using insert_balance_left [OF l'(2) _ True] Node.prems by fastforce
      then show ?thesis using 1 l' True Node.prems by auto
    next
      case False
      then have "\<bar>nodeHeight l' - nodeHeight r\<bar> \<le> 1" using l'(3) Node.prems by auto
      then show ?thesis using 1 l' Node.prems by (auto simp: insert_balance_none)
    qed
  next
    case 2
    obtain r' where r': "avl_insert True r key = Some r'" "avl r'"
      "nodeHeight r' = nodeHeight r \<or> nodeHeight r' = nodeHeight r + 1 \<and> (r = Null \<or> leans key r')"
      using Node by auto
    show ?thesis
    proof (cases "nodeHeight r' = nodeHeight l + 2")
      case True
      then have "leans key r'" using r'(3) Node.prems g by (cases r) auto
      then obtain t where "insert_balance (Node k l r' (max (nodeHeight l) (nodeHeight r') + 1)) key = Some t" "avl t"
        "nodeHeight t = nodeHeight r'"
        using insert_balance_right [OF _ r'(2) True] Node.prems by fastforce
      then show ?thesis using 2 r' True Node.prems by auto
    next
      case False
      then have "\<bar>nodeHeight l - nodeHeight r'\<bar> \<le> 1" using r'(3) Node.prems by auto
      then show ?thesis using 2 r' Node.prems by (auto simp: insert_balance_none)
    qed
  next
    case 3
    then show ?thesis using Node.prems by (auto simp: insert_balance_none)
  qed
qed

lemma avl_insert_keys:
  "avl_insert m t key = Some t' \<Longrightarrow> bst t \<Longrightarrow>
    bst t' \<and> keys t' = (if m then insert key (keys t) else keys t)"
proof (induction t arbitrary: t')
  case Null
  then show ?case by (auto simp: newNode_def)
next
  case (Node k l r h)
  obtain l1 r1 where n: "insert_balance (set_height (Node k l1 r1 h)) key = Some t'"
    "(if key < k then avl_insert m l key else Some l) = Some l1" "(if k < key then avl_insert m r key else Some r) = Some r1"
    using Node.prems(1) by (auto simp: bind_eq_Some_conv split: if_splits)
  have p: "printInOrder t' = printInOrder l1 @ k # printInOrder r1"
    using printInOrder_insert_balance [OF n(1)] by simp
  have l: "bst l1 \<and> keys l1 = (if key < k \<and> m then insert key (keys l) else keys l)"
    using n(2) Node.IH(1) [of l1] Node.prems(2) by (auto split: if_splits)
  have r: "bst r1 \<and> keys r1 = (if k < key \<and> m then insert key (keys r) else keys r)"
    using n(3) Node.IH(2) [of r1] Node.prems(2) by (auto split: if_splits)
  have "bst (Node k l1 r1 h)" using l r Node.prems(2) by auto
  then have "bst t'" by (simp add: bst_def p)
  moreover have "keys t' = (if m then insert key (keys (Node k l r h)) else keys (Node k l r h))"
    unfolding p using l r by auto
  ultimately show ?case by blast
qed

text \<open>When \<open>malloc\<close> fails nothing changes.\<close>

lemma avl_insert_no_memory: "avl t \<Longrightarrow> avl_insert False t key = Some t"
  by (induction t) (auto simp: newNode_def insert_balance_none)

lemma findNode_keys: "bst t \<Longrightarrow> findNode t q = Null \<longleftrightarrow> q \<notin> keys t"
  by (induction t) fastforce+

lemma findNode_key: "findNode t q \<noteq> Null \<Longrightarrow> node_key (findNode t q) = Some q"
  by (induction t) auto

text \<open>The number of levels is at most twice the logarithm of the number of nodes.\<close>

lemma avl_height_bound: "avl t \<Longrightarrow> 2 ^ nat ((nodeHeight t + 1) div 2) \<le> length (printInOrder t) + 1"
proof (induction "nat (nodeHeight t + 1)" arbitrary: t rule: less_induct)
  case less
  show ?case
  proof (cases t)
    case (Node k l r h)
    let ?f = "\<lambda>t. (2 :: nat) ^ nat ((nodeHeight t + 1) div 2)" and ?n = "\<lambda>t. length (printInOrder t) + 1"
    have g: "- 1 \<le> nodeHeight l" "- 1 \<le> nodeHeight r" using less.prems Node by (auto intro: nodeHeight_ge)
    have h: "h - 2 \<le> nodeHeight l" "h - 2 \<le> nodeHeight r" "nodeHeight l < h" "nodeHeight r < h"
      using less.prems Node by auto
    have "?f l \<le> ?n l" "?f r \<le> ?n r"
      by (rule less.hyps; use less.prems Node g h in auto)+
    moreover have "(2 :: nat) ^ nat ((h - 1) div 2) \<le> ?f l" "(2 :: nat) ^ nat ((h - 1) div 2) \<le> ?f r"
      by (rule power_increasing; use h in \<open>simp add: nat_mono zdiv_mono1\<close>)+
    moreover have "?f t \<le> 2 * 2 ^ nat ((h - 1) div 2)"
    proof (cases "h = 0")
      case False
      then have "0 \<le> (h - 1) div 2" "(h + 1) div 2 = (h - 1) div 2 + 1" using g h by auto
      then show ?thesis using Node by (simp add: nat_add_distrib)
    qed (simp add: Node)
    ultimately have "?f t \<le> ?n l + ?n r" by linarith
    then show ?thesis using Node by simp
  qed simp
qed

section \<open>Deletion\<close>

lemma minNode_least:
  "bst t \<Longrightarrow> t \<noteq> Null \<Longrightarrow> \<exists>n k. minNode t = Some n \<and> node_key n = Some k \<and> k \<in> keys t \<and> (\<forall>x\<in>keys t. k \<le> x)"
proof (induction t)
  case (Node k l r h)
  then show ?case by (cases "l = Null") (auto, force+)
qed simp

text \<open>Whenever a deletion returns, it has removed the key and kept the order.\<close>

lemma avl_delete_keys: "avl_delete t q = Some t' \<Longrightarrow> bst t \<Longrightarrow> bst t' \<and> keys t' = keys t - {q}"
proof (induction t arbitrary: q t')
  case (Node k l r h)
  have *: "bst t' \<and> keys t' = keys (Node k1 l1 r1 h)"
    if "delete_balance (set_height (Node k1 l1 r1 h)) = Some t'" "bst (Node k1 l1 r1 h)" for k1 l1 r1
    using printInOrder_delete_balance [OF that(1)] that(2) by (simp add: bst_def)
  consider "q < k" | "k < q" | "q = k" "l = Null \<or> r = Null" | "q = k" "l \<noteq> Null" "r \<noteq> Null"
    by (metis linorder_less_linear)
  then show ?case
  proof cases
    case 1
    then obtain l1 where l1: "avl_delete l q = Some l1" "delete_balance (set_height (Node k l1 r h)) = Some t'"
      using Node.prems(1) by (auto simp: bind_eq_Some_conv)
    then show ?thesis using * [OF l1(2)] Node.IH(1) [OF l1(1)] Node.prems(2) 1 by auto
  next
    case 2
    then obtain r1 where r1: "avl_delete r q = Some r1" "delete_balance (set_height (Node k l r1 h)) = Some t'"
      using Node.prems(1) by (auto simp: bind_eq_Some_conv)
    then show ?thesis using * [OF r1(2)] Node.IH(2) [OF r1(1)] Node.prems(2) 2 by auto
  next
    case 3
    let ?c = "if l \<noteq> Null then l else r"
    have "(if ?c = Null then Some ?c else delete_balance (set_height ?c)) = Some t'"
      using Node.prems(1) 3 by (simp only: avl_delete.simps if_True less_irrefl if_False bind.bind_lunit)
    then have "printInOrder t' = printInOrder ?c"
      using printInOrder_delete_balance [of "set_height ?c" t'] by (metis option.inject printInOrder_set_height)
    moreover have "keys ?c = keys (Node k l r h) - {q}" "bst ?c" using Node.prems(2) 3 by auto
    ultimately show ?thesis by (simp add: bst_def)
  next
    case 4
    obtain n tk where n: "minNode r = Some n" "node_key n = Some tk" "tk \<in> keys r" "\<forall>x\<in>keys r. tk \<le> x"
      using minNode_least [of r] Node.prems(2) 4(3) by auto
    obtain r1 where r1: "avl_delete r tk = Some r1" "delete_balance (set_height (Node tk l r1 h)) = Some t'"
      using Node.prems(1) 4 n by (auto simp: bind_eq_Some_conv)
    have k: "bst r1" "keys r1 = keys r - {tk}" using Node.IH(2) [OF r1(1)] Node.prems(2) by auto
    have "k < tk" using n(3) Node.prems(2) by simp
    then have "bst (Node tk l r1 h)" using k n(4) Node.prems(2) by (auto simp: order_less_le dest: order_less_trans)
    then have "bst t'" "keys t' = insert tk (keys l \<union> keys r1)" using * [OF r1(2)] by auto
    moreover have "k \<notin> keys l" "k \<notin> keys r" using Node.prems(2) by auto
    ultimately show ?thesis using k(2) n(3) 4(1) by auto
  qed
qed simp

text \<open>In a left-leaning tree no right subtree is higher than its sibling.\<close>

fun left_leaning :: "avlNode \<Rightarrow> bool" where
  "left_leaning Null \<longleftrightarrow> True"
| "left_leaning (Node k l r h) \<longleftrightarrow> left_leaning l \<and> left_leaning r \<and> nodeHeight r \<le> nodeHeight l"

lemma delete_balance_none:
  "\<bar>nodeHeight l - nodeHeight r\<bar> \<le> 1 \<Longrightarrow> delete_balance (Node k l r h) = Some (Node k l r h)"
proof -
  assume "\<bar>nodeHeight l - nodeHeight r\<bar> \<le> 1"
  then have "\<not> 1 < nodeHeight l - nodeHeight r" "\<not> nodeHeight l - nodeHeight r < - 1" by auto
  then show ?thesis by (simp add: delete_balance_def left_diff_test_def right_diff_test_def Let_def)
qed

lemma delete_balance_left:
  assumes "avl l" "avl r" "left_leaning l" "nodeHeight r \<le> nodeHeight l" "nodeHeight l \<le> nodeHeight r + 2"
  shows "\<exists>t. delete_balance (set_height (Node k l r h)) = Some t \<and> avl t \<and>
    nodeHeight t \<in> {nodeHeight l, nodeHeight l + 1}"
proof (cases "nodeHeight l = nodeHeight r + 2")
  case True
  obtain lk ll lr lh where l: "l = Node lk ll lr lh"
    using avl_Node_ge [of l] assms(1) nodeHeight_ge [OF assms(2)] True by auto
  show ?thesis using assms True l
    by (auto simp: delete_balance_def left_diff_test_def rightRotate.simps)
next
  case False
  then have "\<bar>nodeHeight l - nodeHeight r\<bar> \<le> 1" using assms(4,5) by auto
  then show ?thesis using assms by (auto simp: delete_balance_none)
qed

lemma avl_delete_left_leaning:
  "avl t \<Longrightarrow> left_leaning t \<Longrightarrow> bst t \<Longrightarrow> \<exists>t'. avl_delete t q = Some t' \<and> avl t' \<and>
    nodeHeight t' \<in> {nodeHeight t - 1, nodeHeight t}"
proof (induction t arbitrary: q)
  case (Node k l r h)
  have h: "h = nodeHeight l + 1" "nodeHeight r \<le> nodeHeight l" "nodeHeight l \<le> nodeHeight r + 1"
    using Node.prems by auto
  have right: "\<exists>t'. delete_balance (set_height (Node k1 l r1 h)) = Some t' \<and> avl t' \<and>
      nodeHeight t' \<in> {h - 1, h}"
    if "avl r1" "nodeHeight r1 \<in> {nodeHeight r - 1, nodeHeight r}" for k1 r1
    using delete_balance_left [of l r1 k1 h] that h Node.prems by auto
  consider "q < k" | "k < q" | "q = k" "l = Null \<or> r = Null" | "q = k" "l \<noteq> Null" "r \<noteq> Null"
    by (metis linorder_less_linear)
  then show ?case
  proof cases
    case 1
    obtain l1 where l1: "avl_delete l q = Some l1" "avl l1" "nodeHeight l1 \<in> {nodeHeight l - 1, nodeHeight l}"
      using Node.IH(1) [of q] Node.prems by auto
    then have "\<bar>nodeHeight l1 - nodeHeight r\<bar> \<le> 1" using h by auto
    then show ?thesis using 1 l1 h Node.prems by (auto simp: delete_balance_none)
  next
    case 2
    obtain r1 where "avl_delete r q = Some r1" "avl r1" "nodeHeight r1 \<in> {nodeHeight r - 1, nodeHeight r}"
      using Node.IH(2) [of q] Node.prems by auto
    then show ?thesis using 2 right [of r1 k] by auto
  next
    case 3
    let ?c = "if l \<noteq> Null then l else r"
    have "delete_balance (set_height ?c) = Some ?c" if "?c \<noteq> Null"
      using that Node.prems by (cases ?c) (auto simp: delete_balance_none split: if_splits)
    then have "avl_delete (Node k l r h) q = Some ?c" using 3 by auto
    moreover have "avl ?c" "nodeHeight ?c = h - 1"
      using 3 Node.prems h nodeHeight_ge [of r] nodeHeight_ge [of l] by auto
    ultimately show ?thesis by auto
  next
    case 4
    obtain n tk where n: "minNode r = Some n" "node_key n = Some tk"
      using minNode_least [of r] Node.prems(3) 4(3) by auto
    obtain r1 where "avl_delete r tk = Some r1" "avl r1" "nodeHeight r1 \<in> {nodeHeight r - 1, nodeHeight r}"
      using Node.IH(2) [of tk] Node.prems by auto
    then show ?thesis using 4 n right [of r1 tk] by auto
  qed
qed simp

section \<open>Properties\<close>

text \<open>
  C20 (insertion into the balanced search tree). On a search tree with correct heights that is balanced
  everywhere, \<open>insert\<close> returns a tree of the same kind whose keys are the old ones and the new one,
  its height grows by at most one level, and \<open>findNode\<close> then finds exactly these keys; when
  \<open>malloc\<close> fails the tree is left as it was.
\<close>
theorem avl_insert_correct:
  assumes "avl t" "bst t"
  shows "(\<exists>t'. avl_insert True t key = Some t' \<and> avl t' \<and> bst t' \<and> keys t' = insert key (keys t) \<and>
      nodeHeight t' \<in> {nodeHeight t, nodeHeight t + 1} \<and> (\<forall>q. findNode t' q \<noteq> Null \<longleftrightarrow> q = key \<or> q \<in> keys t)) \<and>
    avl_insert False t key = Some t"
proof -
  obtain t' where t': "avl_insert True t key = Some t'" "avl t'" "nodeHeight t' \<in> {nodeHeight t, nodeHeight t + 1}"
    using avl_insert_avl [OF assms(1), of key] by auto
  have k: "bst t'" "keys t' = insert key (keys t)" using avl_insert_keys [OF t'(1) assms(2)] by auto
  then show ?thesis
    using t' findNode_keys [OF k(1)] avl_insert_no_memory [OF assms(1)] by auto
qed

theorem avl_insert_correct_witness:
  "\<exists>t'. avl_insert True (Node 5 (Node 3 Null Null 0) Null 1) 1 = Some t' \<and> avl t' \<and> keys t' = {1, 3, 5}"
  using avl_insert_correct [of "Node 5 (Node 3 Null Null 0) Null 1" 1] by auto

text \<open>
  C33 (deletion from a left-leaning tree). On a balanced search tree in which no right subtree is
  higher than its sibling, \<open>delete\<close> returns a balanced search tree without the key, at most one
  level lower.
\<close>
theorem avl_delete_correct:
  assumes "avl t" "bst t" "left_leaning t"
  shows "\<exists>t'. avl_delete t q = Some t' \<and> avl t' \<and> bst t' \<and> keys t' = keys t - {q} \<and>
    nodeHeight t' \<in> {nodeHeight t - 1, nodeHeight t}"
  using avl_delete_left_leaning [OF assms(1,3,2), of q] avl_delete_keys [OF _ assms(2)] by blast

theorem avl_delete_correct_witness:
  "\<exists>t'. avl_delete (Node 5 (Node 3 (Node 1 Null Null 0) Null 1) (Node 7 Null Null 0) 2) 7 = Some t' \<and> avl t' \<and>
    keys t' = {1, 3, 5}"
  using avl_delete_correct [of "Node 5 (Node 3 (Node 1 Null Null 0) Null 1) (Node 7 Null Null 0) 2" 7] by auto

definition insert_all :: "int list \<Rightarrow> avlNode option" where
  "insert_all ks = foldl (\<lambda>t k. do { t \<leftarrow> t; avl_insert True t k }) (Some Null) ks"


end
