(* ===== verification/Fifo.thy ===== *)
theory Fifo
  imports Prelude "HOL-Library.Signed_Division"
begin

text \<open>
  The contract of the queues of \<open>DataStruct_learn/Queue\<close>: a call returns 0 on success and -1 otherwise,
  and elements leave in the order in which they came. \<open>fifo\<close> is the contract of one call; its lemmas
  are about arbitrary sequences of calls. \<open>bounded_fifo\<close> adds a capacity, which fixes the results of a
  whole sequence. The last section has what the two circular arrays share.
\<close>

section \<open>Sequences of calls\<close>

datatype q_op = Enq int | Deq

text \<open>The results of a sequence of calls: the returned codes, with the data that came out.\<close>

primrec run_queue ::
  "('s \<Rightarrow> int \<Rightarrow> (int \<times> 's) option) \<Rightarrow> ('s \<Rightarrow> (int \<times> 's \<times> int option) option) \<Rightarrow> q_op list \<Rightarrow> 's \<Rightarrow>
    ((int \<times> int option) list \<times> 's) option" where
  "run_queue enq deq [] s = Some ([], s)"
| "run_queue enq deq (c # cs) s =
     (case c of
        Enq x \<Rightarrow> do { (r, s) \<leftarrow> enq s x; (os, s) \<leftarrow> run_queue enq deq cs s; Some ((r, None) # os, s) }
      | Deq \<Rightarrow> do { (r, s, x) \<leftarrow> deq s; (os, s) \<leftarrow> run_queue enq deq cs s; Some ((r, x) # os, s) })"

text \<open>The same calls on a list that holds at most \<open>n\<close> elements.\<close>

primrec spec_queue :: "nat \<Rightarrow> q_op list \<Rightarrow> int list \<Rightarrow> (int \<times> int option) list \<times> int list" where
  "spec_queue n [] xs = ([], xs)"
| "spec_queue n (c # cs) xs =
     (case c of
        Enq x \<Rightarrow>
          if length xs < n then let (os, ys) = spec_queue n cs (xs @ [x]) in ((0, None) # os, ys)
          else let (os, ys) = spec_queue n cs xs in ((- 1, None) # os, ys)
      | Deq \<Rightarrow>
          (case xs of
             [] \<Rightarrow> let (os, ys) = spec_queue n cs [] in ((- 1, None) # os, ys)
           | x # xs \<Rightarrow> let (os, ys) = spec_queue n cs xs in ((0, Some x) # os, ys)))"

text \<open>What came out, and which of the offered elements were taken.\<close>

definition delivered :: "(int \<times> int option) list \<Rightarrow> int list" where
  "delivered os = List.map_filter snd os"

fun accepted :: "q_op list \<Rightarrow> (int \<times> int option) list \<Rightarrow> int list" where
  "accepted (Enq x # cs) (r # os) = (if fst r = 0 then x # accepted cs os else accepted cs os)"
| "accepted (Deq # cs) (r # os) = accepted cs os"
| "accepted cs os = []"

definition deqs :: "q_op list \<Rightarrow> nat" where
  "deqs cs = length (filter (\<lambda>c. c = Deq) cs)"

lemma delivered_simps [simp]:
  "delivered [] = []" "delivered ((r, None) # os) = delivered os" "delivered ((r, Some x) # os) = x # delivered os"
  by (simp_all add: delivered_def map_filter_simps)

lemma deqs_simps [simp]: "deqs [] = 0" "deqs (Enq x # cs) = deqs cs" "deqs (Deq # cs) = Suc (deqs cs)"
  by (simp_all add: deqs_def)

section \<open>The contracts\<close>

locale fifo =
  fixes inv :: "'s \<Rightarrow> bool"
    and room :: "'s \<Rightarrow> bool"
    and abs :: "'s \<Rightarrow> int list"
    and enq :: "'s \<Rightarrow> int \<Rightarrow> (int \<times> 's) option"
    and deq :: "'s \<Rightarrow> (int \<times> 's \<times> int option) option"
  assumes enq_ok: "inv s \<Longrightarrow> room s \<Longrightarrow> \<exists>s'. enq s x = Some (0, s') \<and> inv s' \<and> abs s' = abs s @ [x]"
    and enq_full: "inv s \<Longrightarrow> \<not> room s \<Longrightarrow> enq s x = Some (- 1, s)"
    and deq_ok: "inv s \<Longrightarrow> abs s = x # xs \<Longrightarrow> \<exists>s'. deq s = Some (0, s', Some x) \<and> inv s' \<and> abs s' = xs"
    and deq_empty: "inv s \<Longrightarrow> abs s = [] \<Longrightarrow> deq s = Some (- 1, s, None)"
begin

text \<open>
  Every sequence of calls returns, and what came out followed by what is left is what was there
  followed by what was taken in.
\<close>

lemma run_conserves:
  "inv s \<Longrightarrow> \<exists>os s'. run_queue enq deq cs s = Some (os, s') \<and> inv s' \<and> length os = length cs \<and>
    delivered os @ abs s' = abs s @ accepted cs os"
proof (induction cs arbitrary: s)
  case (Cons c cs)
  show ?case
  proof (cases c)
    case (Enq x)
    show ?thesis
    proof (cases "room s")
      case True
      then obtain s1 where "enq s x = Some (0, s1)" "inv s1" "abs s1 = abs s @ [x]" using enq_ok Cons.prems by blast
      then show ?thesis using Cons.IH [of s1] Enq by fastforce
    next
      case False
      then show ?thesis using Cons.IH [of s] Cons.prems Enq enq_full by fastforce
    qed
  next
    case Deq
    show ?thesis
    proof (cases "abs s")
      case Nil
      then show ?thesis using Cons.IH [of s] Cons.prems Deq deq_empty by fastforce
    next
      case (Cons x xs)
      then obtain s1 where "deq s = Some (0, s1, Some x)" "inv s1" "abs s1 = xs" using deq_ok Cons.prems by blast
      then show ?thesis using Cons.IH [of s1] Deq Cons by fastforce
    qed
  qed
qed simp

text \<open>The element with \<open>k\<close> others before it comes out with the removal after the first \<open>k\<close>.\<close>

lemma run_delivers:
  "inv s \<Longrightarrow> k < length (abs s) \<Longrightarrow> k < deqs cs \<Longrightarrow> run_queue enq deq cs s = Some (os, s') \<Longrightarrow>
    k < length (delivered os) \<and> delivered os ! k = abs s ! k"
proof (induction cs arbitrary: s k os)
  case (Cons c cs)
  show ?case
  proof (cases c)
    case (Enq x)
    obtain r s1 os1 where r: "enq s x = Some (r, s1)" "run_queue enq deq cs s1 = Some (os1, s')" "os = (r, None) # os1"
      using Cons.prems(4) Enq by (auto simp: bind_eq_Some_conv)
    have "inv s1 \<and> (abs s1 = abs s \<or> abs s1 = abs s @ [x])"
      using r(1) enq_ok [OF Cons.prems(1), of x] enq_full [OF Cons.prems(1), of x] Cons.prems(1) by (cases "room s") auto
    then show ?thesis using Cons.IH [of s1 k os1] Cons.prems(2,3) r Enq by (auto simp: nth_append)
  next
    case Deq
    obtain x xs where a: "abs s = x # xs" using Cons.prems(2) by (cases "abs s") auto
    obtain s1 where s1: "deq s = Some (0, s1, Some x)" "inv s1" "abs s1 = xs" using deq_ok [OF Cons.prems(1) a] by blast
    obtain os1 where r: "run_queue enq deq cs s1 = Some (os1, s')" "os = (0, Some x) # os1"
      using Cons.prems(4) Deq s1(1) by (auto simp: bind_eq_Some_conv)
    show ?thesis
    proof (cases k)
      case 0
      then show ?thesis using r a by simp
    next
      case (Suc j)
      then show ?thesis using Cons.IH [OF s1(2), of j os1] Cons.prems(2,3) Deq r a s1(3) by simp
    qed
  qed
qed simp

text \<open>An element that is taken in comes out in every continuation with enough removals.\<close>

lemma enq_delivers:
  assumes "inv s" "enq s x = Some (0, s1)" "length (abs s) < deqs cs"
  shows "\<exists>os s2. run_queue enq deq cs s1 = Some (os, s2) \<and> length (abs s) < length (delivered os) \<and>
    delivered os ! length (abs s) = x"
proof -
  have r: "room s" using enq_full [OF assms(1), of x] assms(2) by (cases "room s") auto
  then have s1: "inv s1" "abs s1 = abs s @ [x]" using enq_ok [OF assms(1) r, of x] assms(2) by auto
  obtain os s2 where "run_queue enq deq cs s1 = Some (os, s2)" using run_conserves [OF s1(1)] by blast
  then show ?thesis using run_delivers [OF s1(1) _ assms(3)] s1(2) by fastforce
qed

end

locale bounded_fifo = fifo +
  fixes capacity :: "'a \<Rightarrow> nat"
  assumes room_iff: "inv s \<Longrightarrow> room s \<longleftrightarrow> length (abs s) < capacity s"
    and enq_capacity: "inv s \<Longrightarrow> enq s x = Some (r, s') \<Longrightarrow> capacity s' = capacity s"
    and deq_capacity: "inv s \<Longrightarrow> deq s = Some (r, s', y) \<Longrightarrow> capacity s' = capacity s"
begin

lemma run_spec:
  "inv s \<Longrightarrow> \<exists>s'. run_queue enq deq cs s = Some (fst (spec_queue (capacity s) cs (abs s)), s') \<and> inv s' \<and>
    abs s' = snd (spec_queue (capacity s) cs (abs s))"
proof (induction cs arbitrary: s)
  case (Cons c cs)
  show ?case
  proof (cases c)
    case (Enq x)
    show ?thesis
    proof (cases "room s")
      case True
      then obtain s1 where s1: "enq s x = Some (0, s1)" "inv s1" "abs s1 = abs s @ [x]" using enq_ok Cons.prems by blast
      then show ?thesis
        using Cons.IH [OF s1(2)] enq_capacity [OF Cons.prems s1(1)] room_iff [OF Cons.prems] True Enq
        by (auto simp: case_prod_beta Let_def)
    next
      case False
      then show ?thesis
        using Cons.IH [OF Cons.prems] Cons.prems Enq enq_full room_iff [OF Cons.prems] by (auto simp: case_prod_beta Let_def)
    qed
  next
    case Deq
    show ?thesis
    proof (cases "abs s")
      case Nil
      then show ?thesis using Cons.IH [OF Cons.prems] Cons.prems Deq deq_empty by (auto simp: case_prod_beta Let_def)
    next
      case (Cons x xs)
      then obtain s1 where s1: "deq s = Some (0, s1, Some x)" "inv s1" "abs s1 = xs" using deq_ok Cons.prems by blast
      then show ?thesis using Cons.IH [OF s1(2)] deq_capacity [OF Cons.prems s1(1)] Deq Cons
        by (auto simp: case_prod_beta Let_def)
    qed
  qed
qed simp

end

section \<open>Circular arrays\<close>

text \<open>The \<open>n\<close> entries from index \<open>head\<close> on, around the end of the array.\<close>

definition ring_slice :: "'a list \<Rightarrow> nat \<Rightarrow> nat \<Rightarrow> 'a list" where
  "ring_slice xs head n = map (\<lambda>i. xs ! ((head + i) mod length xs)) [0..<n]"

lemma mod_shift_inj:
  fixes i j n :: nat
  assumes "(h + i) mod n = (h + j) mod n" "i < n" "j < n"
  shows "i = j"
proof -
  have "a = b" if "(h + b) mod n = (h + a) mod n" "b < n" "a \<le> b" for a b
  proof -
    have "n dvd b - a" using mod_eq_dvd_iff_nat [of "h + a" "h + b" n] that by simp
    moreover have "b - a < n" using that(2) by simp
    ultimately have "b - a = 0" by (meson dvd_imp_le not_gr_zero not_le)
    then show "a = b" using that(3) by simp
  qed
  from this [of j i] this [of i j] show ?thesis using assms by (cases "i \<le> j") auto
qed

lemma ring_slice_add:
  assumes "n < length xs"
  shows "ring_slice (xs[(head + n) mod length xs := x]) head (Suc n) = ring_slice xs head n @ [x]"
proof -
  have "(head + n) mod length xs \<noteq> (head + i) mod length xs" if "i < n" for i
    using mod_shift_inj [of head n "length xs" i] that assms by auto
  moreover have "(head + n) mod length xs < length xs" using assms by (intro mod_less_divisor) auto
  ultimately show ?thesis by (simp add: ring_slice_def)
qed

lemma ring_slice_remove:
  assumes "head < length xs"
  shows "ring_slice xs head (Suc n) = xs ! head # ring_slice xs ((head + 1) mod length xs) n"
proof -
  have "((head + 1) mod length xs + i) mod length xs = (head + Suc i) mod length xs" for i by (simp add: mod_simps)
  moreover have "[0..<Suc n] = 0 # map Suc [0..<n]" by (simp add: upt_conv_Cons map_Suc_upt del: upt_Suc)
  ultimately show ?thesis using assms by (simp add: ring_slice_def comp_def del: upt_Suc)
qed

text \<open>C's remainder is the mathematical one on arguments that are not negative.\<close>

lemma smod_mod: "0 \<le> a \<Longrightarrow> 0 < b \<Longrightarrow> a smod b = a mod (b :: int)"
  by (simp add: signed_modulo_int_def signed_divide_int_def sgn_if zero_less_mult_iff minus_div_mult_eq_mod)

lemma length_ring_slice [simp]: "length (ring_slice xs head n) = n"
  by (simp add: ring_slice_def)

end
