(* ===== verification/RingQueue.thy ===== *)
theory RingQueue
  imports Fifo
begin

text \<open>
  The ring buffer of \<open>DataStruct_learn/Queue/queue/ring_queue.c\<close>, which keeps one slot free to tell a full
  queue from an empty one. A function has no result when it divides by zero, leaves the range of
  \<open>int\<close>, or accesses memory it does not own.
\<close>

section \<open>Definitions\<close>

text \<open>The pointer \<open>_q\<close>: NULL, an allocated array, or an array that has been freed.\<close>

datatype q_mem = QNull | QBlock "int list" | QFreed

record ring_queue =
  rq_cap :: int
  rq_head :: int
  rq_tail :: int
  rq_q :: q_mem

definition alloc_queue :: "allocator \<Rightarrow> ring_queue option \<Rightarrow> int \<Rightarrow> int \<times> ring_queue option" where
  "alloc_queue A queue cap =
     (case queue of
        None \<Rightarrow> (- 1, queue)
      | Some q \<Rightarrow>
          if cap < 0 then (- 1, queue)
          else if rq_q q \<noteq> QNull then (- 1, queue)
          else case A (nat cap) of
              None \<Rightarrow> (- 1, queue)
            | Some xs \<Rightarrow> (0, Some (q\<lparr>rq_q := QBlock xs, rq_head := 0, rq_tail := 0, rq_cap := cap\<rparr>)))"

text \<open>The pointer is not reset; freeing an array twice has no result.\<close>

definition free_queue :: "ring_queue \<Rightarrow> ring_queue option" where
  "free_queue q =
     (let q = q\<lparr>rq_cap := 0, rq_head := 0, rq_tail := 0\<rparr> in
      case rq_q q of
        QNull \<Rightarrow> Some q
      | QBlock xs \<Rightarrow> Some (q\<lparr>rq_q := QFreed\<rparr>)
      | QFreed \<Rightarrow> None)"

definition valid_index :: "int \<Rightarrow> int \<Rightarrow> int \<Rightarrow> int option" where
  "valid_index cur step cap =
     (if cap = 0 \<or> cur + step > INT_MAX then None else Some ((cur + step) smod cap))"

definition next_index :: "int \<Rightarrow> int \<Rightarrow> int option" where
  "next_index cur cap = valid_index cur 1 cap"

definition is_empty_rq :: "ring_queue \<Rightarrow> bool" where
  "is_empty_rq q \<longleftrightarrow> rq_head q = rq_tail q"

definition is_full_rq :: "ring_queue \<Rightarrow> bool option" where
  "is_full_rq q = do { next_tail \<leftarrow> next_index (rq_tail q) (rq_cap q); Some (next_tail = rq_head q) }"

text \<open>An access to \<open>_q[i]\<close>.\<close>

fun q_get :: "q_mem \<Rightarrow> int \<Rightarrow> int option" where
  "q_get (QBlock xs) i = (if i < 0 then None else aget xs (nat i))"
| "q_get p i = None"

fun q_set :: "q_mem \<Rightarrow> int \<Rightarrow> int \<Rightarrow> q_mem option" where
  "q_set (QBlock xs) i v = (if i < 0 then None else map_option QBlock (aset xs (nat i) v))"
| "q_set p i v = None"

definition enqueue_rq :: "ring_queue \<Rightarrow> int \<Rightarrow> (int \<times> ring_queue) option" where
  "enqueue_rq q elem = do {
     full \<leftarrow> is_full_rq q;
     if full then Some (- 1, q)
     else do {
       p \<leftarrow> q_set (rq_q q) (rq_tail q) elem;
       t \<leftarrow> next_index (rq_tail q) (rq_cap q);
       Some (0, q\<lparr>rq_q := p, rq_tail := t\<rparr>) } }"

text \<open>The flag says whether the argument \<open>elem\<close> is a pointer other than NULL.\<close>

definition dequeue_rq :: "bool \<Rightarrow> ring_queue \<Rightarrow> (int \<times> ring_queue \<times> int option) option" where
  "dequeue_rq elem q =
     (if is_empty_rq q then Some (- 1, q, None)
      else do {
        x \<leftarrow> (if elem then map_option Some (q_get (rq_q q) (rq_head q)) else Some None);
        h \<leftarrow> next_index (rq_head q) (rq_cap q);
        Some (0, q\<lparr>rq_head := h\<rparr>, x) })"

definition size_rq :: "ring_queue \<Rightarrow> int" where
  "size_rq q = (let size = rq_tail q - rq_head q in if size < 0 then size + rq_cap q else size)"

text \<open>The pairs of index and element that \<open>dump\<close> prints.\<close>

function dump_loop :: "ring_queue \<Rightarrow> int \<Rightarrow> (int \<times> int) list option" where
  "dump_loop q i =
     (if i < size_rq q then do {
        idx \<leftarrow> valid_index (rq_head q) i (rq_cap q);
        x \<leftarrow> q_get (rq_q q) idx;
        ls \<leftarrow> dump_loop q (i + 1);
        Some ((idx, x) # ls) }
      else Some [])"
  by pat_completeness auto
termination
  by (relation "measure (\<lambda>(q, i). nat (size_rq q - i))") auto

declare dump_loop.simps [simp del]

definition dump_rq :: "ring_queue \<Rightarrow> (int \<times> int) list option" where
  "dump_rq q = dump_loop q 0"

section \<open>Invariant\<close>

definition rq_inv :: "ring_queue \<Rightarrow> bool" where
  "rq_inv q \<longleftrightarrow> (case rq_q q of
      QBlock xs \<Rightarrow> int (length xs) = rq_cap q \<and> 0 < rq_cap q \<and> rq_cap q \<le> INT_MAX \<and>
        0 \<le> rq_head q \<and> rq_head q < rq_cap q \<and> 0 \<le> rq_tail q \<and> rq_tail q < rq_cap q
    | _ \<Rightarrow> False)"

definition rq_abs :: "ring_queue \<Rightarrow> int list" where
  "rq_abs q = (case rq_q q of QBlock xs \<Rightarrow> ring_slice xs (nat (rq_head q)) (nat (size_rq q)) | _ \<Rightarrow> [])"

text \<open>The capacity: one slot stays free.\<close>

definition rq_capacity :: "ring_queue \<Rightarrow> nat" where
  "rq_capacity q = nat (rq_cap q) - 1"

lemma rq_invE:
  assumes "rq_inv q"
  obtains xs h n where "rq_q q = QBlock xs" "rq_cap q = int (length xs)" "xs \<noteq> []" "int (length xs) \<le> INT_MAX"
    "rq_head q = int h" "h < length xs" "size_rq q = int n" "n < length xs" "rq_tail q = int ((h + n) mod length xs)"
    "rq_abs q = ring_slice xs h n"
proof -
  obtain xs where xs: "rq_q q = QBlock xs" using assms by (auto simp: rq_inv_def split: q_mem.splits)
  define h t n where "h = nat (rq_head q)" and "t = nat (rq_tail q)" and "n = (if h \<le> t then t - h else t + length xs - h)"
  have i: "int (length xs) = rq_cap q" "0 < length xs" "int (length xs) \<le> INT_MAX" "rq_head q = int h" "rq_tail q = int t"
    "h < length xs" "t < length xs"
    using assms xs by (auto simp: rq_inv_def h_def t_def)
  have n: "size_rq q = int n" "n < length xs" using i by (auto simp: size_rq_def n_def Let_def)
  have "h + n = (if h \<le> t then t else t + length xs)" using i(6) by (simp add: n_def)
  then have m: "(h + n) mod length xs = t" using i(7) by simp
  show thesis
  proof (rule that)
    show "rq_q q = QBlock xs" "rq_cap q = int (length xs)" "xs \<noteq> []" "int (length xs) \<le> INT_MAX" "rq_head q = int h"
      "h < length xs" "size_rq q = int n" "n < length xs" using xs i n by simp_all
    show "rq_tail q = int ((h + n) mod length xs)" unfolding m by (rule i(5))
    show "rq_abs q = ring_slice xs h n" by (simp add: rq_abs_def xs i(4) n(1))
  qed
qed

lemma valid_index_eq:
  "0 < n \<Longrightarrow> int (a + k) \<le> INT_MAX \<Longrightarrow> valid_index (int a) (int k) (int n) = Some (int ((a + k) mod n))"
  by (simp add: valid_index_def smod_mod of_nat_mod)

lemma next_index_eq: "a < n \<Longrightarrow> int n \<le> INT_MAX \<Longrightarrow> next_index (int a) (int n) = Some (int ((a + 1) mod n))"
  using valid_index_eq [of n a 1] by (simp add: next_index_def)

section \<open>The operations\<close>

lemma is_full_rq_eq: "rq_inv q \<Longrightarrow> is_full_rq q = Some (length (rq_abs q) = rq_capacity q)"
proof (rule rq_invE)
  fix xs h n
  assume q: "rq_q q = QBlock xs" "rq_cap q = int (length xs)" "xs \<noteq> []" "int (length xs) \<le> INT_MAX" "rq_head q = int h"
    "h < length xs" "n < length xs" "rq_tail q = int ((h + n) mod length xs)" "rq_abs q = ring_slice xs h n"
  have "next_index (rq_tail q) (rq_cap q) = Some (int (((h + n) mod length xs + 1) mod length xs))"
    using q by (simp add: next_index_eq)
  moreover have "((h + n) mod length xs + 1) mod length xs = (h + Suc n) mod length xs" by (simp add: mod_simps)
  moreover have "(h + Suc n) mod length xs = h \<longleftrightarrow> Suc n = length xs"
  proof (cases "Suc n = length xs")
    case False
    then have "Suc n < length xs" using q(7) by simp
    then have "(h + Suc n) mod length xs \<noteq> (h + 0) mod length xs" using mod_shift_inj [of h "Suc n" "length xs" 0] by fastforce
    then show ?thesis using False q(6) by simp
  qed (use q(6) in simp)
  moreover have "n = length xs - 1 \<longleftrightarrow> Suc n = length xs" using q(3) by auto
  ultimately show ?thesis using q by (simp add: is_full_rq_def rq_capacity_def)
qed

lemma is_empty_rq_eq: "rq_inv q \<Longrightarrow> is_empty_rq q \<longleftrightarrow> rq_abs q = []"
proof (rule rq_invE)
  fix xs h n
  assume q: "rq_head q = int h" "h < length xs" "n < length xs" "rq_tail q = int ((h + n) mod length xs)"
    "rq_abs q = ring_slice xs h n" "size_rq q = int n"
  have "rq_head q = rq_tail q \<longleftrightarrow> n = 0"
    using mod_shift_inj [of h 0 "length xs" n] q(1-4) by fastforce
  then show ?thesis using q(5) by (simp add: is_empty_rq_def ring_slice_def)
qed

lemma enqueue_rq_ok:
  assumes "rq_inv q" "length (rq_abs q) < rq_capacity q"
  shows "\<exists>q'. enqueue_rq q x = Some (0, q') \<and> rq_inv q' \<and> rq_abs q' = rq_abs q @ [x] \<and> rq_capacity q' = rq_capacity q"
proof (rule rq_invE [OF assms(1)])
  fix xs h n
  assume q: "rq_q q = QBlock xs" "rq_cap q = int (length xs)" "xs \<noteq> []" "int (length xs) \<le> INT_MAX" "rq_head q = int h"
    "h < length xs" "n < length xs" "rq_tail q = int ((h + n) mod length xs)" "rq_abs q = ring_slice xs h n"
  define t t' where "t = (h + n) mod length xs" and "t' = (h + Suc n) mod length xs"
  have t: "t < length xs" "t' < length xs" using q(3) by (simp_all add: t_def t'_def)
  have t': "(t + 1) mod length xs = t'" unfolding t'_def t_def by (simp add: mod_simps)
  have qt: "rq_tail q = int t" using q(8) by (simp add: t_def)
  define q' where "q' = q\<lparr>rq_q := QBlock (xs[t := x]), rq_tail := int t'\<rparr>"
  have n: "Suc n < length xs" using assms(2) q(2,9) by (simp add: rq_capacity_def)
  have "next_index (rq_tail q) (rq_cap q) = Some (int t')"
    unfolding qt q(2) next_index_eq [OF t(1) q(4)] t' ..
  then have "enqueue_rq q x = Some (0, q')"
    using is_full_rq_eq [OF assms(1)] assms(2) q(1) qt t(1) by (simp add: enqueue_rq_def aset_def q'_def)
  moreover have inv: "rq_inv q'" using q(1-6) t by (simp add: rq_inv_def q'_def)
  moreover have "rq_abs q' = rq_abs q @ [x]"
  proof (rule rq_invE [OF inv])
    fix ys k m
    assume a: "rq_q q' = QBlock ys" "rq_head q' = int k" "m < length ys" "rq_tail q' = int ((k + m) mod length ys)"
      "rq_abs q' = ring_slice ys k m"
    have ys: "ys = xs[t := x]" "k = h" using a(1,2) q(5) by (simp_all add: q'_def)
    have "int ((h + m) mod length xs) = int t'" using a(4) unfolding ys by (simp add: q'_def)
    then have "m = Suc n"
      using mod_shift_inj [of h m "length xs" "Suc n"] a(3) n unfolding ys t'_def by simp
    then show ?thesis unfolding a(5) ys q(9) t_def using ring_slice_add [OF q(7), of h x] by simp
  qed
  moreover have "rq_capacity q' = rq_capacity q" by (simp add: rq_capacity_def q'_def)
  ultimately show ?thesis by blast
qed

lemma dequeue_rq_ok:
  assumes "rq_inv q" "rq_abs q = x # ys"
  shows "\<exists>q'. dequeue_rq e q = Some (0, q', if e then Some x else None) \<and> rq_inv q' \<and> rq_abs q' = ys \<and>
    rq_capacity q' = rq_capacity q"
proof (rule rq_invE [OF assms(1)])
  fix xs h n
  assume q: "rq_q q = QBlock xs" "rq_cap q = int (length xs)" "xs \<noteq> []" "int (length xs) \<le> INT_MAX" "rq_head q = int h"
    "h < length xs" "n < length xs" "rq_tail q = int ((h + n) mod length xs)" "rq_abs q = ring_slice xs h n"
  obtain k where n: "n = Suc k" using arg_cong [OF assms(2), of length] q(9) by (cases n) auto
  define h' where "h' = (h + 1) mod length xs"
  have h': "h' < length xs" using q(3) by (simp add: h'_def)
  have x: "xs ! h = x" "ring_slice xs h' k = ys"
    using assms(2) unfolding q(9) n ring_slice_remove [OF q(6)] h'_def by simp_all
  define q' where "q' = q\<lparr>rq_head := int h'\<rparr>"
  have "\<not> is_empty_rq q" using is_empty_rq_eq [OF assms(1)] assms(2) by simp
  then have "dequeue_rq e q = Some (0, q', if e then Some x else None)"
    using next_index_eq [OF q(6,4)] q(1,2,5,6) x(1) by (simp add: dequeue_rq_def aget_def q'_def h'_def)
  moreover have inv: "rq_inv q'" using q(1-6,8) h' by (simp add: rq_inv_def q'_def)
  moreover have "rq_abs q' = ys"
  proof (rule rq_invE [OF inv])
    fix zs j m
    assume a: "rq_q q' = QBlock zs" "rq_head q' = int j" "m < length zs" "rq_tail q' = int ((j + m) mod length zs)"
      "rq_abs q' = ring_slice zs j m"
    have zs: "zs = xs" "j = h'" using a(1,2) q(1) by (simp_all add: q'_def)
    have "int ((h' + m) mod length xs) = int ((h + n) mod length xs)" using a(4) q(8) unfolding zs by (simp add: q'_def)
    moreover have "(h + n) mod length xs = (h' + k) mod length xs" unfolding h'_def n by (simp add: mod_simps)
    ultimately have "m = k" using mod_shift_inj [of h' m "length xs" k] a(3) q(7) n unfolding zs by simp
    then show ?thesis unfolding a(5) zs using x(2) by simp
  qed
  moreover have "rq_capacity q' = rq_capacity q" by (simp add: rq_capacity_def q'_def)
  ultimately show ?thesis by blast
qed

lemma enqueue_rq_full: "rq_inv q \<Longrightarrow> \<not> length (rq_abs q) < rq_capacity q \<Longrightarrow> enqueue_rq q x = Some (- 1, q)"
proof -
  assume q: "rq_inv q" "\<not> length (rq_abs q) < rq_capacity q"
  have "length (rq_abs q) \<le> rq_capacity q"
  proof (rule rq_invE [OF q(1)])
    fix xs h n assume "rq_cap q = int (length xs)" "n < length xs" "rq_abs q = ring_slice xs h n"
    then show ?thesis by (simp add: rq_capacity_def)
  qed
  then show ?thesis using q is_full_rq_eq [OF q(1)] by (simp add: enqueue_rq_def)
qed

lemma dequeue_rq_empty: "rq_inv q \<Longrightarrow> rq_abs q = [] \<Longrightarrow> dequeue_rq e q = Some (- 1, q, None)"
  using is_empty_rq_eq [of q] by (simp add: dequeue_rq_def)

interpretation rq: bounded_fifo rq_inv "\<lambda>q. length (rq_abs q) < rq_capacity q" rq_abs enqueue_rq "dequeue_rq True" rq_capacity
proof (unfold_locales, goal_cases)
  case (1 s x)
  then show ?case using enqueue_rq_ok by blast
next
  case (2 s x)
  then show ?case by (rule enqueue_rq_full)
next
  case (3 s x xs)
  then show ?case using dequeue_rq_ok [of s x xs True] by auto
next
  case (4 s)
  then show ?case by (rule dequeue_rq_empty)
next
  case (5 s)
  then show ?case by simp
next
  case (6 s x r s')
  then show ?case using enqueue_rq_ok [of s x] enqueue_rq_full [of s x] by (cases "length (rq_abs s) < rq_capacity s") auto
next
  case (7 s r s' y)
  then show ?case using dequeue_rq_ok [of s _ _ True] dequeue_rq_empty [of s True] by (cases "rq_abs s") fastforce+
qed

lemma alloc_queue_ok:
  assumes "wf_alloc A" "A (nat cap) \<noteq> None" "0 < cap" "cap \<le> INT_MAX" "rq_q q = QNull"
  shows "\<exists>q'. alloc_queue A (Some q) cap = (0, Some q') \<and> rq_inv q' \<and> rq_abs q' = [] \<and> rq_capacity q' = nat cap - 1"
proof -
  obtain xs where xs: "A (nat cap) = Some xs" using assms(2) by auto
  then have "length xs = nat cap" using assms(1) by (simp add: wf_alloc_def)
  then show ?thesis using xs assms(3-5)
    by (simp add: alloc_queue_def rq_inv_def rq_abs_def rq_capacity_def size_rq_def ring_slice_def)
qed

text \<open>The printed elements are the contents.\<close>

lemma dump_loop_eq:
  assumes "rq_inv q" "2 * rq_cap q \<le> INT_MAX + 1"
  shows "k \<le> length (rq_abs q) \<Longrightarrow> map_option (map snd) (dump_loop q (int k)) = Some (drop k (rq_abs q))"
proof (rule rq_invE [OF assms(1)])
  fix xs h n
  assume q: "rq_q q = QBlock xs" "rq_cap q = int (length xs)" "xs \<noteq> []" "rq_head q = int h"
    "h < length xs" "n < length xs" "rq_abs q = ring_slice xs h n" "size_rq q = int n"
  show "k \<le> length (rq_abs q) \<Longrightarrow> map_option (map snd) (dump_loop q (int k)) = Some (drop k (rq_abs q))"
  proof (induction "n - k" arbitrary: k)
    case 0
    then show ?case using q by (subst dump_loop.simps) simp
  next
    case (Suc m)
    then have k: "k < n" "m = n - Suc k" by simp_all
    have "valid_index (int h) (int k) (int (length xs)) = Some (int ((h + k) mod length xs))"
      by (rule valid_index_eq) (use q(2,3,5,6) k assms(2) in auto)
    moreover have "(h + k) mod length xs < length xs" using q(3) by simp
    moreover have "ring_slice xs h n ! k = xs ! ((h + k) mod length xs)" using k by (simp add: ring_slice_def)
    moreover have "map_option (map snd) (dump_loop q (int k + 1)) = Some (drop (Suc k) (rq_abs q))"
      using Suc.hyps(1) [OF k(2)] k(1) q(7) by (simp add: add.commute)
    moreover have "drop k (rq_abs q) = rq_abs q ! k # drop (Suc k) (rq_abs q)"
      using k(1) q(7) by (simp add: Cons_nth_drop_Suc)
    ultimately show ?case using q(1,2,4,7,8) k(1) by (subst dump_loop.simps) (auto simp: aget_def)
  qed
qed

section \<open>Properties\<close>

text \<open>
  C25 (an accepted element comes out). After \<open>enqueue\<close> has accepted \<open>x\<close> behind \<open>k\<close> other elements, every
  sequence of further calls returns, and in every sequence with more than \<open>k\<close> calls of \<open>dequeue\<close> the
  element \<open>x\<close> is the one delivered after exactly \<open>k\<close> others, however calls of \<open>enqueue\<close> are interleaved.
\<close>
theorem ring_queue_delivers:
  assumes "rq_inv q" "enqueue_rq q x = Some (0, q1)" "length (rq_abs q) < deqs cs"
  shows "\<exists>os q2. run_queue enqueue_rq (dequeue_rq True) cs q1 = Some (os, q2) \<and>
    length (rq_abs q) < length (delivered os) \<and> delivered os ! length (rq_abs q) = x"
  using assms by (rule rq.enq_delivers)

theorem ring_queue_delivers_witness:
  "\<exists>q1 os q2. enqueue_rq \<lparr>rq_cap = 4, rq_head = 3, rq_tail = 0, rq_q = QBlock [0, 0, 0, 9]\<rparr> 7 = Some (0, q1) \<and>
    run_queue enqueue_rq (dequeue_rq True) [Enq 5, Deq, Enq 6, Deq] q1 = Some (os, q2) \<and> delivered os ! 1 = 7"
proof -
  define q where "q = \<lparr>rq_cap = 4, rq_head = 3, rq_tail = 0, rq_q = QBlock [0, 0, 0, 9 :: int]\<rparr>"
  have i: "rq_inv q" by (simp add: rq_inv_def q_def INT_MAX_def)
  have a: "length (rq_abs q) = 1" by (simp add: rq_abs_def q_def size_rq_def)
  have "rq_capacity q = 3" by (simp add: rq_capacity_def q_def)
  then have "length (rq_abs q) < rq_capacity q" by (simp add: a)
  then obtain q1 where q1: "enqueue_rq q 7 = Some (0, q1)" using enqueue_rq_ok [OF i] by blast
  then show ?thesis
    using ring_queue_delivers [OF i q1, of "[Enq 5, Deq, Enq 6, Deq]"] unfolding a q_def [symmetric] by auto
qed

text \<open>
  C38 (a freed queue cannot be allocated again). \<open>free_queue\<close> leaves the pointer to the freed array in the
  structure, so that \<open>alloc_queue\<close> refuses the queue from then on whatever the capacity, a second
  \<open>free_queue\<close> frees the array twice, and \<open>enqueue\<close> divides by zero.
\<close>
theorem ring_queue_after_free:
  assumes "rq_inv q"
  shows "\<exists>q'. free_queue q = Some q' \<and> alloc_queue A (Some q') cap = (- 1, Some q') \<and> free_queue q' = None \<and>
    enqueue_rq q' x = None"
proof -
  obtain xs where "rq_q q = QBlock xs" using assms by (auto simp: rq_inv_def split: q_mem.splits)
  then show ?thesis
    by (simp add: free_queue_def alloc_queue_def enqueue_rq_def is_full_rq_def next_index_def valid_index_def Let_def)
qed

theorem ring_queue_after_free_witness:
  "\<exists>q'. free_queue \<lparr>rq_cap = 2, rq_head = 0, rq_tail = 1, rq_q = QBlock [4, 5]\<rparr> = Some q' \<and>
    alloc_queue (\<lambda>n. Some (replicate n 0)) (Some q') 8 = (- 1, Some q')"
  using ring_queue_after_free [of "\<lparr>rq_cap = 2, rq_head = 0, rq_tail = 1, rq_q = QBlock [4, 5]\<rparr>" "\<lambda>n. Some (replicate n 0)" 8]
  by (auto simp: rq_inv_def INT_MAX_def)

end
