(* ===== verification/ArrayQueue.thy ===== *)
theory ArrayQueue
  imports Fifo
begin

text \<open>
  The circular queue of \<open>DataStruct_learn/Queue/queue/array_queue\<close>, which counts its elements. A pointer
  argument is an \<open>option\<close>, \<open>None\<close> for NULL; a function has no result when it divides by zero or accesses
  the array out of bounds.
\<close>

section \<open>Definitions\<close>

record array_queue =
  aq_size :: int
  aq_num :: int
  aq_head :: int
  aq_tail :: int
  aq_array :: "int list"

definition array_queue_is_empty :: "array_queue \<Rightarrow> bool" where
  "array_queue_is_empty q \<longleftrightarrow> aq_num q = 0"

definition array_queue_is_full :: "array_queue \<Rightarrow> bool" where
  "array_queue_is_full q \<longleftrightarrow> aq_num q = aq_size q"

text \<open>
  The flag says whether the structure can be allocated. The size of the array is converted to
  \<open>size_t\<close>, so that a negative one asks for nearly \<open>2 ^ 62\<close> integers.
\<close>

definition array_queue_create :: "bool \<Rightarrow> allocator \<Rightarrow> int \<Rightarrow> array_queue option" where
  "array_queue_create m A sz =
     (if \<not> m then None
      else case A (nat (if 0 \<le> sz then sz else 2 ^ 62 + sz)) of
          None \<Rightarrow> None
        | Some xs \<Rightarrow> Some \<lparr>aq_size = sz, aq_num = 0, aq_head = 0, aq_tail = 0, aq_array = xs\<rparr>)"

text \<open>Accesses to \<open>array[i]\<close> and the step of an index.\<close>

definition at_get :: "int list \<Rightarrow> int \<Rightarrow> int option" where
  "at_get xs i = (if i < 0 then None else aget xs (nat i))"

definition at_set :: "int list \<Rightarrow> int \<Rightarrow> int \<Rightarrow> int list option" where
  "at_set xs i v = (if i < 0 then None else aset xs (nat i) v)"

definition wrap_index :: "int \<Rightarrow> int \<Rightarrow> int \<Rightarrow> int option" where
  "wrap_index i k sz = (if sz = 0 \<or> i + k > INT_MAX then None else Some ((i + k) smod sz))"

definition array_queue_enqueue :: "array_queue option \<Rightarrow> int \<Rightarrow> (int \<times> array_queue option) option" where
  "array_queue_enqueue queue data =
     (case queue of
        None \<Rightarrow> Some (- 1, queue)
      | Some q \<Rightarrow>
          if array_queue_is_full q then Some (- 1, queue)
          else do {
            xs \<leftarrow> at_set (aq_array q) (aq_tail q) data;
            t \<leftarrow> wrap_index (aq_tail q) 1 (aq_size q);
            Some (0, Some (q\<lparr>aq_num := aq_num q + 1, aq_array := xs, aq_tail := t\<rparr>)) })"

text \<open>The flag says whether the argument \<open>data\<close> is a pointer other than NULL.\<close>

definition array_queue_dequeue :: "bool \<Rightarrow> array_queue option \<Rightarrow> (int \<times> array_queue option \<times> int option) option" where
  "array_queue_dequeue data queue =
     (case queue of
        None \<Rightarrow> Some (- 1, queue, None)
      | Some q \<Rightarrow>
          if \<not> data \<or> array_queue_is_empty q then Some (- 1, queue, None)
          else do {
            x \<leftarrow> at_get (aq_array q) (aq_head q);
            h \<leftarrow> wrap_index (aq_head q) 1 (aq_size q);
            Some (0, Some (q\<lparr>aq_num := aq_num q - 1, aq_head := h\<rparr>), Some x) })"

text \<open>The pairs of index and element that \<open>array_queue_dump\<close> prints.\<close>

function aq_dump_loop :: "array_queue \<Rightarrow> int \<Rightarrow> (int \<times> int) list option" where
  "aq_dump_loop q i =
     (if i < aq_num q then do {
        pos \<leftarrow> wrap_index (aq_head q) i (aq_size q);
        x \<leftarrow> at_get (aq_array q) pos;
        ls \<leftarrow> aq_dump_loop q (i + 1);
        Some ((pos, x) # ls) }
      else Some [])"
  by pat_completeness auto
termination
  by (relation "measure (\<lambda>(q, i). nat (aq_num q - i))") auto

declare aq_dump_loop.simps [simp del]

definition array_queue_dump :: "array_queue option \<Rightarrow> (int \<times> int) list option" where
  "array_queue_dump queue =
     (case queue of
        None \<Rightarrow> Some []
      | Some q \<Rightarrow> if array_queue_is_empty q then Some [] else aq_dump_loop q 0)"

section \<open>Invariant\<close>

definition aq_inv :: "array_queue option \<Rightarrow> bool" where
  "aq_inv queue \<longleftrightarrow> (case queue of
      None \<Rightarrow> False
    | Some q \<Rightarrow> \<exists>h n. aq_size q = int (length (aq_array q)) \<and> aq_size q \<le> INT_MAX \<and> aq_num q = int n \<and>
        n \<le> length (aq_array q) \<and> aq_head q = int h \<and>
        (if aq_array q = [] then h = 0 \<and> aq_tail q = 0
         else h < length (aq_array q) \<and> aq_tail q = int ((h + n) mod length (aq_array q))))"

definition aq_abs :: "array_queue option \<Rightarrow> int list" where
  "aq_abs queue = (case queue of None \<Rightarrow> [] | Some q \<Rightarrow> ring_slice (aq_array q) (nat (aq_head q)) (nat (aq_num q)))"

definition aq_capacity :: "array_queue option \<Rightarrow> nat" where
  "aq_capacity queue = (case queue of None \<Rightarrow> 0 | Some q \<Rightarrow> nat (aq_size q))"

lemma aq_invE:
  assumes "aq_inv queue"
  obtains q h n where "queue = Some q" "aq_size q = int (length (aq_array q))" "aq_size q \<le> INT_MAX" "aq_num q = int n"
    "n \<le> length (aq_array q)" "aq_head q = int h" "aq_array q \<noteq> [] \<Longrightarrow> h < length (aq_array q)"
    "aq_array q \<noteq> [] \<Longrightarrow> aq_tail q = int ((h + n) mod length (aq_array q))"
    "aq_abs queue = ring_slice (aq_array q) h n" "aq_capacity queue = length (aq_array q)"
proof -
  obtain q where q: "queue = Some q" using assms by (auto simp: aq_inv_def split: option.splits)
  obtain h n where i: "aq_size q = int (length (aq_array q))" "aq_size q \<le> INT_MAX" "aq_num q = int n"
    "n \<le> length (aq_array q)" "aq_head q = int h"
    "if aq_array q = [] then h = 0 \<and> aq_tail q = 0
     else h < length (aq_array q) \<and> aq_tail q = int ((h + n) mod length (aq_array q))"
    using assms unfolding q aq_inv_def option.case by blast
  show thesis
  proof (rule that)
    show "queue = Some q" by (rule q)
    show "aq_array q \<noteq> [] \<Longrightarrow> h < length (aq_array q)" using i(6) by argo
    show "aq_array q \<noteq> [] \<Longrightarrow> aq_tail q = int ((h + n) mod length (aq_array q))" using i(6) by argo
    show "aq_abs queue = ring_slice (aq_array q) h n" by (simp add: q aq_abs_def i(3,5))
    show "aq_capacity queue = length (aq_array q)" by (simp add: q aq_capacity_def i(1))
  qed (rule i)+
qed

lemma wrap_index_eq:
  "0 < n \<Longrightarrow> int (a + k) \<le> INT_MAX \<Longrightarrow> wrap_index (int a) (int k) (int n) = Some (int ((a + k) mod n))"
  by (simp add: wrap_index_def smod_mod of_nat_mod)

lemma wrap_index_next: "a < n \<Longrightarrow> int n \<le> INT_MAX \<Longrightarrow> wrap_index (int a) 1 (int n) = Some (int ((a + 1) mod n))"
  using wrap_index_eq [of n a 1] by simp

section \<open>The operations\<close>

lemma array_queue_enqueue_ok:
  assumes "aq_inv s" "length (aq_abs s) < aq_capacity s"
  shows "\<exists>s'. array_queue_enqueue s x = Some (0, s') \<and> aq_inv s' \<and> aq_abs s' = aq_abs s @ [x] \<and> aq_capacity s' = aq_capacity s"
proof (rule aq_invE [OF assms(1)])
  fix q h n
  assume q: "s = Some q" "aq_size q = int (length (aq_array q))" "aq_size q \<le> INT_MAX" "aq_num q = int n"
    "aq_head q = int h" "aq_array q \<noteq> [] \<Longrightarrow> h < length (aq_array q)"
    "aq_array q \<noteq> [] \<Longrightarrow> aq_tail q = int ((h + n) mod length (aq_array q))"
    "aq_abs s = ring_slice (aq_array q) h n" "aq_capacity s = length (aq_array q)"
  define xs where "xs = aq_array q"
  have n: "n < length xs" using assms(2) q(8,9) by (simp add: xs_def)
  then have ne: "aq_array q \<noteq> []" by (auto simp: xs_def)
  define t t' where "t = (h + n) mod length xs" and "t' = (h + Suc n) mod length xs"
  have t: "t < length xs" "t' < length xs" using n by (auto simp: t_def t'_def intro!: mod_less_divisor)
  have t': "(t + 1) mod length xs = t'" unfolding t'_def t_def by (simp add: mod_simps)
  have qt: "aq_tail q = int t" using q(7) [OF ne] by (simp add: t_def xs_def)
  define q' where "q' = q\<lparr>aq_num := int (Suc n), aq_array := xs[t := x], aq_tail := int t'\<rparr>"
  have l: "int (length xs) \<le> INT_MAX" using q(2,3) by (simp add: xs_def)
  have w: "wrap_index (aq_tail q) 1 (aq_size q) = Some (int t')"
    unfolding qt q(2) xs_def [symmetric] wrap_index_next [OF t(1) l] t' ..
  have nf: "\<not> array_queue_is_full q" using n q(2,4) by (simp add: array_queue_is_full_def xs_def)
  have s: "at_set (aq_array q) (aq_tail q) x = Some (xs[t := x])" using t(1) by (simp add: at_set_def aset_def qt xs_def)
  have "array_queue_enqueue s x = Some (0, Some q')"
    using nf w s q(1,4) by (simp add: array_queue_enqueue_def q'_def add.commute)
  moreover have "aq_inv (Some q')"
    unfolding aq_inv_def option.case
  proof (intro exI conjI)
    show "aq_size q' = int (length (aq_array q'))" "aq_size q' \<le> INT_MAX" using q(2,3) by (simp_all add: q'_def xs_def)
    show "aq_num q' = int (Suc n)" "aq_head q' = int h" "Suc n \<le> length (aq_array q')" using q(5) n by (simp_all add: q'_def)
    show "if aq_array q' = [] then h = 0 \<and> aq_tail q' = 0
        else h < length (aq_array q') \<and> aq_tail q' = int ((h + Suc n) mod length (aq_array q'))"
      using ne q(6) by (simp add: q'_def xs_def t'_def)
  qed
  moreover have "aq_abs (Some q') = aq_abs s @ [x]"
    using ring_slice_add [OF n, of h x] unfolding q(8)
    by (simp add: aq_abs_def q'_def q(5) t_def xs_def nat_add_distrib)
  moreover have "aq_capacity (Some q') = aq_capacity s" unfolding q(9) by (simp add: aq_capacity_def q'_def q(2))
  ultimately show ?thesis by blast
qed

lemma array_queue_enqueue_full:
  assumes "aq_inv s" "\<not> length (aq_abs s) < aq_capacity s"
  shows "array_queue_enqueue s x = Some (- 1, s)"
proof (rule aq_invE [OF assms(1)])
  fix q h n
  assume "s = Some q" "aq_size q = int (length (aq_array q))" "aq_num q = int n" "n \<le> length (aq_array q)"
    "aq_abs s = ring_slice (aq_array q) h n" "aq_capacity s = length (aq_array q)"
  then show ?thesis using assms(2) by (simp add: array_queue_enqueue_def array_queue_is_full_def)
qed

lemma array_queue_dequeue_ok:
  assumes "aq_inv s" "aq_abs s = x # ys"
  shows "\<exists>s'. array_queue_dequeue True s = Some (0, s', Some x) \<and> aq_inv s' \<and> aq_abs s' = ys \<and> aq_capacity s' = aq_capacity s"
proof (rule aq_invE [OF assms(1)])
  fix q h n
  assume q: "s = Some q" "aq_size q = int (length (aq_array q))" "aq_size q \<le> INT_MAX" "aq_num q = int n"
    "n \<le> length (aq_array q)" "aq_head q = int h" "aq_array q \<noteq> [] \<Longrightarrow> h < length (aq_array q)"
    "aq_array q \<noteq> [] \<Longrightarrow> aq_tail q = int ((h + n) mod length (aq_array q))"
    "aq_abs s = ring_slice (aq_array q) h n" "aq_capacity s = length (aq_array q)"
  define xs where "xs = aq_array q"
  obtain k where n: "n = Suc k" using arg_cong [OF assms(2), of length] q(9) by (cases n) auto
  have ne: "aq_array q \<noteq> []" using q(5) n by auto
  have h: "h < length xs" using q(7) [OF ne] by (simp add: xs_def)
  define h' where "h' = (h + 1) mod length xs"
  have h': "h' < length xs" using h by (auto simp: h'_def intro!: mod_less_divisor)
  have x: "xs ! h = x" "ring_slice xs h' k = ys"
    using assms(2) unfolding q(9) n xs_def [symmetric] ring_slice_remove [OF h] h'_def by simp_all
  define q' where "q' = q\<lparr>aq_num := int k, aq_head := int h'\<rparr>"
  have l: "int (length xs) \<le> INT_MAX" using q(2,3) by (simp add: xs_def)
  have w: "wrap_index (aq_head q) 1 (aq_size q) = Some (int h')"
    unfolding q(2,6) xs_def [symmetric] wrap_index_next [OF h l] h'_def ..
  have "array_queue_dequeue True s = Some (0, Some q', Some x)"
    using w x(1) q(1,4,6) h n
    by (simp add: array_queue_dequeue_def array_queue_is_empty_def at_get_def aget_def q'_def xs_def)
  moreover have "aq_inv (Some q')"
    unfolding aq_inv_def option.case
  proof (intro exI conjI)
    show "aq_size q' = int (length (aq_array q'))" "aq_size q' \<le> INT_MAX" using q(2,3) by (simp_all add: q'_def)
    show "aq_num q' = int k" "aq_head q' = int h'" "k \<le> length (aq_array q')" using q(5) n by (simp_all add: q'_def)
    have "(h' + k) mod length xs = (h + n) mod length xs" unfolding h'_def n by (simp add: mod_simps)
    then show "if aq_array q' = [] then h' = 0 \<and> aq_tail q' = 0
        else h' < length (aq_array q') \<and> aq_tail q' = int ((h' + k) mod length (aq_array q'))"
      using ne h' q(8) [OF ne] by (simp add: q'_def xs_def)
  qed
  moreover have "aq_abs (Some q') = ys" using x(2) by (simp add: aq_abs_def q'_def xs_def)
  moreover have "aq_capacity (Some q') = aq_capacity s" unfolding q(10) by (simp add: aq_capacity_def q'_def q(2))
  ultimately show ?thesis by blast
qed

lemma array_queue_dequeue_empty:
  assumes "aq_inv s" "aq_abs s = []"
  shows "array_queue_dequeue True s = Some (- 1, s, None)"
proof (rule aq_invE [OF assms(1)])
  fix q h n
  assume "s = Some q" "aq_num q = int n" "aq_abs s = ring_slice (aq_array q) h n"
  then show ?thesis using arg_cong [OF assms(2), of length]
    by (simp add: array_queue_dequeue_def array_queue_is_empty_def)
qed

interpretation aq: bounded_fifo aq_inv "\<lambda>s. length (aq_abs s) < aq_capacity s" aq_abs array_queue_enqueue
  "array_queue_dequeue True" aq_capacity
proof (unfold_locales, goal_cases)
  case (1 s x)
  then show ?case using array_queue_enqueue_ok by blast
next
  case (2 s x)
  then show ?case by (rule array_queue_enqueue_full)
next
  case (3 s x xs)
  then show ?case using array_queue_dequeue_ok by blast
next
  case (4 s)
  then show ?case by (rule array_queue_dequeue_empty)
next
  case (5 s)
  then show ?case by simp
next
  case (6 s x r s')
  then show ?case using array_queue_enqueue_ok [of s x] array_queue_enqueue_full [of s x]
    by (cases "length (aq_abs s) < aq_capacity s") auto
next
  case (7 s r s' y)
  then show ?case using array_queue_dequeue_ok [of s] array_queue_dequeue_empty [of s] by (cases "aq_abs s") fastforce+
qed

lemma array_queue_create_ok:
  assumes "wf_alloc A" "0 \<le> sz" "sz \<le> INT_MAX" "A (nat sz) \<noteq> None"
  shows "\<exists>q. array_queue_create True A sz = Some q \<and> aq_inv (Some q) \<and> aq_abs (Some q) = [] \<and> aq_capacity (Some q) = nat sz"
proof -
  obtain xs where xs: "A (nat sz) = Some xs" using assms(4) by auto
  then have "length xs = nat sz" using assms(1) by (simp add: wf_alloc_def)
  moreover from this have "xs \<noteq> [] \<longleftrightarrow> 0 < sz" by (metis length_greater_0_conv zero_less_nat_eq)
  ultimately show ?thesis using xs assms(2,3)
    by (auto simp: array_queue_create_def aq_inv_def aq_abs_def aq_capacity_def ring_slice_def)
qed

end
