(* ===== verification/ListQueue.thy ===== *)
theory ListQueue
  imports Fifo NodeHeap
begin

text \<open>
  The linked queue of \<open>DataStruct_learn/Queue/queue/list_queue\<close> on the store of nodes: a counter and the
  addresses of the first and the last node. A pointer to the queue is an \<open>option\<close>, \<open>None\<close> for NULL.
\<close>

section \<open>Definitions\<close>

record list_queue =
  lq_num :: int
  lq_head :: nat
  lq_tail :: nat

definition list_queue_is_empty :: "list_queue \<Rightarrow> bool" where
  "list_queue_is_empty q \<longleftrightarrow> lq_num q = 0"

text \<open>The flag says whether the structure can be allocated.\<close>

definition list_queue_create :: "bool \<Rightarrow> list_queue option" where
  "list_queue_create m = (if m then Some \<lparr>lq_num = 0, lq_head = NULL, lq_tail = NULL\<rparr> else None)"

definition list_queue_enqueue :: "node_alloc \<Rightarrow> heap \<Rightarrow> list_queue option \<Rightarrow> int \<Rightarrow> (int \<times> heap \<times> list_queue option) option" where
  "list_queue_enqueue A h queue data =
     (case queue of
        None \<Rightarrow> Some (- 1, h, queue)
      | Some q \<Rightarrow>
          (case A h of
             None \<Rightarrow> Some (- 1, h, queue)
           | Some (ptmp, n) \<Rightarrow> do {
               let h = h(ptmp \<mapsto> n\<lparr>nd_data := data, nd_next := NULL\<rparr>);
               (h, q) \<leftarrow> (if lq_head q = NULL then Some (h, q\<lparr>lq_head := ptmp\<rparr>)
                  else do { h \<leftarrow> store h (lq_tail q) (nd_next_update (\<lambda>_. ptmp)); Some (h, q) });
               Some (0, h, Some (q\<lparr>lq_tail := ptmp, lq_num := c_int (lq_num q + 1)\<rparr>)) }))"

text \<open>The flag says whether the argument \<open>data\<close> is a pointer other than NULL.\<close>

definition list_queue_dequeue ::
  "bool \<Rightarrow> heap \<Rightarrow> list_queue option \<Rightarrow> (int \<times> heap \<times> list_queue option \<times> int option) option" where
  "list_queue_dequeue data h queue =
     (case queue of
        None \<Rightarrow> Some (- 1, h, queue, None)
      | Some q \<Rightarrow>
          if \<not> data \<or> list_queue_is_empty q then Some (- 1, h, queue, None)
          else do {
            n \<leftarrow> load h (lq_head q);
            let ptmp = lq_head q;
            let q = q\<lparr>lq_head := nd_next n, lq_num := c_int (lq_num q - 1)\<rparr>;
            let q = (if lq_head q = NULL then q\<lparr>lq_tail := NULL\<rparr> else q);
            h \<leftarrow> free_node h ptmp;
            Some (0, h, Some q, Some (nd_data n)) })"

text \<open>
  \<open>list_queue_destroy\<close> removes the elements and frees the structure; the flag in the result says whether
  the structure was freed.
\<close>

partial_function (option) lq_drain :: "heap \<Rightarrow> list_queue \<Rightarrow> (heap \<times> list_queue) option" where
  "lq_drain h q =
     (if \<not> list_queue_is_empty q then do {
        (r, h, queue, x) \<leftarrow> list_queue_dequeue True h (Some q);
        q \<leftarrow> queue;
        lq_drain h q }
      else Some (h, q))"

definition list_queue_destroy :: "heap \<Rightarrow> list_queue option \<Rightarrow> (heap \<times> bool) option" where
  "list_queue_destroy h queue =
     (case queue of
        None \<Rightarrow> Some (h, False)
      | Some q \<Rightarrow>
          if list_queue_is_empty q then Some (h, False)
          else do { (h, q) \<leftarrow> lq_drain h q; Some (h, True) })"

text \<open>The pairs of number and datum that \<open>list_queue_dump\<close> prints.\<close>

partial_function (option) lq_dump_loop :: "heap \<Rightarrow> nat \<Rightarrow> int \<Rightarrow> (int \<times> int) list option" where
  "lq_dump_loop h ptmp i =
     (if ptmp \<noteq> NULL then do {
        n \<leftarrow> load h ptmp;
        ls \<leftarrow> lq_dump_loop h (nd_next n) (c_int (i + 1));
        Some ((i, nd_data n) # ls) }
      else Some [])"

definition list_queue_dump :: "heap \<Rightarrow> list_queue option \<Rightarrow> (int \<times> int) list option" where
  "list_queue_dump h queue =
     (case queue of
        None \<Rightarrow> Some []
      | Some q \<Rightarrow> if list_queue_is_empty q then Some [] else lq_dump_loop h (lq_head q) 0)"

declare lq_drain.simps [code] lq_dump_loop.simps [code]

section \<open>Invariant\<close>

text \<open>Memory has room for at most \<open>INT_MAX\<close> nodes, so that the counter does not overflow.\<close>

definition countable_memory :: "node_alloc \<Rightarrow> bool" where
  "countable_memory A \<longleftrightarrow> (\<forall>h a n. A h = Some (a, n) \<longrightarrow> int a \<le> INT_MAX)"

definition lq_rep :: "heap \<Rightarrow> list_queue \<Rightarrow> nat list \<Rightarrow> bool" where
  "lq_rep h q as \<longleftrightarrow> chain h (lq_head q) as NULL \<and> distinct as \<and> lq_num q = int (length as) \<and>
     (\<forall>a\<in>set as. int a \<le> INT_MAX) \<and> (as \<noteq> [] \<longrightarrow> lq_tail q = last as)"

type_synonym lq_state = "heap \<times> list_queue option"

definition lq_inv :: "node_alloc \<Rightarrow> lq_state \<Rightarrow> bool" where
  "lq_inv A s \<longleftrightarrow> wf_malloc A \<and> countable_memory A \<and>
     (case snd s of None \<Rightarrow> False | Some q \<Rightarrow> \<exists>as. lq_rep (fst s) q as)"

text \<open>The contents are what \<open>list_queue_dump\<close> prints.\<close>

definition lq_abs :: "lq_state \<Rightarrow> int list" where
  "lq_abs s = (case list_queue_dump (fst s) (snd s) of None \<Rightarrow> [] | Some ls \<Rightarrow> map snd ls)"

definition lq_enq :: "node_alloc \<Rightarrow> lq_state \<Rightarrow> int \<Rightarrow> (int \<times> lq_state) option" where
  "lq_enq A s x = list_queue_enqueue A (fst s) (snd s) x"

definition lq_deq :: "lq_state \<Rightarrow> (int \<times> lq_state \<times> int option) option" where
  "lq_deq s = map_option (\<lambda>(r, h, q, x). (r, (h, q), x)) (list_queue_dequeue True (fst s) (snd s))"

lemma lq_dump_loop_eq: "chain h p as NULL \<Longrightarrow> map_option (map snd) (lq_dump_loop h p i) = Some (elems h as)"
proof (induction as arbitrary: p i)
  case Nil
  then show ?case by (subst lq_dump_loop.simps) simp
next
  case (Cons a as)
  show ?case
  proof (rule chain_load [OF Cons.prems])
    fix n assume n: "load h a = Some n" "p = a" "a \<noteq> NULL" "h a = Some n" "chain h (nd_next n) as NULL"
    obtain ls where "lq_dump_loop h (nd_next n) (c_int (i + 1)) = Some ls" "map snd ls = elems h as"
      using Cons.IH [OF n(5), of "c_int (i + 1)"] by auto
    then show ?thesis using n by (subst lq_dump_loop.simps) simp
  qed
qed

lemma lq_abs_rep: "lq_rep h q as \<Longrightarrow> lq_abs (h, Some q) = elems h as"
  using lq_dump_loop_eq [of h "lq_head q" as 0]
  by (auto simp: lq_abs_def list_queue_dump_def list_queue_is_empty_def lq_rep_def)

section \<open>The operations\<close>

lemma length_below:
  assumes "distinct as" "\<forall>a\<in>set as. a \<noteq> NULL \<and> int a \<le> m"
  shows "int (length as) \<le> max 0 m"
proof -
  have "set as \<subseteq> {1..nat m}" using assms(2) by (fastforce simp: nat_le_iff)
  then have "length as \<le> nat m" using card_mono [of "{1..nat m}" "set as"] assms(1) by (simp add: distinct_card)
  then show ?thesis by linarith
qed

lemma lq_rep_length: "lq_rep h q as \<Longrightarrow> int (length as) \<le> INT_MAX"
  using length_below [of as INT_MAX] chain_in_heap [of h "lq_head q" as NULL] by (auto simp: lq_rep_def INT_MAX_def)

lemma lq_enq_ok:
  assumes "lq_inv A s" "A (fst s) \<noteq> None"
  shows "\<exists>s'. lq_enq A s x = Some (0, s') \<and> lq_inv A s' \<and> lq_abs s' = lq_abs s @ [x]"
proof -
  obtain h q as where s: "s = (h, Some q)" and r: "lq_rep h q as"
    using assms(1) by (cases s) (auto simp: lq_inv_def split: option.splits)
  have A: "wf_malloc A" "countable_memory A" using assms(1) by (simp_all add: lq_inv_def s)
  obtain p n where p: "A h = Some (p, n)" using assms(2) by (auto simp: s)
  then have pf: "p \<noteq> NULL" "h p = None" "int p \<le> INT_MAX" using A by (simp_all add: wf_malloc_def countable_memory_def) blast+
  have pa: "p \<notin> set as" using chain_in_heap [of h "lq_head q" as NULL p] r pf(2) by (auto simp: lq_rep_def)
  have room: "int (length (as @ [p])) \<le> INT_MAX"
    using length_below [of "as @ [p]" INT_MAX] chain_in_heap [of h "lq_head q" as NULL] r pa pf
    by (auto simp: lq_rep_def INT_MAX_def)
  have c: "c_int (lq_num q + 1) = int (length (as @ [p]))"
    using c_int_id [of "int (length as) + 1"] room r by (simp add: lq_rep_def INT_MAX_def)
  define h1 where "h1 = h(p \<mapsto> n\<lparr>nd_data := x, nd_next := NULL\<rparr>)"
  have "\<exists>h2 q2. lq_enq A s x = Some (0, h2, Some q2) \<and> lq_rep h2 q2 (as @ [p]) \<and> elems h2 as = elems h as \<and>
      nd_data (the (h2 p)) = x"
  proof (cases as rule: rev_cases)
    case Nil
    then have "lq_head q = NULL" using r by (simp add: lq_rep_def)
    then have "lq_enq A s x = Some (0, h1, Some (q\<lparr>lq_head := p, lq_tail := p, lq_num := c_int (lq_num q + 1)\<rparr>))"
      using p by (simp add: lq_enq_def list_queue_enqueue_def s h1_def)
    then show ?thesis using Nil pf r c by (auto simp: lq_rep_def h1_def INT_MAX_def)
  next
    case (snoc bs t)
    have tl: "lq_tail q = t" "distinct (bs @ [t])" using r snoc by (simp_all add: lq_rep_def)
    obtain m where m: "chain h (lq_head q) bs t" "t \<noteq> NULL" "h t = Some m"
      using r snoc by (auto simp: lq_rep_def chain_append split: option.splits)
    have hd: "lq_head q \<noteq> NULL" using m(1,2) by (cases bs) auto
    have tp: "t \<noteq> p" "p \<notin> set bs" using pa snoc by auto
    define h2 where "h2 = h1(t \<mapsto> m\<lparr>nd_next := p\<rparr>)"
    have st: "store h1 t (nd_next_update (\<lambda>_. p)) = Some h2"
      using store_upd [of h1 t m] m(2,3) tp by (simp add: h1_def h2_def)
    have e: "lq_enq A s x = Some (0, h2, Some (q\<lparr>lq_tail := p, lq_num := c_int (lq_num q + 1)\<rparr>))"
      using p hd tl(1) st by (simp add: lq_enq_def list_queue_enqueue_def s h1_def)
    have v: "h2 t = Some (m\<lparr>nd_next := p\<rparr>)" "h2 p = Some (n\<lparr>nd_data := x, nd_next := NULL\<rparr>)"
      using tp by (simp_all add: h2_def h1_def)
    have "chain h2 (lq_head q) bs t" using m(1) tl(2) tp by (simp add: h2_def h1_def)
    then have ch: "chain h2 (lq_head q) (bs @ [t, p]) NULL"
      using v m(2) pf(1) by (intro chain_append [THEN iffD2] exI [of _ t]) simp
    have "elems h2 as = elems h as" using tl(2) tp m(3) snoc by (simp add: h2_def h1_def)
    then show ?thesis using e ch c tl(2) tp pa snoc r pf(3) v(2) by (auto simp: lq_rep_def INT_MAX_def)
  qed
  then obtain h2 q2 where h2: "lq_enq A s x = Some (0, h2, Some q2)" "lq_rep h2 q2 (as @ [p])" "elems h2 as = elems h as"
    "nd_data (the (h2 p)) = x" by blast
  have "lq_inv A (h2, Some q2)" using assms(1) h2(2) by (auto simp: lq_inv_def)
  moreover have "lq_abs (h2, Some q2) = lq_abs s @ [x]" using lq_abs_rep [OF h2(2)] lq_abs_rep [OF r] h2(3,4) by (simp add: s)
  ultimately show ?thesis using h2(1) by blast
qed

lemma lq_enq_full: "lq_inv A s \<Longrightarrow> \<not> A (fst s) \<noteq> None \<Longrightarrow> lq_enq A s x = Some (- 1, s)"
  by (cases s) (auto simp: lq_inv_def lq_enq_def list_queue_enqueue_def split: option.splits)

lemma lq_deq_rep:
  assumes "lq_rep h q (a # as)"
  shows "\<exists>q' n. list_queue_dequeue True h (Some q) = Some (0, h(a := None), Some q', Some (nd_data n)) \<and> h a = Some n \<and>
    lq_rep (h(a := None)) q' as"
proof -
  have c: "chain h (lq_head q) (a # as) NULL" "distinct (a # as)" "lq_num q = int (length (a # as))"
    "\<forall>a\<in>set as. int a \<le> INT_MAX" "lq_tail q = last (a # as)"
    using assms by (auto simp: lq_rep_def)
  have n: "c_int (lq_num q - 1) = int (length as)" using c(3) lq_rep_length [OF assms] c_int_id [of "int (length as)"] by (simp add: INT_MAX_def)
  show ?thesis
  proof (rule chain_load [OF c(1)])
    fix n assume n': "load h a = Some n" "lq_head q = a" "a \<noteq> NULL" "h a = Some n" "chain h (nd_next n) as NULL"
    define q1 where "q1 = q\<lparr>lq_head := nd_next n, lq_num := c_int (lq_num q - 1)\<rparr>"
    define q' where "q' = (if nd_next n = NULL then q1\<lparr>lq_tail := NULL\<rparr> else q1)"
    have "list_queue_dequeue True h (Some q) = Some (0, h(a := None), Some q', Some (nd_data n))"
      using n' c(3) by (simp add: list_queue_dequeue_def list_queue_is_empty_def free_in q'_def q1_def Let_def)
    moreover have "lq_rep (h(a := None)) q' as"
      using n'(5) c(2,4,5) n chain_NULL [OF n'(5)] by (auto simp: lq_rep_def q'_def q1_def)
    ultimately show ?thesis using n'(4) by blast
  qed
qed

lemma lq_deq_ok:
  assumes "lq_inv A s" "lq_abs s = x # xs"
  shows "\<exists>s'. lq_deq s = Some (0, s', Some x) \<and> lq_inv A s' \<and> lq_abs s' = xs"
proof -
  obtain h q as where s: "s = (h, Some q)" and r: "lq_rep h q as"
    using assms(1) by (cases s) (auto simp: lq_inv_def split: option.splits)
  obtain a bs where as: "as = a # bs" using assms(2) lq_abs_rep [OF r] by (cases as) (auto simp: s)
  obtain q' n where q': "list_queue_dequeue True h (Some q) = Some (0, h(a := None), Some q', Some (nd_data n))" "h a = Some n"
    "lq_rep (h(a := None)) q' bs"
    using lq_deq_rep [OF r [unfolded as]] by blast
  have "a \<notin> set bs" using r as by (auto simp: lq_rep_def)
  then have "lq_abs (h(a := None), Some q') = xs" "nd_data n = x"
    using lq_abs_rep [OF q'(3)] lq_abs_rep [OF r] assms(2) as q'(2) by (simp_all add: s)
  moreover have "lq_inv A (h(a := None), Some q')" using assms(1) q'(3) by (auto simp: lq_inv_def s)
  ultimately show ?thesis using q'(1) by (auto simp: lq_deq_def s)
qed

lemma lq_deq_empty: "lq_inv A s \<Longrightarrow> lq_abs s = [] \<Longrightarrow> lq_deq s = Some (- 1, s, None)"
proof -
  assume a: "lq_inv A s" "lq_abs s = []"
  obtain h q as where s: "s = (h, Some q)" and r: "lq_rep h q as"
    using a(1) by (cases s) (auto simp: lq_inv_def split: option.splits)
  have "as = []" using a(2) arg_cong [OF lq_abs_rep [OF r], of length] by (simp add: s)
  then show ?thesis using r by (simp add: lq_deq_def list_queue_dequeue_def list_queue_is_empty_def lq_rep_def s)
qed

interpretation lq: fifo "lq_inv A" "\<lambda>s. A (fst s) \<noteq> None" lq_abs "lq_enq A" lq_deq for A
proof (unfold_locales, goal_cases)
  case (1 s x)
  then show ?case by (rule lq_enq_ok)
next
  case (2 s x)
  then show ?case by (rule lq_enq_full)
next
  case (3 s x xs)
  then show ?case by (rule lq_deq_ok)
next
  case (4 s)
  then show ?case by (rule lq_deq_empty)
qed

text \<open>Draining the queue releases its nodes.\<close>

lemma lq_drain_eq: "lq_rep h q as \<Longrightarrow> \<exists>q'. lq_drain h q = Some (h |` (- set as), q')"
proof (induction as arbitrary: h q)
  case Nil
  then show ?case by (subst lq_drain.simps) (simp add: list_queue_is_empty_def lq_rep_def restrict_map_def)
next
  case (Cons a as)
  obtain q1 n where q1: "list_queue_dequeue True h (Some q) = Some (0, h(a := None), Some q1, Some (nd_data n))"
    "h a = Some n" "lq_rep (h(a := None)) q1 as"
    using lq_deq_rep [OF Cons.prems] by blast
  have "\<not> list_queue_is_empty q" using Cons.prems by (simp add: list_queue_is_empty_def lq_rep_def)
  then have "lq_drain h q = lq_drain (h(a := None)) q1" using q1(1) by (subst lq_drain.simps) simp
  moreover obtain q' where "lq_drain (h(a := None)) q1 = Some ((h(a := None)) |` (- set as), q')"
    using Cons.IH [OF q1(3)] by blast
  moreover have "(h(a := None)) |` (- set as) = h |` (- set (a # as))" by (auto simp: restrict_map_def)
  ultimately show ?case by metis
qed

section \<open>Property\<close>

text \<open>
  C24 (the linked queue keeps the order and its memory). From a new queue every sequence of calls returns,
  also when memory runs out; what came out followed by what is left is what was accepted, in
  that order; and \<open>list_queue_destroy\<close> then releases exactly the nodes of the queue, but the structure
  itself only if the queue is not empty.
\<close>
theorem list_queue_fifo:
  assumes "wf_malloc A" "countable_memory A"
  shows "\<exists>q os h q'. list_queue_create True = Some q \<and>
    run_queue (lq_enq A) lq_deq cs (h0, Some q) = Some (os, h, Some q') \<and>
    delivered os @ lq_abs (h, Some q') = accepted cs os \<and>
    (\<exists>as. lq_rep h q' as \<and> list_queue_destroy h (Some q') = Some (h |` (- set as), as \<noteq> []))"
proof -
  define q where "q = \<lparr>lq_num = 0, lq_head = NULL, lq_tail = NULL\<rparr>"
  have r: "lq_rep h0 q []" by (simp add: lq_rep_def q_def INT_MAX_def)
  then have "lq_inv A (h0, Some q)" "lq_abs (h0, Some q) = []"
    using assms lq_abs_rep [OF r] by (auto simp: lq_inv_def)
  then obtain os s where s: "run_queue (lq_enq A) lq_deq cs (h0, Some q) = Some (os, s)" "lq_inv A s"
    "delivered os @ lq_abs s = accepted cs os"
    using lq.run_conserves [of A "(h0, Some q)" cs] by auto
  obtain h q' as where h: "s = (h, Some q')" "lq_rep h q' as"
    using s(2) by (cases s) (auto simp: lq_inv_def split: option.splits)
  have "list_queue_destroy h (Some q') = Some (h |` (- set as), as \<noteq> [])"
  proof (cases "as = []")
    case True
    then show ?thesis using h(2) by (simp add: list_queue_destroy_def list_queue_is_empty_def lq_rep_def restrict_map_def)
  next
    case False
    then show ?thesis using lq_drain_eq [OF h(2)] h(2)
      by (auto simp: list_queue_destroy_def list_queue_is_empty_def lq_rep_def)
  qed
  then show ?thesis using s h by (auto simp: list_queue_create_def q_def)
qed

text \<open>A memory with two cells.\<close>

definition two_cells :: node_alloc where
  "two_cells h = (if h 1 = None then Some (1, \<lparr>nd_data = 7, nd_next = 9\<rparr>)
     else if h 2 = None then Some (2, \<lparr>nd_data = 7, nd_next = 9\<rparr>) else None)"

lemma two_cells_ok: "wf_malloc two_cells" "countable_memory two_cells"
  by (auto simp: wf_malloc_def countable_memory_def two_cells_def INT_MAX_def split: if_splits)

theorem list_queue_fifo_witness:
  "wf_malloc two_cells \<and> countable_memory two_cells \<and>
   (\<exists>q os h q'. list_queue_create True = Some q \<and>
     run_queue (lq_enq two_cells) lq_deq [Enq 5, Enq 6, Enq 8, Deq, Enq 9] (Map.empty, Some q) = Some (os, h, Some q') \<and>
     os = [(0, None), (0, None), (- 1, None), (0, Some 5), (0, None)] \<and> lq_abs (h, Some q') = [6, 9] \<and>
     delivered os @ lq_abs (h, Some q') = accepted [Enq 5, Enq 6, Enq 8, Deq, Enq 9] os \<and>
     (\<exists>as. lq_rep h q' as \<and> list_queue_destroy h (Some q') = Some (h |` (- set as), as \<noteq> [])))"
proof -
  let ?cs = "[Enq 5, Enq 6, Enq 8, Deq, Enq 9]"
  obtain q os h q' where w: "list_queue_create True = Some q"
    "run_queue (lq_enq two_cells) lq_deq ?cs (Map.empty, Some q) = Some (os, h, Some q')"
    "delivered os @ lq_abs (h, Some q') = accepted ?cs os"
    "\<exists>as. lq_rep h q' as \<and> list_queue_destroy h (Some q') = Some (h |` (- set as), as \<noteq> [])"
    using list_queue_fifo [OF two_cells_ok, of ?cs Map.empty] by blast
  then have os: "os = [(0, None), (0, None), (- 1, None), (0, Some 5), (0, None)]"
    by (auto simp: list_queue_create_def lq_enq_def lq_deq_def list_queue_enqueue_def list_queue_dequeue_def
        list_queue_is_empty_def two_cells_def store_def load_def free_node_def c_int_def)
  then have "lq_abs (h, Some q') = [6, 9]" using w(3) by simp
  then show ?thesis using w os two_cells_ok by blast
qed

end
