(* ===== verification/RWLock.thy ===== *)
theory RWLock
  imports Prelude "HOL-Library.Word"
begin

unbundle bit_operations_syntax

text \<open>
  The ticket lock for readers and writers of \<open>DataStruct_learn/Tree/lsm-trie/rwlock.c\<close>. A section of the
  code between taking the mutex, at the start of a call or when \<open>pthread_cond_wait\<close> returns, and giving
  it up, at the end of the call or in \<open>pthread_cond_wait\<close>, is one function and one step of the thread that
  runs it. A thread in \<open>pthread_cond_wait\<close> runs again after a broadcast on its condition variable or,
  as POSIX permits, without one. \<open>N\<close> threads use one lock.
\<close>

section \<open>Definitions\<close>

record ReaderLock =
  nr_readers :: "64 word"
  is_open :: bool

record RWLock =
  next_ticket :: "64 word"
  reader_ticket :: "64 word"
  writer_ticket :: "64 word"
  rl :: "ReaderLock list"

definition rwlock_initial :: RWLock where
  "rwlock_initial = \<lparr>next_ticket = 0, reader_ticket = 0, writer_ticket = 0,
     rl = [\<lparr>nr_readers = 0, is_open = True\<rparr>, \<lparr>nr_readers = 0, is_open = False\<rparr>]\<rparr>"

text \<open>The condition variables, \<open>Cond_reader k\<close> that of \<open>rl[k]\<close>.\<close>

datatype cond_var = Cond_writer | Cond_reader nat

text \<open>
  Where a thread is: outside, in one of the three waiting loops (the flag says that it is blocked in
  \<open>pthread_cond_wait\<close>), holding the lock, or stopped by a failed assertion. The tickets are its local
  variables.
\<close>

datatype pc =
    Idle
  | ReaderWait "64 word" bool
  | Reading "64 word"
  | WriterWait "64 word" bool
  | WriterDrain "64 word" bool
  | Writing "64 word"
  | Aborted

definition room :: "64 word \<Rightarrow> nat" where
  "room ticket = unat (ticket AND 1)"

abbreviation upd_rl :: "nat \<Rightarrow> (ReaderLock \<Rightarrow> ReaderLock) \<Rightarrow> RWLock \<Rightarrow> RWLock" where
  "upd_rl k f bo \<equiv> bo\<lparr>rl := (rl bo)[k := f (rl bo ! k)]\<rparr>"

definition reader_wait_loop :: "RWLock \<Rightarrow> 64 word \<Rightarrow> pc" where
  "reader_wait_loop bo ticket = (if is_open (rl bo ! room ticket) = False then ReaderWait ticket True else Reading ticket)"

definition rwlock_reader_lock :: "RWLock \<Rightarrow> RWLock \<times> pc" where
  "rwlock_reader_lock bo =
     (let ticket = reader_ticket bo;
          bo = upd_rl (room ticket) (nr_readers_update (\<lambda>n. n + 1)) bo
      in (bo, reader_wait_loop bo ticket))"

definition rwlock_reader_unlock :: "RWLock \<Rightarrow> 64 word \<Rightarrow> RWLock \<times> pc \<times> cond_var list" where
  "rwlock_reader_unlock bo ticket =
     (if nr_readers (rl bo ! room ticket) = 0 then (bo, Aborted, [])
      else
        let bo = upd_rl (room ticket) (nr_readers_update (\<lambda>n. n - 1)) bo
        in (bo, Idle, if nr_readers (rl bo ! room ticket) = 0 then [Cond_writer] else []))"

definition writer_drain_loop :: "RWLock \<Rightarrow> 64 word \<Rightarrow> RWLock \<times> pc" where
  "writer_drain_loop bo ticket =
     (if nr_readers (rl bo ! room ticket) > 0 then (bo, WriterDrain ticket True)
      else (upd_rl (room ticket) (is_open_update (\<lambda>_. False)) bo, Writing ticket))"

definition writer_wait_loop :: "RWLock \<Rightarrow> 64 word \<Rightarrow> RWLock \<times> pc" where
  "writer_wait_loop bo ticket =
     (if ticket \<noteq> writer_ticket bo then (bo, WriterWait ticket True)
      else if reader_ticket bo \<noteq> writer_ticket bo then (bo, Aborted)
      else writer_drain_loop (bo\<lparr>reader_ticket := reader_ticket bo + 1\<rparr>) ticket)"

definition rwlock_writer_lock :: "RWLock \<Rightarrow> RWLock \<times> pc" where
  "rwlock_writer_lock bo =
     (let ticket = next_ticket bo
      in writer_wait_loop (bo\<lparr>next_ticket := next_ticket bo + 1\<rparr>) ticket)"

definition rwlock_writer_unlock :: "RWLock \<Rightarrow> 64 word \<Rightarrow> RWLock \<times> pc \<times> cond_var list" where
  "rwlock_writer_unlock bo ticket =
     (if nr_readers (rl bo ! room ticket) \<noteq> 0 then (bo, Aborted, [])
      else
        let k = room (ticket + 1);
            bo = upd_rl k (is_open_update (\<lambda>_. True)) bo;
            cs = (if nr_readers (rl bo ! k) > 0 then [Cond_reader k] else [])
        in (bo\<lparr>writer_ticket := writer_ticket bo + 1\<rparr>, Idle, cs @ [Cond_writer]))"

text \<open>What a broadcast does to a thread.\<close>

fun wake :: "cond_var list \<Rightarrow> pc \<Rightarrow> pc" where
  "wake cs (ReaderWait t b) = ReaderWait t (b \<and> Cond_reader (room t) \<notin> set cs)"
| "wake cs (WriterWait t b) = WriterWait t (b \<and> Cond_writer \<notin> set cs)"
| "wake cs (WriterDrain t b) = WriterDrain t (b \<and> Cond_writer \<notin> set cs)"
| "wake cs p = p"

type_synonym system = "RWLock \<times> (nat \<Rightarrow> pc)"

text \<open>A thread that is outside calls one of the two lock functions.\<close>

inductive call :: "nat \<Rightarrow> system \<Rightarrow> system \<Rightarrow> bool" for N where
  reader_lock: "i < N \<Longrightarrow> th i = Idle \<Longrightarrow> rwlock_reader_lock bo = (bo', p) \<Longrightarrow> call N (bo, th) (bo', th(i := p))"
| writer_lock: "i < N \<Longrightarrow> th i = Idle \<Longrightarrow> rwlock_writer_lock bo = (bo', p) \<Longrightarrow> call N (bo, th) (bo', th(i := p))"

text \<open>A thread inside goes on: it takes the mutex again after it was woken, or it unlocks.\<close>

inductive run :: "nat \<Rightarrow> system \<Rightarrow> system \<Rightarrow> bool" for N where
  reader_woken: "i < N \<Longrightarrow> th i = ReaderWait t False \<Longrightarrow> run N (bo, th) (bo, th(i := reader_wait_loop bo t))"
| writer_woken: "i < N \<Longrightarrow> th i = WriterWait t False \<Longrightarrow> writer_wait_loop bo t = (bo', p) \<Longrightarrow>
    run N (bo, th) (bo', th(i := p))"
| drain_woken: "i < N \<Longrightarrow> th i = WriterDrain t False \<Longrightarrow> writer_drain_loop bo t = (bo', p) \<Longrightarrow>
    run N (bo, th) (bo', th(i := p))"
| reader_unlock: "i < N \<Longrightarrow> th i = Reading t \<Longrightarrow> rwlock_reader_unlock bo t = (bo', p, cs) \<Longrightarrow>
    run N (bo, th) (bo', wake cs \<circ> th(i := p))"
| writer_unlock: "i < N \<Longrightarrow> th i = Writing t \<Longrightarrow> rwlock_writer_unlock bo t = (bo', p, cs) \<Longrightarrow>
    run N (bo, th) (bo', wake cs \<circ> th(i := p))"

text \<open>A spurious wake-up.\<close>

inductive spurious :: "nat \<Rightarrow> system \<Rightarrow> system \<Rightarrow> bool" for N where
  "i < N \<Longrightarrow> spurious N (bo, th) (bo, th(i := wake [Cond_writer, Cond_reader 0, Cond_reader 1] (th i)))"

inductive reachable :: "nat \<Rightarrow> system \<Rightarrow> bool" for N where
  start: "reachable N (rwlock_initial, \<lambda>_. Idle)"
| step: "reachable N s \<Longrightarrow> call N s s' \<or> run N s s' \<or> spurious N s s' \<Longrightarrow> reachable N s'"


section \<open>Rooms and tickets\<close>

lemma room_cases: "room t = 0 \<or> room t = 1"
proof -
  have "t AND 1 = of_bool (odd t)" by (simp add: and_one_eq odd_iff_mod_2_eq_one)
  then show ?thesis by (auto simp: room_def)
qed

lemma room_less [simp]: "room t < 2"
  using room_cases [of t] by auto

lemma room_next: "room (t + 1) = 1 - room t"
proof -
  have r: "room x = of_bool (odd x)" for x :: "64 word"
    by (simp add: room_def and_one_eq odd_iff_mod_2_eq_one)
  show ?thesis by (simp add: r)
qed

lemma room_other: "room t = room (w + 1) \<longleftrightarrow> room t \<noteq> room w"
  using room_cases [of t] room_cases [of w] by (auto simp: room_next)

lemma unat_next: "unat (x :: 64 word) + 1 < 2 ^ 64 \<Longrightarrow> unat (x + 1) = Suc (unat x)"
  by (simp add: unat_word_ariths)

primrec tk :: "pc \<Rightarrow> 64 word" where
  "tk Idle = 0" | "tk (ReaderWait t b) = t" | "tk (Reading t) = t" | "tk (WriterWait t b) = t" | "tk (WriterDrain t b) = t"
| "tk (Writing t) = t" | "tk Aborted = 0"

primrec reads :: "pc \<Rightarrow> bool" where
  "reads Idle = False" | "reads (ReaderWait t b) = True" | "reads (Reading t) = True" | "reads (WriterWait t b) = False"
| "reads (WriterDrain t b) = False" | "reads (Writing t) = False" | "reads Aborted = False"

primrec writes :: "pc \<Rightarrow> bool" where
  "writes Idle = False" | "writes (ReaderWait t b) = False" | "writes (Reading t) = False" | "writes (WriterWait t b) = True"
| "writes (WriterDrain t b) = True" | "writes (Writing t) = True" | "writes Aborted = False"

text \<open>The writer whose turn it is.\<close>

primrec turn :: "pc \<Rightarrow> bool" where
  "turn Idle = False" | "turn (ReaderWait t b) = False" | "turn (Reading t) = False" | "turn (WriterWait t b) = False"
| "turn (WriterDrain t b) = True" | "turn (Writing t) = True" | "turn Aborted = False"

definition reading :: "pc \<Rightarrow> bool" where
  "reading p = (case p of Reading t \<Rightarrow> True | _ \<Rightarrow> False)"

definition writing :: "pc \<Rightarrow> bool" where
  "writing p = (case p of Writing t \<Rightarrow> True | _ \<Rightarrow> False)"

lemma inside_simps [simp]:
  "reading (Reading t)" "\<not> reading Idle" "\<not> reading (ReaderWait t b)" "\<not> reading (WriterWait t b)" "\<not> reading (WriterDrain t b)"
  "\<not> reading (Writing t)" "writing (Writing t)" "\<not> writing Idle" "\<not> writing (ReaderWait t b)" "\<not> writing (WriterWait t b)"
  "\<not> writing (WriterDrain t b)" "\<not> writing (Reading t)"
  "\<not> reading Aborted" "\<not> writing Aborted"
  by (simp_all add: reading_def writing_def)

lemma inside_impl: "reading p \<Longrightarrow> reads p" "writing p \<Longrightarrow> turn p" "turn p \<Longrightarrow> writes p" "writes p \<Longrightarrow> \<not> reads p"
  by (cases p; simp)+

text \<open>A thread blocked in \<open>pthread_cond_wait\<close>, and the condition it waits for.\<close>

primrec asleep :: "pc \<Rightarrow> bool" where
  "asleep Idle = False" | "asleep (ReaderWait t b) = b" | "asleep (Reading t) = False" | "asleep (WriterWait t b) = b"
| "asleep (WriterDrain t b) = b" | "asleep (Writing t) = False" | "asleep Aborted = False"

primrec ready :: "RWLock \<Rightarrow> pc \<Rightarrow> bool" where
  "ready bo Idle = True" | "ready bo (ReaderWait t b) = is_open (rl bo ! room t)" | "ready bo (Reading t) = True"
| "ready bo (WriterWait t b) = (t = writer_ticket bo)" | "ready bo (WriterDrain t b) = (nr_readers (rl bo ! room t) = 0)"
| "ready bo (Writing t) = True" | "ready bo Aborted = True"

lemma wake_simps [simp]:
  "tk (wake cs p) = tk p" "reads (wake cs p) = reads p" "writes (wake cs p) = writes p" "turn (wake cs p) = turn p"
  "reading (wake cs p) = reading p" "writing (wake cs p) = writing p"
  "wake cs p = Idle \<longleftrightarrow> p = Idle" "wake cs p = Aborted \<longleftrightarrow> p = Aborted" "asleep (wake cs p) \<Longrightarrow> asleep p"
  by (cases p; auto)+

lemma asleep_wake:
  "asleep (wake cs p) \<Longrightarrow> asleep p \<and> (case p of ReaderWait t b \<Rightarrow> Cond_reader (room t) \<notin> set cs | _ \<Rightarrow> Cond_writer \<notin> set cs)"
  by (cases p) auto

section \<open>The invariant\<close>

definition readers :: "(nat \<Rightarrow> pc) \<Rightarrow> nat \<Rightarrow> nat set" where
  "readers th k = {i. reads (th i) \<and> room (tk (th i)) = k}"

definition threads_inv :: "nat \<Rightarrow> (nat \<Rightarrow> pc) \<Rightarrow> bool" where
  "threads_inv N th \<longleftrightarrow> (\<forall>i. N \<le> i \<longrightarrow> th i = Idle) \<and> (\<forall>i. th i \<noteq> Aborted)"

text \<open>The writers hold the tickets from \<open>writer_ticket\<close> to \<open>next_ticket\<close>, each once.\<close>

definition queue_inv :: "RWLock \<Rightarrow> (nat \<Rightarrow> pc) \<Rightarrow> bool" where
  "queue_inv bo th \<longleftrightarrow>
     bij_betw (\<lambda>i. unat (tk (th i) - writer_ticket bo)) {i. writes (th i)} {..<unat (next_ticket bo - writer_ticket bo)}"

definition turn_inv :: "RWLock \<Rightarrow> (nat \<Rightarrow> pc) \<Rightarrow> bool" where
  "turn_inv bo th \<longleftrightarrow>
     (\<forall>i. turn (th i) \<longrightarrow> tk (th i) = writer_ticket bo \<and> reader_ticket bo = writer_ticket bo + 1) \<and>
     ((\<exists>i. turn (th i)) \<or> reader_ticket bo = writer_ticket bo) \<and>
     (\<forall>i. reads (th i) \<longrightarrow> tk (th i) = writer_ticket bo \<or> tk (th i) = reader_ticket bo)"

definition count_inv :: "RWLock \<Rightarrow> (nat \<Rightarrow> pc) \<Rightarrow> bool" where
  "count_inv bo th \<longleftrightarrow> length (rl bo) = 2 \<and> (\<forall>k<2. unat (nr_readers (rl bo ! k)) = card (readers th k))"

text \<open>The doors: only readers with the ticket of the present writer are inside, and none while it writes.\<close>

definition door_inv :: "RWLock \<Rightarrow> (nat \<Rightarrow> pc) \<Rightarrow> bool" where
  "door_inv bo th \<longleftrightarrow>
     (is_open (rl bo ! room (writer_ticket bo)) \<longleftrightarrow> (\<forall>i. \<not> writing (th i))) \<and>
     \<not> is_open (rl bo ! room (writer_ticket bo + 1)) \<and>
     (\<forall>i j. writing (th i) \<longrightarrow> reads (th j) \<longrightarrow> tk (th j) \<noteq> writer_ticket bo) \<and>
     (\<forall>i. reading (th i) \<longrightarrow> tk (th i) = writer_ticket bo)"

definition core_inv :: "nat \<Rightarrow> RWLock \<Rightarrow> (nat \<Rightarrow> pc) \<Rightarrow> bool" where
  "core_inv N bo th \<longleftrightarrow> threads_inv N th \<and> queue_inv bo th \<and> turn_inv bo th \<and> count_inv bo th \<and> door_inv bo th"

text \<open>No lost wake-up: who sleeps has to wait.\<close>

definition sleep_inv :: "RWLock \<Rightarrow> (nat \<Rightarrow> pc) \<Rightarrow> bool" where
  "sleep_inv bo th \<longleftrightarrow> (\<forall>i. asleep (th i) \<longrightarrow> \<not> ready bo (th i))"

lemma readers_upd:
  "readers (th(i := p)) k = (if reads p \<and> room (tk p) = k then insert i (readers th k - {i}) else readers th k - {i})"
  by (auto simp: readers_def)

lemma readers_finite: "threads_inv N th \<Longrightarrow> readers th k \<subseteq> {..<N}"
  by (auto simp: readers_def threads_inv_def not_less [symmetric])

lemma core_wake [simp]: "core_inv N bo (wake cs \<circ> th) = core_inv N bo th"
  by (simp add: core_inv_def threads_inv_def queue_inv_def turn_inv_def count_inv_def door_inv_def readers_def)

lemma queue_keep:
  assumes "queue_inv bo th" "writes p = writes (th i)" "writes p \<longrightarrow> tk p = tk (th i)"
    "writer_ticket bo' = writer_ticket bo" "next_ticket bo' = next_ticket bo"
  shows "queue_inv bo' (th(i := p))"
proof -
  have "{j. writes ((th(i := p)) j)} = {j. writes (th j)}" using assms(2) by auto
  moreover have "unat (tk (th j) - writer_ticket bo) = unat (tk ((th(i := p)) j) - writer_ticket bo')"
    if "j \<in> {j. writes (th j)}" for j
    using that assms(2-4) by auto
  ultimately show ?thesis using assms(1,5) bij_betw_cong [THEN iffD1, OF _ assms(1) [unfolded queue_inv_def]]
    by (simp add: queue_inv_def assms(4))
qed

lemma count_keep:
  assumes "count_inv bo th" "reads p = reads (th i)" "reads p \<longrightarrow> tk p = tk (th i)" "length (rl bo') = 2"
    "\<And>k. nr_readers (rl bo' ! k) = nr_readers (rl bo ! k)"
  shows "count_inv bo' (th(i := p))"
proof -
  have "readers (th(i := p)) k = readers th k" for k using assms(2,3) by (auto simp: readers_def)
  then show ?thesis using assms(1,4,5) by (simp add: count_inv_def)
qed

lemma turn_keep:
  assumes "turn_inv bo th" "turn p = turn (th i)" "turn p \<longrightarrow> tk p = tk (th i)"
    "reads p \<longrightarrow> tk p = writer_ticket bo \<or> tk p = reader_ticket bo"
    "writer_ticket bo' = writer_ticket bo" "reader_ticket bo' = reader_ticket bo"
  shows "turn_inv bo' (th(i := p))"
proof -
  have "(\<exists>j. turn ((th(i := p)) j)) \<longleftrightarrow> (\<exists>j. turn (th j))" using assms(2) by auto
  then show ?thesis using assms by (simp add: turn_inv_def)
qed

lemma door_keep:
  assumes "door_inv bo th" "writing p = writing (th i)" "reading p \<longrightarrow> tk p = writer_ticket bo"
    "reads p \<longrightarrow> tk p = writer_ticket bo \<longrightarrow> (\<forall>j. \<not> writing (th j))"
    "writer_ticket bo' = writer_ticket bo" "\<And>k. k < 2 \<Longrightarrow> is_open (rl bo' ! k) = is_open (rl bo ! k)"
  shows "door_inv bo' (th(i := p))"
proof -
  have "is_open (rl bo' ! room t) = is_open (rl bo ! room t)" for t by (rule assms(6)) simp
  moreover have "(\<forall>j. \<not> writing ((th(i := p)) j)) \<longleftrightarrow> (\<forall>j. \<not> writing (th j))" using assms(2) by auto
  moreover have "tk ((th(i := p)) b) \<noteq> writer_ticket bo" if "writing ((th(i := p)) a)" "reads ((th(i := p)) b)" for a b
  proof -
    have "\<exists>a. writing (th a)" using that(1) assms(2) by (auto split: if_splits)
    then show ?thesis using that(2) assms(1,4) by (auto simp: door_inv_def split: if_splits)
  qed
  moreover have "\<forall>j. reading ((th(i := p)) j) \<longrightarrow> tk ((th(i := p)) j) = writer_ticket bo"
    using assms(1,3) by (simp add: door_inv_def)
  ultimately show ?thesis using assms(1,5) unfolding door_inv_def by simp
qed

lemma turn_ticket: "turn_inv bo th \<Longrightarrow> turn (th j) \<Longrightarrow> tk (th j) = writer_ticket bo \<and> reader_ticket bo = writer_ticket bo + 1"
  by (simp add: turn_inv_def)

lemma writing_ticket: "turn_inv bo th \<Longrightarrow> writing (th j) \<Longrightarrow> reader_ticket bo \<noteq> writer_ticket bo"
  using turn_ticket [of bo th j] inside_impl(2) [of "th j"] by simp

lemma reads_ticket: "turn_inv bo th \<Longrightarrow> reads (th j) \<Longrightarrow> tk (th j) = writer_ticket bo \<or> tk (th j) = reader_ticket bo"
  by (simp add: turn_inv_def)

lemma reads_room: "turn_inv bo th \<Longrightarrow> reads (th j) \<Longrightarrow> tk (th j) = writer_ticket bo \<or> tk (th j) = writer_ticket bo + 1"
  unfolding turn_inv_def by metis

lemma writing_reads: "door_inv bo th \<Longrightarrow> writing (th i) \<Longrightarrow> reads (th j) \<Longrightarrow> tk (th j) \<noteq> writer_ticket bo"
  unfolding door_inv_def by blast

lemma threads_keep: "threads_inv N th \<Longrightarrow> th i \<noteq> Idle \<or> i < N \<Longrightarrow> p \<noteq> Aborted \<Longrightarrow> threads_inv N (th(i := p))"
  unfolding threads_inv_def by (metis fun_upd_apply not_le)

section \<open>The steps keep the invariant\<close>

lemmas core_defs = core_inv_def threads_inv_def turn_inv_def door_inv_def

lemma reader_join:
  assumes "core_inv N bo th" "th i = Idle" "i < N" "N < 2 ^ 64"
  shows "core_inv N (upd_rl (room (reader_ticket bo)) (nr_readers_update (\<lambda>n. n + 1)) bo)
    (th(i := ReaderWait (reader_ticket bo) False))"
proof -
  let ?k = "room (reader_ticket bo)" and ?p = "ReaderWait (reader_ticket bo) False"
  let ?bo = "upd_rl ?k (nr_readers_update (\<lambda>n. n + 1)) bo"
  have c: "length (rl bo) = 2" "\<And>k. k < 2 \<Longrightarrow> unat (nr_readers (rl bo ! k)) = card (readers th k)"
    using assms(1) by (simp_all add: core_inv_def count_inv_def)
  have sub: "readers th ?k \<subseteq> {..<N} - {i}"
    using readers_finite [of N th] assms(1,2) by (auto simp: core_inv_def readers_def)
  then have "card (readers th ?k) \<le> N - 1" using card_mono [OF _ sub] assms(3) by simp
  then have "unat (nr_readers (rl bo ! ?k)) + 1 < 2 ^ 64" using c(2) [of ?k] assms(3,4) by simp
  then have "unat (nr_readers (rl bo ! ?k) + 1) = Suc (card (readers th ?k))"
    using c(2) [of ?k] unat_next [of "nr_readers (rl bo ! ?k)"] by simp
  moreover have "card (insert i (readers th ?k)) = Suc (card (readers th ?k))"
    using sub finite_subset [OF sub] by (intro card_insert_disjoint) auto
  moreover have "readers th k - {i} = readers th k" for k using assms(2) by (auto simp: readers_def)
  ultimately have "count_inv ?bo (th(i := ?p))"
    using c by (auto simp: count_inv_def readers_upd nth_list_update)
  moreover have "queue_inv ?bo (th(i := ?p))" by (rule queue_keep) (use assms(1,2) in \<open>auto simp: core_inv_def\<close>)
  moreover have "turn_inv ?bo (th(i := ?p))" by (rule turn_keep) (use assms(1,2) in \<open>auto simp: core_inv_def\<close>)
  moreover have "door_inv ?bo (th(i := ?p))"
  proof (rule door_keep)
    show "door_inv bo th" using assms(1) by (simp add: core_inv_def)
    show "reads ?p \<longrightarrow> tk ?p = writer_ticket bo \<longrightarrow> (\<forall>j. \<not> writing (th j))"
      using assms(1) writing_ticket [of bo th] by (auto simp: core_inv_def)
    show "is_open (rl ?bo ! k) = is_open (rl bo ! k)" if "k < 2" for k
      using c(1) that by (cases "k = ?k") auto
  qed (use assms(2) in auto)
  moreover have "threads_inv N (th(i := ?p))" by (rule threads_keep) (use assms in \<open>auto simp: core_inv_def\<close>)
  ultimately show ?thesis by (simp add: core_inv_def)
qed

lemma reader_loop:
  assumes "core_inv N bo th" "th i = ReaderWait t False"
  shows "core_inv N bo (th(i := reader_wait_loop bo t))"
proof -
  let ?p = "reader_wait_loop bo t"
  have p: "reads ?p" "tk ?p = t" "\<not> writes ?p" "\<not> turn ?p" "?p \<noteq> Aborted" "\<not> writing ?p" by (simp_all add: reader_wait_loop_def)
  have inv: "threads_inv N th" "queue_inv bo th" "turn_inv bo th" "count_inv bo th" "door_inv bo th"
    using assms(1) by (simp_all add: core_inv_def)
  have i: "i < N" using inv(1) assms(2) by (cases "i < N") (auto simp: threads_inv_def)
  have t: "t = writer_ticket bo \<or> t = writer_ticket bo + 1" using reads_room [OF inv(3), of i] assms(2) by simp
  have r: "t = writer_ticket bo" if "is_open (rl bo ! room t)"
    using t that inv(5) by (auto simp: door_inv_def)
  have "threads_inv N (th(i := ?p))" by (rule threads_keep) (use assms(2) p(5) inv(1) in auto)
  moreover have "queue_inv bo (th(i := ?p))" by (rule queue_keep) (use assms(2) p inv(2) in auto)
  moreover have "turn_inv bo (th(i := ?p))"
    by (rule turn_keep [OF inv(3)]) (use reads_ticket [OF inv(3), of i] assms(2) p in auto)
  moreover have "count_inv bo (th(i := ?p))" by (rule count_keep) (use assms(2) p inv(4) in \<open>auto simp: count_inv_def\<close>)
  moreover have "door_inv bo (th(i := ?p))"
  proof (rule door_keep [OF inv(5)])
    show "reading ?p \<longrightarrow> tk ?p = writer_ticket bo" using r by (simp add: reader_wait_loop_def)
    show "reads ?p \<longrightarrow> tk ?p = writer_ticket bo \<longrightarrow> (\<forall>j. \<not> writing (th j))"
      using writing_reads [OF inv(5), of _ i] assms(2) p by auto
  qed (use assms(2) p in auto)
  ultimately show ?thesis by (simp add: core_inv_def)
qed

lemma reader_leave:
  assumes "core_inv N bo th" "th i = Reading t"
  shows "nr_readers (rl bo ! room t) \<noteq> 0"
    "core_inv N (upd_rl (room t) (nr_readers_update (\<lambda>n. n - 1)) bo) (th(i := Idle))"
proof -
  let ?bo = "upd_rl (room t) (nr_readers_update (\<lambda>n. n - 1)) bo"
  have inv: "threads_inv N th" "queue_inv bo th" "turn_inv bo th" "count_inv bo th" "door_inv bo th"
    using assms(1) by (simp_all add: core_inv_def)
  have c: "length (rl bo) = 2" "\<And>k. k < 2 \<Longrightarrow> unat (nr_readers (rl bo ! k)) = card (readers th k)"
    using inv(4) by (simp_all add: count_inv_def)
  have f: "finite (readers th k)" for k using readers_finite [OF inv(1)] finite_subset by blast
  have i: "i \<in> readers th k \<longleftrightarrow> k = room t" for k using assms(2) by (auto simp: readers_def)
  then have "card (readers th (room t)) \<noteq> 0" using f by auto
  then show n: "nr_readers (rl bo ! room t) \<noteq> 0" using c(2) [of "room t"] by auto
  then have "unat (nr_readers (rl bo ! room t) - 1) = card (readers th (room t)) - 1" using c(2) [of "room t"] by (simp add: unat_minus_one)
  then have "count_inv ?bo (th(i := Idle))"
    using c i f by (auto simp: count_inv_def readers_upd nth_list_update)
  moreover have "threads_inv N (th(i := Idle))" by (rule threads_keep) (use assms(2) inv(1) in auto)
  moreover have "queue_inv ?bo (th(i := Idle))" by (rule queue_keep) (use assms(2) inv(2) in auto)
  moreover have "turn_inv ?bo (th(i := Idle))" by (rule turn_keep [OF inv(3)]) (use assms(2) in auto)
  moreover have "door_inv ?bo (th(i := Idle))"
  proof (rule door_keep [OF inv(5)])
    show "is_open (rl ?bo ! k) = is_open (rl bo ! k)" if "k < 2" for k using c(1) that by (cases "k = room t") auto
  qed (use assms(2) in auto)
  ultimately show "core_inv N ?bo (th(i := Idle))" by (simp add: core_inv_def)
qed

lemma writer_count:
  assumes "threads_inv N th" "queue_inv bo th"
  shows "unat (next_ticket bo - writer_ticket bo) = card {i. writes (th i)}" "{i. writes (th i)} \<subseteq> {..<N}"
proof -
  show "{i. writes (th i)} \<subseteq> {..<N}" using assms(1) by (auto simp: threads_inv_def not_less [symmetric])
  show "unat (next_ticket bo - writer_ticket bo) = card {i. writes (th i)}"
    using bij_betw_same_card [OF assms(2) [unfolded queue_inv_def]] by simp
qed

lemma writer_join:
  assumes "core_inv N bo th" "th i = Idle" "i < N" "N < 2 ^ 64"
  shows "core_inv N (bo\<lparr>next_ticket := next_ticket bo + 1\<rparr>) (th(i := WriterWait (next_ticket bo) False))"
proof -
  let ?bo = "bo\<lparr>next_ticket := next_ticket bo + 1\<rparr>" and ?p = "WriterWait (next_ticket bo) False"
  let ?f = "\<lambda>th j. unat (tk (th j) - writer_ticket bo)" and ?W = "{j. writes (th j)}"
  define n where "n = unat (next_ticket bo - writer_ticket bo)"
  have inv: "threads_inv N th" "queue_inv bo th" "turn_inv bo th" "count_inv bo th" "door_inv bo th"
    using assms(1) by (simp_all add: core_inv_def)
  have W: "?W \<subseteq> {..<N} - {i}" using writer_count(2) [OF inv(1,2)] assms(2) by auto
  then have "card ?W \<le> N - 1" using card_mono [OF _ W] assms(3) by simp
  then have "n + 1 < 2 ^ 64" using writer_count(1) [OF inv(1,2)] assms(3,4) by (simp add: n_def)
  then have n: "unat (next_ticket bo + 1 - writer_ticket bo) = Suc n"
    using unat_next [of "next_ticket bo - writer_ticket bo"] by (simp add: n_def diff_add_eq)
  have "bij_betw (?f (th(i := ?p))) ?W {..<n}"
    by (rule bij_betw_cong [THEN iffD1, OF _ inv(2) [unfolded queue_inv_def, folded n_def]]) (use assms(2) in auto)
  then have "bij_betw (?f (th(i := ?p))) (?W \<union> {i}) ({..<n} \<union> {?f (th(i := ?p)) i})"
    using assms(2) by (intro notIn_Un_bij_betw) (auto simp: n_def)
  moreover have "{j. writes ((th(i := ?p)) j)} = ?W \<union> {i}" by auto
  moreover have "{..<n} \<union> {?f (th(i := ?p)) i} = {..<Suc n}" by (auto simp: n_def)
  ultimately have "queue_inv ?bo (th(i := ?p))" using n by (simp add: queue_inv_def)
  moreover have "threads_inv N (th(i := ?p))" by (rule threads_keep) (use assms(3) inv(1) in auto)
  moreover have "turn_inv ?bo (th(i := ?p))" by (rule turn_keep [OF inv(3)]) (use assms(2) in auto)
  moreover have "count_inv ?bo (th(i := ?p))" by (rule count_keep) (use assms(2) inv(4) in \<open>auto simp: count_inv_def\<close>)
  moreover have "door_inv ?bo (th(i := ?p))" by (rule door_keep [OF inv(5)]) (use assms(2) in auto)
  ultimately show ?thesis by (simp add: core_inv_def)
qed

lemma ticket_unique: "queue_inv bo th \<Longrightarrow> writes (th i) \<Longrightarrow> writes (th j) \<Longrightarrow> tk (th i) = tk (th j) \<Longrightarrow> i = j"
  unfolding queue_inv_def bij_betw_def inj_on_def by simp

lemma turn_begins:
  assumes "core_inv N bo th" "th i = WriterWait (writer_ticket bo) b"
  shows "reader_ticket bo = writer_ticket bo"
    "core_inv N (bo\<lparr>reader_ticket := reader_ticket bo + 1\<rparr>) (th(i := WriterDrain (writer_ticket bo) False))"
proof -
  let ?bo = "bo\<lparr>reader_ticket := reader_ticket bo + 1\<rparr>" and ?p = "WriterDrain (writer_ticket bo) False"
  have inv: "threads_inv N th" "queue_inv bo th" "turn_inv bo th" "count_inv bo th" "door_inv bo th"
    using assms(1) by (simp_all add: core_inv_def)
  have nt: "\<not> turn (th j)" for j
  proof
    assume j: "turn (th j)"
    then have "j = i" using ticket_unique [OF inv(2), of j i] turn_ticket [OF inv(3) j] inside_impl(3) [OF j] assms(2) by simp
    then show False using j assms(2) by simp
  qed
  show r: "reader_ticket bo = writer_ticket bo" using inv(3) nt by (simp add: turn_inv_def)
  have "turn_inv ?bo (th(i := ?p))" using inv(3) nt r by (auto simp: turn_inv_def)
  moreover have "threads_inv N (th(i := ?p))" by (rule threads_keep) (use assms(2) inv(1) in auto)
  moreover have "queue_inv ?bo (th(i := ?p))" by (rule queue_keep) (use assms(2) inv(2) in auto)
  moreover have "count_inv ?bo (th(i := ?p))" by (rule count_keep) (use assms(2) inv(4) in \<open>auto simp: count_inv_def\<close>)
  moreover have "door_inv ?bo (th(i := ?p))" by (rule door_keep [OF inv(5)]) (use assms(2) in auto)
  ultimately show "core_inv N ?bo (th(i := ?p))" by (simp add: core_inv_def)
qed

lemma core_drain_loop:
  assumes "core_inv N bo th" "th i = WriterDrain t b" "writer_drain_loop bo t = (bo', p)"
  shows "core_inv N bo' (th(i := p))"
proof -
  have inv: "threads_inv N th" "queue_inv bo th" "turn_inv bo th" "count_inv bo th" "door_inv bo th"
    using assms(1) by (simp_all add: core_inv_def)
  have t: "t = writer_ticket bo" using turn_ticket [OF inv(3), of i] assms(2) by simp
  have b: "bo' = bo \<or> bo' = upd_rl (room t) (is_open_update (\<lambda>_. False)) bo" "p = WriterDrain t True \<or> p = Writing t"
    using assms(3) by (auto simp: writer_drain_loop_def split: if_splits)
  have nr: "nr_readers (rl bo' ! k) = nr_readers (rl bo ! k)" "length (rl bo') = 2" "writer_ticket bo' = writer_ticket bo"
    "next_ticket bo' = next_ticket bo" "reader_ticket bo' = reader_ticket bo" for k
    using b(1) inv(4) by (cases "k = room t"; auto simp: count_inv_def)+
  have d: "door_inv bo' (th(i := p))"
  proof (cases "nr_readers (rl bo ! room t) > 0")
    case True
    then have p: "bo' = bo" "p = WriterDrain t True" using assms(3) by (auto simp: writer_drain_loop_def)
    show ?thesis by (rule door_keep [OF inv(5)]) (use assms(2) p in auto)
  next
    case False
    then have p: "bo' = upd_rl (room t) (is_open_update (\<lambda>_. False)) bo" "p = Writing t" "nr_readers (rl bo ! room t) = 0"
      using assms(3) by (auto simp: writer_drain_loop_def word_gt_0)
    have "card (readers th (room t)) = 0" using p(3) inv(4) by (simp add: count_inv_def) (metis room_less unat_0)
    then have "readers th (room t) = {}" using readers_finite [OF inv(1), of "room t"] finite_subset by fastforce
    then have "tk (th j) \<noteq> t" if "reads (th j)" for j using that by (auto simp: readers_def)
    moreover have "room (t + 1) \<noteq> room t" using room_cases [of t] by (auto simp: room_next)
    moreover have "room t < length (rl bo)" using inv(4) by (simp add: count_inv_def)
    ultimately show ?thesis using inv(5) t p(1,2) by (auto simp: door_inv_def)
  qed
  have "threads_inv N (th(i := p))" by (rule threads_keep) (use assms(2) b(2) inv(1) in auto)
  moreover have "queue_inv bo' (th(i := p))" by (rule queue_keep) (use assms(2) nr b(2) inv(2) in auto)
  moreover have "turn_inv bo' (th(i := p))" by (rule turn_keep [OF inv(3)]) (use assms(2) b(2) nr in auto)
  moreover have "count_inv bo' (th(i := p))" by (rule count_keep) (use assms(2) b(2) nr inv(4) in auto)
  ultimately show ?thesis using d by (simp add: core_inv_def)
qed

lemma writer_loop:
  assumes "core_inv N bo th" "th i = WriterWait t False" "writer_wait_loop bo t = (bo', p)"
  shows "core_inv N bo' (th(i := p))"
proof (cases "t = writer_ticket bo")
  case True
  note b = turn_begins [OF assms(1) assms(2) [unfolded True]]
  have "writer_drain_loop (bo\<lparr>reader_ticket := reader_ticket bo + 1\<rparr>) t = (bo', p)"
    using assms(3) True b(1) by (simp add: writer_wait_loop_def)
  then show ?thesis using core_drain_loop [OF b(2), of i t False] True by simp
next
  case False
  then have p: "bo' = bo" "p = WriterWait t True" using assms(3) by (auto simp: writer_wait_loop_def)
  have inv: "threads_inv N th" "queue_inv bo th" "turn_inv bo th" "count_inv bo th" "door_inv bo th"
    using assms(1) by (simp_all add: core_inv_def)
  have "threads_inv N (th(i := p))" by (rule threads_keep) (use assms(2) p inv(1) in auto)
  moreover have "queue_inv bo (th(i := p))" by (rule queue_keep) (use assms(2) p inv(2) in auto)
  moreover have "turn_inv bo (th(i := p))" by (rule turn_keep [OF inv(3)]) (use assms(2) p in auto)
  moreover have "count_inv bo (th(i := p))" by (rule count_keep) (use assms(2) p inv(4) in \<open>auto simp: count_inv_def\<close>)
  moreover have "door_inv bo (th(i := p))" by (rule door_keep [OF inv(5)]) (use assms(2) p in auto)
  ultimately show ?thesis by (simp add: p(1) core_inv_def)
qed

lemma queue_advance:
  assumes "queue_inv bo th" "writes (th i)" "tk (th i) = writer_ticket bo" "\<not> writes p"
    "writer_ticket bo' = writer_ticket bo + 1" "next_ticket bo' = next_ticket bo"
  shows "queue_inv bo' (th(i := p))"
proof -
  let ?f = "\<lambda>j. unat (tk (th j) - writer_ticket bo)" and ?W = "{j. writes (th j)}"
  define n where "n = unat (next_ticket bo - writer_ticket bo)"
  have b: "bij_betw ?f ?W {..<n}" using assms(1) by (simp add: queue_inv_def n_def)
  then have "?f i \<in> {..<n}" using assms(2) by (auto simp: bij_betw_def)
  then have n: "0 < n" using assms(3) by simp
  then have "next_ticket bo \<noteq> writer_ticket bo" by (auto simp: n_def)
  then have n1: "unat (next_ticket bo' - writer_ticket bo') = n - 1"
    using unat_minus_one [of "next_ticket bo - writer_ticket bo"] assms(5,6) by (auto simp: n_def diff_diff_eq)
  have "bij_betw ?f {i} {0}" using assms(3) by simp
  then have "bij_betw ?f (?W - {i}) ({..<n} - {0})" using b assms(2) n by (intro bij_betw_DiffI) auto
  moreover have "bij_betw (\<lambda>x. x - 1) ({..<n} - {0}) {..<n - 1}"
    by (rule bij_betw_byWitness [where f' = Suc]) (use n in auto)
  ultimately have "bij_betw ((\<lambda>x. x - 1) \<circ> ?f) (?W - {i}) {..<n - 1}" by (rule bij_betw_trans)
  moreover have "((\<lambda>x. x - 1) \<circ> ?f) j = unat (tk ((th(i := p)) j) - writer_ticket bo')" if j: "j \<in> ?W - {i}" for j
  proof -
    have "tk (th j) \<noteq> writer_ticket bo" using ticket_unique [OF assms(1), of j i] assms(2,3) j by auto
    then show ?thesis using unat_minus_one [of "tk (th j) - writer_ticket bo"] j assms(5) by (simp add: diff_diff_eq)
  qed
  ultimately have "bij_betw (\<lambda>j. unat (tk ((th(i := p)) j) - writer_ticket bo')) (?W - {i}) {..<n - 1}"
    using bij_betw_cong [of "?W - {i}" "(\<lambda>x. x - 1) \<circ> ?f" "\<lambda>j. unat (tk ((th(i := p)) j) - writer_ticket bo')" "{..<n - 1}"] by blast
  moreover have "{j. writes ((th(i := p)) j)} = ?W - {i}" using assms(4) by auto
  ultimately show ?thesis using n1 by (simp add: queue_inv_def)
qed

lemma writer_leave:
  assumes "core_inv N bo th" "th i = Writing t"
  shows "nr_readers (rl bo ! room t) = 0" "t = writer_ticket bo"
    "core_inv N (upd_rl (room (t + 1)) (is_open_update (\<lambda>_. True)) bo\<lparr>writer_ticket := writer_ticket bo + 1\<rparr>) (th(i := Idle))"
proof -
  let ?bo = "upd_rl (room (t + 1)) (is_open_update (\<lambda>_. True)) bo\<lparr>writer_ticket := writer_ticket bo + 1\<rparr>"
  have inv: "threads_inv N th" "queue_inv bo th" "turn_inv bo th" "count_inv bo th" "door_inv bo th"
    using assms(1) by (simp_all add: core_inv_def)
  have w: "t = writer_ticket bo" "reader_ticket bo = t + 1" using turn_ticket [OF inv(3), of i] assms(2) by simp_all
  have r: "tk (th j) = t + 1" if "reads (th j)" for j
    using reads_room [OF inv(3) that] writing_reads [OF inv(5), of i j] that assms(2) w(1) by auto
  have rr: "room (t + 1) \<noteq> room t" "room (t + 1 + 1) = room t"
    using room_cases [of t] room_next [of t] room_next [of "t + 1"] by auto
  have l: "length (rl bo) = 2" using inv(4) by (simp add: count_inv_def)
  have "readers th (room t) = {}" using r rr(1) by (auto simp: readers_def)
  then show "nr_readers (rl bo ! room t) = 0" using inv(4) by (simp add: count_inv_def) (metis card.empty room_less unat_eq_zero)
  show "t = writer_ticket bo" by (rule w(1))
  have nt: "\<not> turn (th j)" if "j \<noteq> i" for j
    using ticket_unique [OF inv(2), of j i] turn_ticket [OF inv(3), of j] inside_impl(3) [of "th j"] that assms(2) w(1) by auto
  have nr: "\<not> reading (th j)" for j
    using r [of j] inside_impl(1) [of "th j"] inv(5) w(1) by (auto simp: door_inv_def)
  have c: "\<not> is_open (rl bo ! room t)"
    using inv(5) w(1) assms(2) unfolding door_inv_def by (metis inside_simps(7))
  have "queue_inv ?bo (th(i := Idle))" by (rule queue_advance [OF inv(2)]) (use assms(2) w in auto)
  moreover have "turn_inv ?bo (th(i := Idle))" using r nt w by (auto simp: turn_inv_def)
  moreover have "threads_inv N (th(i := Idle))" by (rule threads_keep) (use assms(2) inv(1) in auto)
  moreover have "count_inv ?bo (th(i := Idle))"
  proof (rule count_keep [OF inv(4)])
    show "nr_readers (rl ?bo ! k) = nr_readers (rl bo ! k)" for k using l by (cases "k = room (t + 1)") auto
  qed (use assms(2) l in auto)
  moreover have "\<not> writing ((th(i := Idle)) j)" "\<not> reading ((th(i := Idle)) j)" for j
    using nt [of j] nr [of j] inside_impl(2) [of "th j"] by auto
  then have "door_inv ?bo (th(i := Idle))" using c l rr w(1) by (simp add: door_inv_def)
  ultimately show "core_inv N ?bo (th(i := Idle))" by (simp add: core_inv_def)
qed

text \<open>The calls and the unlocking functions as the steps have them.\<close>

lemma core_reader_lock:
  assumes "core_inv N bo th" "th i = Idle" "i < N" "N < 2 ^ 64" "rwlock_reader_lock bo = (bo', p)"
  shows "core_inv N bo' (th(i := p))"
proof -
  have "bo' = upd_rl (room (reader_ticket bo)) (nr_readers_update (\<lambda>n. n + 1)) bo" "p = reader_wait_loop bo' (reader_ticket bo)"
    using assms(5) by (auto simp: rwlock_reader_lock_def Let_def)
  then show ?thesis using reader_loop [OF reader_join [OF assms(1-4)], of i "reader_ticket bo"] by simp
qed

lemma core_writer_lock:
  assumes "core_inv N bo th" "th i = Idle" "i < N" "N < 2 ^ 64" "rwlock_writer_lock bo = (bo', p)"
  shows "core_inv N bo' (th(i := p))"
proof -
  have "writer_wait_loop (bo\<lparr>next_ticket := next_ticket bo + 1\<rparr>) (next_ticket bo) = (bo', p)"
    using assms(5) by (simp add: rwlock_writer_lock_def)
  then show ?thesis using writer_loop [OF writer_join [OF assms(1-4)], of i "next_ticket bo" bo' p] by simp
qed

lemma core_reader_unlock:
  assumes "core_inv N bo th" "th i = Reading t" "rwlock_reader_unlock bo t = (bo', p, cs)"
  shows "core_inv N bo' (th(i := p))"
proof -
  have "bo' = upd_rl (room t) (nr_readers_update (\<lambda>n. n - 1)) bo" "p = Idle"
    using assms(3) reader_leave(1) [OF assms(1,2)] by (auto simp: rwlock_reader_unlock_def Let_def)
  then show ?thesis using reader_leave(2) [OF assms(1,2)] by simp
qed

lemma core_writer_unlock:
  assumes "core_inv N bo th" "th i = Writing t" "rwlock_writer_unlock bo t = (bo', p, cs)"
  shows "core_inv N bo' (th(i := p))"
proof -
  have "bo' = upd_rl (room (t + 1)) (is_open_update (\<lambda>_. True)) bo\<lparr>writer_ticket := writer_ticket bo + 1\<rparr>" "p = Idle"
    using assms(3) writer_leave(1) [OF assms(1,2)] by (auto simp: rwlock_writer_unlock_def Let_def)
  then show ?thesis using writer_leave(3) [OF assms(1,2)] by simp
qed

section \<open>No wake-up is lost\<close>

lemma sleep_keep:
  assumes "sleep_inv bo th" "asleep p \<longrightarrow> \<not> ready bo' p"
    "\<And>j. j \<noteq> i \<Longrightarrow> asleep (th j) \<Longrightarrow> ready bo' (th j) \<Longrightarrow> ready bo (th j)"
  shows "sleep_inv bo' (th(i := p))"
  unfolding sleep_inv_def
proof (intro allI impI)
  fix j assume "asleep ((th(i := p)) j)"
  then show "\<not> ready bo' ((th(i := p)) j)" using assms(1,2) assms(3) [of j] by (cases "j = i") (auto simp: sleep_inv_def)
qed

lemma sleep_drain_loop:
  assumes "sleep_inv bo th" "writer_drain_loop bo t = (bo', p)" "length (rl bo) = 2"
  shows "sleep_inv bo' (th(i := p))"
proof (rule sleep_keep [OF assms(1)])
  show "asleep p \<longrightarrow> \<not> ready bo' p" using assms(2) by (auto simp: writer_drain_loop_def word_gt_0 split: if_splits)
  fix j assume "ready bo' (th j)"
  then show "ready bo (th j)" using assms(2,3)
    by (cases "th j") (auto simp: writer_drain_loop_def nth_list_update split: if_splits)
qed

lemma sleep_writer_loop:
  assumes "sleep_inv bo th" "writer_wait_loop bo t = (bo', p)" "length (rl bo) = 2"
  shows "sleep_inv bo' (th(i := p))"
proof (cases "t \<noteq> writer_ticket bo \<or> reader_ticket bo \<noteq> writer_ticket bo")
  case True
  then show ?thesis using assms(1,2) by (auto simp: writer_wait_loop_def sleep_inv_def split: if_splits)
next
  case False
  let ?bo = "bo\<lparr>reader_ticket := reader_ticket bo + 1\<rparr>"
  have "ready ?bo q = ready bo q" for q by (cases q) auto
  then have "sleep_inv ?bo th" using assms(1) by (simp add: sleep_inv_def)
  then show ?thesis using sleep_drain_loop [of ?bo th t] assms(2,3) False by (simp add: writer_wait_loop_def)
qed

lemma sleep_reader_loop:
  "sleep_inv bo th \<Longrightarrow> sleep_inv bo (th(i := reader_wait_loop bo t))"
  by (rule sleep_keep) (auto simp: reader_wait_loop_def)

lemma sleep_reader_lock:
  assumes "sleep_inv bo th" "core_inv N bo th" "rwlock_reader_lock bo = (bo', p)"
  shows "sleep_inv bo' (th(i := p))"
proof (rule sleep_keep [OF assms(1)])
  let ?k = "room (reader_ticket bo)"
  have bo': "bo' = upd_rl ?k (nr_readers_update (\<lambda>n. n + 1)) bo" "p = reader_wait_loop bo' (reader_ticket bo)"
    using assms(3) by (auto simp: rwlock_reader_lock_def Let_def)
  show "asleep p \<longrightarrow> \<not> ready bo' p" by (simp add: bo'(2) reader_wait_loop_def)
  have l: "length (rl bo) = 2" "turn_inv bo th" using assms(2) by (simp_all add: core_inv_def count_inv_def)
  fix j assume r: "ready bo' (th j)"
  show "ready bo (th j)"
  proof (cases "th j")
    case (WriterDrain t b)
    then have "t = writer_ticket bo" "reader_ticket bo = t + 1" using turn_ticket [OF l(2), of j] by auto
    then have "room t \<noteq> ?k" using room_cases [of t] by (auto simp: room_next)
    then show ?thesis using r WriterDrain by (simp add: bo'(1))
  next
    case (ReaderWait t b)
    then show ?thesis using r l(1) by (cases "room t = ?k") (simp_all add: bo'(1))
  qed (use r in \<open>simp_all add: bo'(1)\<close>)
qed

lemma sleep_writer_lock:
  assumes "sleep_inv bo th" "core_inv N bo th" "rwlock_writer_lock bo = (bo', p)"
  shows "sleep_inv bo' (th(i := p))"
proof -
  let ?bo = "bo\<lparr>next_ticket := next_ticket bo + 1\<rparr>"
  have "ready ?bo q = ready bo q" for q by (cases q) auto
  then have "sleep_inv ?bo th" using assms(1) by (simp add: sleep_inv_def)
  then show ?thesis using sleep_writer_loop [of ?bo th "next_ticket bo" bo' p] assms(2,3)
    by (simp add: rwlock_writer_lock_def core_inv_def count_inv_def)
qed

lemma sleep_wake:
  assumes "sleep_inv bo th" "\<not> asleep p" "\<And>j. asleep (wake cs (th j)) \<Longrightarrow> ready bo' (th j) \<Longrightarrow> ready bo (th j)"
  shows "sleep_inv bo' (wake cs \<circ> th(i := p))"
proof -
  have r: "ready bo' (wake cs q) = ready bo' q" for q by (cases q) auto
  have "\<not> ready bo' (th j)" if "asleep (wake cs (th j))" for j
    using assms(1) assms(3) [OF that] asleep_wake [OF that] unfolding sleep_inv_def by blast
  moreover have "\<not> asleep (wake cs p)" using assms(2) asleep_wake by blast
  ultimately show ?thesis by (simp add: sleep_inv_def r)
qed

lemma sleep_reader_unlock:
  assumes "sleep_inv bo th" "core_inv N bo th" "th i = Reading t" "rwlock_reader_unlock bo t = (bo', p, cs)"
  shows "sleep_inv bo' (wake cs \<circ> th(i := p))"
proof (rule sleep_wake [OF assms(1)])
  have bo': "bo' = upd_rl (room t) (nr_readers_update (\<lambda>n. n - 1)) bo" "p = Idle"
    "cs = (if nr_readers (rl bo' ! room t) = 0 then [Cond_writer] else [])"
    using assms(4) reader_leave(1) [OF assms(2,3)] by (auto simp: rwlock_reader_unlock_def Let_def)
  show "\<not> asleep p" by (simp add: bo'(2))
  have l: "length (rl bo) = 2" using assms(2) by (simp add: core_inv_def count_inv_def)
  fix j assume a: "asleep (wake cs (th j))" and r: "ready bo' (th j)"
  show "ready bo (th j)"
  proof (cases "th j")
    case (WriterDrain u b)
    then have "nr_readers (rl bo' ! room t) \<noteq> 0" using a bo'(3) by (auto split: if_splits)
    then have "room u \<noteq> room t" using r WriterDrain by auto
    then show ?thesis using r WriterDrain by (simp add: bo'(1))
  next
    case (ReaderWait u b)
    then show ?thesis using r l by (cases "room u = room t") (simp_all add: bo'(1))
  qed (use r in \<open>simp_all add: bo'(1)\<close>)
qed

lemma sleep_writer_unlock:
  assumes "sleep_inv bo th" "core_inv N bo th" "th i = Writing t" "rwlock_writer_unlock bo t = (bo', p, cs)"
  shows "sleep_inv bo' (wake cs \<circ> th(i := p))"
proof (rule sleep_wake [OF assms(1)])
  let ?k = "room (t + 1)"
  have bo': "bo' = upd_rl ?k (is_open_update (\<lambda>_. True)) bo\<lparr>writer_ticket := writer_ticket bo + 1\<rparr>" "p = Idle"
    and cs: "cs = (if nr_readers (rl (upd_rl ?k (is_open_update (\<lambda>_. True)) bo) ! ?k) > 0 then [Cond_reader ?k] else []) @ [Cond_writer]"
    using assms(4) writer_leave(1) [OF assms(2,3)] by (simp_all add: rwlock_writer_unlock_def Let_def)
  show "\<not> asleep p" by (simp add: bo'(2))
  have inv: "threads_inv N th" "count_inv bo th" using assms(2) by (simp_all add: core_inv_def)
  fix j assume a: "asleep (wake cs (th j))" and r: "ready bo' (th j)"
  show "ready bo (th j)"
  proof (cases "th j")
    case (ReaderWait u b)
    have "room u \<noteq> ?k"
    proof
      assume u: "room u = ?k"
      then have "j \<in> readers th ?k" using ReaderWait by (simp add: readers_def)
      moreover have "finite (readers th ?k)" by (rule finite_subset [OF readers_finite [OF inv(1)] finite_lessThan])
      ultimately have "card (readers th ?k) \<noteq> 0" by auto
      moreover have "unat (nr_readers (rl bo ! ?k)) = card (readers th ?k)" using inv(2) by (simp add: count_inv_def)
      ultimately have "nr_readers (rl bo ! ?k) \<noteq> 0" by auto
      then have "Cond_reader ?k \<in> set cs" using cs inv(2) by (simp add: count_inv_def word_gt_0)
      then show False using a ReaderWait u by simp
    qed
    then show ?thesis using r ReaderWait by (simp add: bo'(1))
  qed (use a cs in simp_all)
qed

section \<open>Reachable states\<close>

definition rw_inv :: "nat \<Rightarrow> system \<Rightarrow> bool" where
  "rw_inv N s \<longleftrightarrow> core_inv N (fst s) (snd s) \<and> sleep_inv (fst s) (snd s)"

lemma inv_call:
  assumes "call N s s'" "rw_inv N s" "N < 2 ^ 64"
  shows "rw_inv N s'"
  using assms(1,2)
proof (induction rule: call.induct)
  case (reader_lock i th bo bo' p)
  then show ?case using core_reader_lock [OF _ _ _ assms(3), of bo th i bo' p] sleep_reader_lock [of bo th N bo' p i]
    by (simp add: rw_inv_def)
next
  case (writer_lock i th bo bo' p)
  then show ?case using core_writer_lock [OF _ _ _ assms(3), of bo th i bo' p] sleep_writer_lock [of bo th N bo' p i]
    by (simp add: rw_inv_def)
qed

lemma inv_run: "run N s s' \<Longrightarrow> rw_inv N s \<Longrightarrow> rw_inv N s'"
proof (induction rule: run.induct)
  case (reader_woken i th t bo)
  then show ?case by (simp add: rw_inv_def reader_loop sleep_reader_loop)
next
  case (writer_woken i th t bo bo' p)
  then show ?case using writer_loop [of N bo th i t bo' p] sleep_writer_loop [of bo th t bo' p i]
    by (simp add: rw_inv_def core_inv_def count_inv_def)
next
  case (drain_woken i th t bo bo' p)
  then show ?case using core_drain_loop [of N bo th i t False bo' p] sleep_drain_loop [of bo th t bo' p i]
    by (simp add: rw_inv_def core_inv_def count_inv_def)
next
  case (reader_unlock i th t bo bo' p cs)
  then show ?case using core_reader_unlock [of N bo th i t bo' p cs] sleep_reader_unlock [of bo th N i t bo' p cs]
    by (simp add: rw_inv_def)
next
  case (writer_unlock i th t bo bo' p cs)
  then show ?case using core_writer_unlock [of N bo th i t bo' p cs] sleep_writer_unlock [of bo th N i t bo' p cs]
    by (simp add: rw_inv_def)
qed

lemma inv_spurious: "spurious N s s' \<Longrightarrow> rw_inv N s \<Longrightarrow> rw_inv N s'"
proof (induction rule: spurious.induct)
  case (1 i bo th)
  let ?w = "wake [Cond_writer, Cond_reader 0, Cond_reader 1]"
  have "\<not> asleep (?w (th i))" using room_cases by (cases "th i") auto
  moreover have "core_inv N bo (th(i := ?w (th i)))"
  proof -
    have inv: "threads_inv N th" "queue_inv bo th" "turn_inv bo th" "count_inv bo th" "door_inv bo th"
      using 1 by (simp_all add: rw_inv_def core_inv_def)
    have "threads_inv N (th(i := ?w (th i)))" by (rule threads_keep) (use 1 inv(1) in \<open>auto simp: threads_inv_def\<close>)
    moreover have "queue_inv bo (th(i := ?w (th i)))" by (rule queue_keep) (use inv(2) in auto)
    moreover have "turn_inv bo (th(i := ?w (th i)))" by (rule turn_keep [OF inv(3)]) (use reads_ticket [OF inv(3), of i] in auto)
    moreover have "count_inv bo (th(i := ?w (th i)))" by (rule count_keep) (use inv(4) in \<open>auto simp: count_inv_def\<close>)
    moreover have "door_inv bo (th(i := ?w (th i)))"
    proof (rule door_keep [OF inv(5)])
      show "reads (?w (th i)) \<longrightarrow> tk (?w (th i)) = writer_ticket bo \<longrightarrow> (\<forall>j. \<not> writing (th j))"
        using writing_reads [OF inv(5), of _ i] by auto
    qed (use inv(5) in \<open>simp_all add: door_inv_def\<close>)
    ultimately show ?thesis by (simp add: core_inv_def)
  qed
  ultimately show ?case using 1 sleep_keep [of bo th "?w (th i)" bo i] by (simp add: rw_inv_def)
qed

lemma reachable_inv: "reachable N s \<Longrightarrow> N < 2 ^ 64 \<Longrightarrow> rw_inv N s"
proof (induction rule: reachable.induct)
  case start
  have "k < 2 \<longleftrightarrow> k = 0 \<or> k = 1" for k :: nat by auto
  then show ?case by (simp add: rw_inv_def core_inv_def threads_inv_def queue_inv_def turn_inv_def count_inv_def door_inv_def
      sleep_inv_def rwlock_initial_def readers_def room_def bij_betw_def)
next
  case (step s s')
  then show ?case using inv_call inv_run inv_spurious by blast
qed

section \<open>Progress\<close>

text \<open>Who is not outside can go on, unless it waits for another.\<close>

lemma run_exists: "i < N \<Longrightarrow> th i \<noteq> Idle \<Longrightarrow> th i \<noteq> Aborted \<Longrightarrow> \<not> asleep (th i) \<Longrightarrow> \<exists>s'. run N (bo, th) s'"
proof (cases "th i")
  case (Reading t)
  then show "i < N \<Longrightarrow> ?thesis" using run.reader_unlock by (cases "rwlock_reader_unlock bo t") blast
next
  case (Writing t)
  then show "i < N \<Longrightarrow> ?thesis" using run.writer_unlock by (cases "rwlock_writer_unlock bo t") blast
next
  case (ReaderWait t b)
  then show "i < N \<Longrightarrow> \<not> asleep (th i) \<Longrightarrow> ?thesis" using run.reader_woken by fastforce
next
  case (WriterWait t b)
  then show "i < N \<Longrightarrow> \<not> asleep (th i) \<Longrightarrow> ?thesis" using run.writer_woken by (cases "writer_wait_loop bo t") fastforce
next
  case (WriterDrain t b)
  then show "i < N \<Longrightarrow> \<not> asleep (th i) \<Longrightarrow> ?thesis" using run.drain_woken by (cases "writer_drain_loop bo t") fastforce
qed auto

lemma not_all_asleep:
  assumes "core_inv N bo th" "sleep_inv bo th" "th i \<noteq> Idle"
  shows "\<exists>j. th j \<noteq> Idle \<and> \<not> asleep (th j)"
proof (rule ccontr)
  assume "\<not> ?thesis"
  then have all: "asleep (th j)" "\<not> ready bo (th j)" if "th j \<noteq> Idle" for j
    using assms(2) that by (auto simp: sleep_inv_def)
  have inv: "threads_inv N th" "queue_inv bo th" "turn_inv bo th" "count_inv bo th" "door_inv bo th"
    using assms(1) by (simp_all add: core_inv_def)
  have nw: "\<not> writing (th j)" for j using all [of j] by (cases "th j") auto
  then have op: "is_open (rl bo ! room (writer_ticket bo))" using inv(5) by (simp add: door_inv_def)
  have rd: "\<not> (reads (th j) \<and> room (tk (th j)) = room (writer_ticket bo))" for j
    using all [of j] op by (cases "th j") auto
  have tn: "\<not> turn (th j)" for j
  proof
    assume j: "turn (th j)"
    then obtain t b where t: "th j = WriterDrain t b" using nw [of j] by (cases "th j") auto
    then have "t = writer_ticket bo" using turn_ticket [OF inv(3) j] by simp
    then have "readers th (room t) = {}" using rd by (auto simp: readers_def)
    then have "unat (nr_readers (rl bo ! room t)) = 0" using inv(4) by (simp add: count_inv_def)
    then show False using all(2) [of j] t by (simp add: unat_eq_zero)
  qed
  then have rt: "reader_ticket bo = writer_ticket bo" using inv(3) by (simp add: turn_inv_def)
  have nr: "\<not> reads (th j)" for j using reads_ticket [OF inv(3), of j] rt rd [of j] by auto
  have "writes (th i)" using assms(3) nr [of i] inv(1) by (cases "th i") (auto simp: threads_inv_def)
  then have "unat (tk (th i) - writer_ticket bo) \<in> {..<unat (next_ticket bo - writer_ticket bo)}"
    using inv(2) [unfolded queue_inv_def, THEN bij_betw_apply, of i] by simp
  then have "0 \<in> {..<unat (next_ticket bo - writer_ticket bo)}" by simp
  then have "0 \<in> (\<lambda>j. unat (tk (th j) - writer_ticket bo)) ` {j. writes (th j)}"
    using bij_betw_imp_surj_on [OF inv(2) [unfolded queue_inv_def]] by blast
  then obtain j where j: "writes (th j)" "tk (th j) = writer_ticket bo" by (auto simp: unat_eq_zero)
  then show False using all(2) [of j] tn [of j] by (cases "th j") auto
qed

lemma progress:
  assumes "rw_inv N s" "snd s i \<noteq> Idle"
  shows "\<exists>s'. run N s s'"
proof -
  obtain bo th where s: "s = (bo, th)" by (cases s)
  have c: "core_inv N bo th" "sleep_inv bo th" using assms(1) by (simp_all add: rw_inv_def s)
  obtain j where j: "th j \<noteq> Idle" "\<not> asleep (th j)" using not_all_asleep [OF c] assms(2) by (auto simp: s)
  have "j < N" "th j \<noteq> Aborted" using c(1) j(1) by (auto simp: core_inv_def threads_inv_def not_le [symmetric])
  then show ?thesis using run_exists j by (simp add: s)
qed

text \<open>The steps a thread still has before it is outside, and whether it is about to take the mutex again.\<close>

primrec weight :: "pc \<Rightarrow> nat" where
  "weight Idle = 0" | "weight (ReaderWait t b) = 2" | "weight (Reading t) = 1" | "weight (WriterWait t b) = 3"
| "weight (WriterDrain t b) = 2" | "weight (Writing t) = 1" | "weight Aborted = 0"

definition run_order :: "nat \<Rightarrow> (system \<times> system) set" where
  "run_order N = inv_image (less_than <*lex*> less_than)
     (\<lambda>(bo, th). (\<Sum>i<N. weight (th i), card {i \<in> {..<N}. \<not> asleep (th i) \<and> weight (th i) \<ge> 2}))"

lemma weight_wake [simp]: "weight (wake cs p) = weight p"
  by (cases p) auto

lemma weight_upd: "i < (N :: nat) \<Longrightarrow> (\<Sum>j<N. weight ((th(i := p)) j)) + weight (th i) = (\<Sum>j<N. weight (th j)) + weight p"
proof -
  assume i: "i < N"
  have "(\<Sum>j\<in>{..<N} - {i}. weight ((th(i := p)) j)) = (\<Sum>j\<in>{..<N} - {i}. weight (th j))" by (rule sum.cong) auto
  then show ?thesis using i sum.remove [OF finite_lessThan, where x = i and g = "\<lambda>j. weight ((th(i := p)) j)"]
      sum.remove [OF finite_lessThan, where x = i and g = "\<lambda>j. weight (th j)"]
    by simp
qed

lemma run_orderI:
  "(\<Sum>i<N. weight (th' i)) < (\<Sum>i<N. weight (th i)) \<Longrightarrow> ((bo', th'), (bo, th)) \<in> run_order N"
  "(\<Sum>i<N. weight (th' i)) = (\<Sum>i<N. weight (th i)) \<Longrightarrow>
   card {i \<in> {..<N}. \<not> asleep (th' i) \<and> weight (th' i) \<ge> 2} < card {i \<in> {..<N}. \<not> asleep (th i) \<and> weight (th i) \<ge> 2} \<Longrightarrow>
   ((bo', th'), (bo, th)) \<in> run_order N"
  by (simp_all add: run_order_def)

lemma run_order_weight:
  assumes "i < N" "weight p < weight (th i)"
  shows "((bo', wake cs \<circ> th(i := p)), (bo, th)) \<in> run_order N" "((bo', th(i := p)), (bo, th)) \<in> run_order N"
proof -
  have "(\<Sum>j<N. weight ((th(i := p)) j)) < (\<Sum>j<N. weight (th j))"
    using weight_upd [OF assms(1), of th p] assms(2) by linarith
  then show "((bo', wake cs \<circ> th(i := p)), (bo, th)) \<in> run_order N" "((bo', th(i := p)), (bo, th)) \<in> run_order N"
    unfolding comp_def by (intro run_orderI(1), simp only: weight_wake)+
qed

lemma run_order_asleep:
  assumes "i < N" "weight p = weight (th i)" "asleep p" "\<not> asleep (th i)" "weight p \<ge> 2"
  shows "((bo', th(i := p)), (bo, th)) \<in> run_order N"
proof -
  let ?A = "\<lambda>th :: nat \<Rightarrow> pc. {i \<in> {..<N}. \<not> asleep (th i) \<and> weight (th i) \<ge> 2}"
  have e: "?A (th(i := p)) = ?A th - {i}" using assms(3) by auto
  have "i \<in> ?A th" using assms by auto
  moreover have "finite (?A th)" by simp
  ultimately have "card (?A th - {i}) < card (?A th)" by (intro card_Diff1_less)
  moreover have "(\<Sum>j<N. weight ((th(i := p)) j)) = (\<Sum>j<N. weight (th j))"
    using weight_upd [OF assms(1), of th p] assms(2) by linarith
  ultimately show ?thesis by (intro run_orderI(2)) (simp_all only: e)
qed

lemma run_decreases: "run N s s' \<Longrightarrow> (s', s) \<in> run_order N"
proof (induction rule: run.induct)
  case (reader_woken i th t bo)
  then show ?case using run_order_weight(2) [of i N "Reading t" th] run_order_asleep [of i N "ReaderWait t True" th]
    by (simp add: reader_wait_loop_def)
next
  case (writer_woken i th t bo bo' p)
  then have "p = WriterWait t True \<or> weight p < 3" by (auto simp: writer_wait_loop_def writer_drain_loop_def split: if_splits)
  then show ?case using run_order_weight(2) [of i N p th] run_order_asleep [of i N p th] writer_woken by auto
next
  case (drain_woken i th t bo bo' p)
  then have "p = WriterDrain t True \<or> weight p < 2" by (auto simp: writer_drain_loop_def split: if_splits)
  then show ?case using run_order_weight(2) [of i N p th] run_order_asleep [of i N p th] drain_woken by auto
next
  case (reader_unlock i th t bo bo' p cs)
  then have "weight p = 0" by (auto simp: rwlock_reader_unlock_def Let_def split: if_splits)
  then show ?case using run_order_weight(1) [of i N p th] reader_unlock by simp
next
  case (writer_unlock i th t bo bo' p cs)
  then have "weight p = 0" by (auto simp: rwlock_writer_unlock_def Let_def split: if_splits)
  then show ?case using run_order_weight(1) [of i N p th] writer_unlock by simp
qed

text \<open>One thread has the lock for writing, another waits in the closed room.\<close>

definition busy_lock :: RWLock where
  "busy_lock = \<lparr>next_ticket = 1, reader_ticket = 1, writer_ticket = 0,
     rl = [\<lparr>nr_readers = 0, is_open = False\<rparr>, \<lparr>nr_readers = 1, is_open = False\<rparr>]\<rparr>"

definition busy_threads :: "nat \<Rightarrow> pc" where
  "busy_threads = (\<lambda>_. Idle)(0 := Writing 0, 1 := ReaderWait 1 True)"

lemma busy_reachable: "reachable 2 (busy_lock, busy_threads)"
proof -
  define bo where "bo = \<lparr>next_ticket = 1, reader_ticket = 1, writer_ticket = 0,
     rl = [\<lparr>nr_readers = 0, is_open = False\<rparr>, \<lparr>nr_readers = 0, is_open = False\<rparr>]\<rparr>"
  have "rwlock_writer_lock rwlock_initial = (bo, Writing 0)"
    by (simp add: rwlock_writer_lock_def writer_wait_loop_def writer_drain_loop_def rwlock_initial_def room_def bo_def)
  then have "call 2 (rwlock_initial, \<lambda>_. Idle) (bo, (\<lambda>_. Idle)(0 := Writing 0))" by (intro call.writer_lock) auto
  then have r: "reachable 2 (bo, (\<lambda>_. Idle)(0 := Writing 0))" using reachable.start reachable.step by blast
  have "rwlock_reader_lock bo = (busy_lock, ReaderWait 1 True)"
    by (simp add: rwlock_reader_lock_def reader_wait_loop_def room_def bo_def busy_lock_def)
  then have "call 2 (bo, (\<lambda>_. Idle)(0 := Writing 0)) (busy_lock, busy_threads)"
    unfolding busy_threads_def by (intro call.reader_lock) auto
  then show ?thesis using r reachable.step by blast
qed

section \<open>Properties\<close>

text \<open>
  C2 (readers and writers exclude each other). However the calls of fewer than 2^64 threads interleave, with
  the tickets wrapping at 2^64 and with spurious wake-ups, a thread that holds the lock for writing is
  alone; no assertion of the code fails; and every sleeping thread waits for a condition that does not hold,
  so no wake-up is lost.
\<close>
theorem rwlock_exclusion:
  assumes "reachable N (bo, th)" "N < 2 ^ 64"
  shows "(\<forall>i j. writing (th i) \<longrightarrow> i \<noteq> j \<longrightarrow> \<not> writing (th j) \<and> \<not> reading (th j)) \<and>
    (\<forall>i. th i \<noteq> Aborted) \<and> (\<forall>i. asleep (th i) \<longrightarrow> \<not> ready bo (th i))"
proof -
  have c: "core_inv N bo th" "sleep_inv bo th" using reachable_inv [OF assms] by (simp_all add: rw_inv_def)
  then have inv: "threads_inv N th" "queue_inv bo th" "turn_inv bo th" "door_inv bo th" by (simp_all add: core_inv_def)
  have "\<not> writing (th j) \<and> \<not> reading (th j)" if i: "writing (th i)" "i \<noteq> j" for i j
  proof
    show "\<not> reading (th j)"
      using writing_reads [OF inv(4) i(1), of j] inside_impl(1) [of "th j"] inv(4) by (auto simp: door_inv_def)
    show "\<not> writing (th j)"
    proof
      assume "writing (th j)"
      then have "turn (th i)" "turn (th j)" using inside_impl(2) i(1) by blast+
      then show False using ticket_unique [OF inv(2), of i j] turn_ticket [OF inv(3)] inside_impl(3) i(2) by metis
    qed
  qed
  then show ?thesis using inv(1) c(2) by (simp add: threads_inv_def sleep_inv_def)
qed

theorem rwlock_exclusion_witness:
  "reachable 2 (busy_lock, busy_threads) \<and> writing (busy_threads 0) \<and> asleep (busy_threads 1) \<and>
   \<not> writing (busy_threads 1) \<and> \<not> reading (busy_threads 1) \<and> \<not> ready busy_lock (busy_threads 1)"
proof -
  have w: "writing (busy_threads 0)" "asleep (busy_threads 1)" by (simp_all add: busy_threads_def)
  then show ?thesis using rwlock_exclusion [OF busy_reachable] busy_reachable by simp
qed

text \<open>
  C6 (everyone who asked gets the lock and leaves). When no more calls come and holders unlock, then from
  every reachable state the threads cannot go on for ever, and they only stop when all of them are outside:
  no deadlock and no lost wake-up, whichever thread takes the mutex next.
\<close>
theorem rwlock_drains:
  assumes "reachable N s" "N < 2 ^ 64"
  shows "(\<nexists>f. f 0 = s \<and> (\<forall>k. run N (f k) (f (Suc k)))) \<and>
    (\<forall>s'. (run N)\<^sup>*\<^sup>* s s' \<longrightarrow> (\<nexists>s''. run N s' s'') \<longrightarrow> (\<forall>i. snd s' i = Idle))"
proof -
  have "wf (run_order N)" by (simp add: run_order_def wf_lex_prod)
  then have "\<not> (\<forall>k. run N (f k) (f (Suc k)))" for f using run_decreases unfolding wf_iff_no_infinite_down_chain by blast
  moreover have "rw_inv N s'" if "(run N)\<^sup>*\<^sup>* s s'" for s'
    using that by (induction rule: rtranclp_induct) (simp_all add: reachable_inv [OF assms] inv_run)
  then have "\<forall>s'. (run N)\<^sup>*\<^sup>* s s' \<longrightarrow> (\<nexists>s''. run N s' s'') \<longrightarrow> (\<forall>i. snd s' i = Idle)" using progress by blast
  ultimately show ?thesis by blast
qed

theorem rwlock_drains_witness:
  "reachable 2 (busy_lock, busy_threads) \<and> busy_threads 1 \<noteq> Idle \<and>
   (\<nexists>f. f 0 = (busy_lock, busy_threads) \<and> (\<forall>k. run 2 (f k) (f (Suc k)))) \<and>
   (\<nexists>s'. (run 2)\<^sup>*\<^sup>* (busy_lock, busy_threads) s' \<and> (\<nexists>s''. run 2 s' s'') \<and> (\<exists>i. snd s' i \<noteq> Idle))"
  using rwlock_drains [OF busy_reachable] busy_reachable by (simp add: busy_threads_def) blast

end
