(* ===== verification/LsmCoding.thy ===== *)
theory LsmCoding
  imports Prelude "HOL-Library.Word"
begin

unbundle bit_operations_syntax

text \<open>
  The variable-length integers of \<open>DataStruct_learn/Tree/lsm-trie/coding.c\<close>. The encoders write through the
  pointer they get and return the one behind the last byte: the model gives the bytes written, so that the
  returned pointer is \<open>dst\<close> plus their number. The decoders read from \<open>src\<close>, here the bytes found there,
  and return the pointer behind what they read, here its distance from \<open>src\<close>; reading behind the end of
  the bytes has no result.
\<close>

section \<open>Definitions\<close>

abbreviation B :: "64 word" where "B \<equiv> 0x80"
abbreviation M :: "64 word" where "M \<equiv> 0x7f"

lemma unat_shift7: "unat (drop_bit 7 t) = unat t div 128" for t :: "64 word"
  unfolding unat_drop_bit_eq by (simp add: drop_bit_eq_div)

function encode_uint64 :: "64 word \<Rightarrow> 8 word list" where
  "encode_uint64 t = (if t \<ge> B then (ucast ((t AND M) OR B)) # encode_uint64 (drop_bit 7 t) else [ucast t])"
  by auto
termination
proof (relation "measure unat")
  fix t :: "64 word" assume "B \<le> t"
  then have "128 \<le> unat t" by (simp add: word_le_nat_alt)
  then show "(drop_bit 7 t, t) \<in> measure unat" by (simp add: unat_shift7)
qed simp

text \<open>The loop with its counter \<open>shift\<close>; \<open>p\<close> counts the bytes read.\<close>

function decode_uint_loop :: "8 word list \<Rightarrow> nat \<Rightarrow> 64 word \<Rightarrow> nat \<Rightarrow> (nat \<times> 64 word) option" where
  "decode_uint_loop src shift result p =
     (if shift \<le> 63 then do {
        b \<leftarrow> aget src p;
        let byte = ucast b;
        if byte AND B \<noteq> 0 then decode_uint_loop src (shift + 7) (result OR push_bit shift (byte AND M)) (p + 1)
        else Some (p + 1, result OR push_bit shift byte) }
      else Some (0, 0))"
  by auto
termination by (relation "measure (\<lambda>(src, shift, result, p). 64 - shift)") auto

definition decode_uint64 :: "8 word list \<Rightarrow> (nat \<times> 64 word) option" where
  "decode_uint64 src = decode_uint_loop src 0 0 0"

definition encode_uint16 :: "16 word \<Rightarrow> 8 word list" where
  "encode_uint16 v = encode_uint64 (ucast v)"

definition encode_uint32 :: "32 word \<Rightarrow> 8 word list" where
  "encode_uint32 v = encode_uint64 (ucast v)"

definition decode_uint16 :: "8 word list \<Rightarrow> (nat \<times> 16 word) option" where
  "decode_uint16 src = do { (p, v) \<leftarrow> decode_uint64 src; Some (p, ucast v) }"

definition decode_uint32 :: "8 word list \<Rightarrow> (nat \<times> 32 word) option" where
  "decode_uint32 src = do { (p, v) \<leftarrow> decode_uint64 src; Some (p, ucast v) }"

declare encode_uint64.simps [simp del] decode_uint_loop.simps [simp del]

section \<open>The bytes\<close>

lemma and_M: "t AND M = take_bit 7 t"
proof -
  have "mask 7 = M" by (simp add: mask_eq_exp_minus_1)
  then show ?thesis by (simp add: take_bit_eq_mask)
qed

lemma or_B: "t OR B = set_bit 7 t"
  by (simp add: set_bit_eq_or)

lemma and_B: "t AND B = 0 \<longleftrightarrow> \<not> bit t 7"
proof -
  have "B = push_bit 7 1" by simp
  then show ?thesis by (simp only: and_exp_eq_0_iff_not_bit push_bit_of_1)
qed

lemma more_byte:
  fixes t :: "64 word"
  defines "byte \<equiv> (ucast (ucast ((t AND M) OR B) :: 8 word) :: 64 word)"
  shows "byte AND B \<noteq> 0" "byte AND M = take_bit 7 t"
proof -
  have b: "bit byte n \<longleftrightarrow> n < 7 \<and> bit t n \<or> n = 7" for n
    unfolding byte_def and_M or_B by (auto simp: bit_simps simp del: bit_numeral_iff)
  show "byte AND B \<noteq> 0" unfolding and_B by (simp add: b)
  show "byte AND M = take_bit 7 t" unfolding and_M by (rule bit_eqI) (auto simp: bit_take_bit_iff b)
qed

lemma last_byte:
  assumes "\<not> t \<ge> B"
  shows "(ucast (ucast t :: 8 word) :: 64 word) = t" "(ucast (ucast t :: 8 word) :: 64 word) AND B = 0"
proof -
  have t: "unat t < 128" using assms by (simp add: word_le_nat_alt)
  then show e: "(ucast (ucast t :: 8 word) :: 64 word) = t" by (simp add: unsigned_ucast_eq unsigned_take_bit_eq word_unat_eq_iff take_bit_nat_eq_self_iff)
  have "\<not> bit (unat t) 7" using t by (simp add: bit_nat_def)
  then show "(ucast (ucast t :: 8 word) :: 64 word) AND B = 0" using e by (simp add: and_B bit_unsigned_iff)
qed

lemma shift_parts: "(r OR push_bit s (take_bit 7 t)) OR push_bit (s + 7) (drop_bit 7 t) = r OR push_bit s t" for t :: "64 word"
proof (rule bit_word_eqI)
  fix n assume "n < LENGTH(64)"
  moreover have "7 + (n - (s + 7)) = n - s" if "s + 7 \<le> n" using that by simp
  ultimately show "bit ((r OR push_bit s (take_bit 7 t)) OR push_bit (s + 7) (drop_bit 7 t)) n = bit (r OR push_bit s t) n"
    by (cases "s + 7 \<le> n") (auto simp: bit_simps)
qed

section \<open>Round trip\<close>

lemma unat_less: "unat (x :: 'a::len word) < 2 ^ LENGTH('a)"
  by (rule unsigned_less)

lemma unat_ucast_le: "unat (ucast w :: 64 word) \<le> unat w"
  by (simp add: unsigned_ucast_eq)

lemma aget_drop: "drop p src = x # xs \<Longrightarrow> aget src p = Some x \<and> drop (p + 1) src = xs"
proof -
  assume d: "drop p src = x # xs"
  then have "p < length src" by (metis drop_all list.discI not_le)
  then show ?thesis using d Cons_nth_drop_Suc [of p src] by (simp add: aget_in)
qed

lemma decode_encode:
  "unat t < 2 ^ (64 - s) \<Longrightarrow> s \<le> 63 \<Longrightarrow> drop p src = encode_uint64 t @ rest \<Longrightarrow>
   decode_uint_loop src s r p = Some (p + length (encode_uint64 t), r OR push_bit s t)"
proof (induction t arbitrary: s r p rule: encode_uint64.induct)
  case (1 t)
  note e = encode_uint64.simps [of t]
  show ?case
  proof (cases "t \<ge> B")
    case True
    then have t: "128 \<le> unat t" by (simp add: word_le_nat_alt)
    have s: "s + 7 \<le> 63"
    proof (rule ccontr)
      assume "\<not> s + 7 \<le> 63"
      then have "(2::nat) ^ (64 - s) \<le> 2 ^ 7" by (intro power_increasing) auto
      then show False using t "1.prems"(1) by simp
    qed
    then have "64 - s = 64 - (s + 7) + 7" by simp
    then have "(2::nat) ^ (64 - s) = 2 ^ (64 - (s + 7)) * 2 ^ 7" by (metis power_add)
    then have u: "unat (drop_bit 7 t) < 2 ^ (64 - (s + 7))" using "1.prems"(1) by (simp add: unat_shift7 less_mult_imp_div_less)
    have d: "aget src p = Some (ucast ((t AND M) OR B))" "drop (p + 1) src = encode_uint64 (drop_bit 7 t) @ rest"
      using aget_drop [of p src "ucast ((t AND M) OR B)"] "1.prems"(3) True by (simp_all add: e)
    have "decode_uint_loop src s r p = decode_uint_loop src (s + 7) (r OR push_bit s (take_bit 7 t)) (p + 1)"
      using d(1) "1.prems"(2) more_byte [of t] by (subst decode_uint_loop.simps) simp
    also have "\<dots> = Some (p + 1 + length (encode_uint64 (drop_bit 7 t)), r OR push_bit s t)"
      unfolding "1.IH" [OF True u s d(2)] shift_parts by simp
    finally show ?thesis using True by (simp add: e)
  next
    case False
    then have "aget src p = Some (ucast t)" using aget_drop [of p src] "1.prems"(3) by (simp add: e)
    then show ?thesis using False "1.prems"(2) last_byte [OF False] by (subst decode_uint_loop.simps) (simp add: e)
  qed
qed

lemma length_encode: "unat t < 2 ^ (7 * Suc k) \<Longrightarrow> length (encode_uint64 t) \<le> Suc k"
proof (induction k arbitrary: t)
  case 0
  then have "\<not> t \<ge> B" by (simp add: word_le_nat_alt)
  then show ?case by (subst encode_uint64.simps) simp
next
  case (Suc k)
  have "(2::nat) ^ (7 * Suc (Suc k)) = 2 ^ (7 * Suc k) * 128" by (simp add: power_add)
  then have "unat (drop_bit 7 t) < 2 ^ (7 * Suc k)" using Suc.prems by (simp only: unat_shift7 less_mult_imp_div_less)
  then show ?case using Suc.IH [of "drop_bit 7 t"] by (subst encode_uint64.simps) simp
qed

lemma decode_uint64_encode: "decode_uint64 (encode_uint64 v @ rest) = Some (length (encode_uint64 v), v)"
  using decode_encode [of v 0 0 "encode_uint64 v @ rest" rest 0] unat_less [of v] by (simp add: decode_uint64_def)

text \<open>The loop reads at most ten bytes.\<close>

lemma decode_uint_total:
  "10 \<le> length src \<Longrightarrow> \<exists>n v. decode_uint_loop src (7 * p) r p = Some (n, v) \<and> n \<le> 10"
proof (induction "10 - p" arbitrary: p r)
  case 0
  then show ?case by (subst decode_uint_loop.simps) simp
next
  case (Suc k)
  then have p: "p \<le> 9" "aget src p = Some (src ! p)" by (simp_all add: aget_in)
  have k: "k = 10 - Suc p" using Suc(2) by simp
  show ?case using p Suc(1) [OF k Suc.prems] by (subst decode_uint_loop.simps) (simp add: Let_def add.commute)
qed

section \<open>Property\<close>

text \<open>
  C22 (decoding inverts encoding). Whatever follows in memory, decoding gives back the encoded number of 64,
  32 or 16 bits and the pointer behind its encoding, which has between one and ten, five or three bytes.
\<close>
theorem uint_round_trip:
  "decode_uint64 (encode_uint64 v @ rest) = Some (length (encode_uint64 v), v) \<and> length (encode_uint64 v) \<in> {1..10} \<and>
   decode_uint32 (encode_uint32 w @ rest) = Some (length (encode_uint32 w), w) \<and> length (encode_uint32 w) \<in> {1..5} \<and>
   decode_uint16 (encode_uint16 x @ rest) = Some (length (encode_uint16 x), x) \<and> length (encode_uint16 x) \<in> {1..3}"
proof -
  have p: "1 \<le> length (encode_uint64 t)" for t by (subst encode_uint64.simps) simp
  have "length (encode_uint64 v) \<le> 10" using length_encode [of v 9] unat_less [of v] by simp
  moreover have "length (encode_uint32 w) \<le> 5"
    using length_encode [of "ucast w" 4] le_less_trans [OF unat_ucast_le unat_less, of w] by (simp add: encode_uint32_def)
  moreover have "length (encode_uint16 x) \<le> 3"
    using length_encode [of "ucast x" 2] le_less_trans [OF unat_ucast_le unat_less, of x] by (simp add: encode_uint16_def)
  moreover have "ucast (ucast w :: 64 word) = w" "ucast (ucast x :: 64 word) = x" by (rule bit_word_eqI, simp add: bit_simps)+
  ultimately show ?thesis using p
    by (simp add: decode_uint64_encode decode_uint32_def decode_uint16_def encode_uint32_def encode_uint16_def)
qed

end
