(* ===== verification/LsmBloom.thy ===== *)
theory LsmBloom
  imports LsmCoding
begin

text \<open>
  The Bloom filters of \<open>DataStruct_learn/Tree/lsm-trie/bloom.c\<close> and the table that stores many of them one
  behind the other, each with its length encoded as in \<open>LsmCoding\<close>, with the offset of every sixteenth.
  A pointer into the table is its distance from \<open>raw_bf\<close>. A failed assertion, an access outside a block of
  memory and the use of NULL have no result. Allocators answer with a block of arbitrary contents or NULL.
\<close>

section \<open>Filters\<close>

record BloomFilter =
  bf_bytes :: "32 word"
  bf_nr_keys :: "32 word"
  bf_filter :: "8 word list"

definition bloom_bytes_to_bits :: "32 word \<Rightarrow> 64 word" where
  "bloom_bytes_to_bits len = ucast (push_bit 3 len - 3)"

text \<open>The flag says whether \<open>mempool_alloc\<close> has the memory.\<close>

definition bloom_create :: "bool \<Rightarrow> 32 word \<Rightarrow> BloomFilter option" where
  "bloom_create mempool nr_keys =
     (let bytes0 = drop_bit 3 (nr_keys * 16 + 7);
          bytes = (if bytes0 < 8 then 8 else bytes0)
      in if mempool then Some \<lparr>bf_bytes = bytes, bf_nr_keys = 0, bf_filter = replicate (unat bytes) 0\<rparr> else None)"

definition NR_PROBES :: nat where "NR_PROBES = 11"

definition hash_delta :: "64 word \<Rightarrow> 64 word" where
  "hash_delta h = drop_bit 31 h OR push_bit 33 h"

function update_loop_bf :: "64 word \<Rightarrow> 64 word \<Rightarrow> nat \<Rightarrow> 64 word \<Rightarrow> 8 word list \<Rightarrow> 8 word list option" where
  "update_loop_bf delta bits j h flt =
     (if j < NR_PROBES then do {
        let bitpos = h mod bits;
        b \<leftarrow> aget flt (unat (drop_bit 3 bitpos));
        flt \<leftarrow> aset flt (unat (drop_bit 3 bitpos)) (ucast ((ucast b :: 32 word) OR push_bit (unat (bitpos mod 8)) 1));
        update_loop_bf delta bits (j + 1) (h + delta) flt }
      else Some flt)"
  by auto
termination by (relation "measure (\<lambda>(delta, bits, j, h, flt). NR_PROBES - j)") auto

definition bloom_update :: "BloomFilter \<Rightarrow> 64 word \<Rightarrow> BloomFilter option" where
  "bloom_update bf hv = do {
     flt \<leftarrow> update_loop_bf (hash_delta hv) (bloom_bytes_to_bits (bf_bytes bf)) 0 hv (bf_filter bf);
     Some (bf\<lparr>bf_filter := flt, bf_nr_keys := bf_nr_keys bf + 1\<rparr>) }"

function match_loop :: "64 word \<Rightarrow> 64 word \<Rightarrow> nat \<Rightarrow> 64 word \<Rightarrow> 8 word list \<Rightarrow> bool option" where
  "match_loop delta bits j h flt =
     (if j < NR_PROBES then do {
        let bitpos = h mod bits;
        b \<leftarrow> aget flt (unat (drop_bit 3 bitpos));
        if (ucast b :: 32 word) AND push_bit (unat (bitpos mod 8)) 1 = 0 then Some False
        else match_loop delta bits (j + 1) (h + delta) flt }
      else Some True)"
  by auto
termination by (relation "measure (\<lambda>(delta, bits, j, h, flt). NR_PROBES - j)") auto

definition bloom_match_raw :: "8 word list \<Rightarrow> 32 word \<Rightarrow> 64 word \<Rightarrow> bool option" where
  "bloom_match_raw flt bytes hv = match_loop (hash_delta hv) (bloom_bytes_to_bits bytes) 0 hv flt"

definition bloom_match :: "BloomFilter \<Rightarrow> 64 word \<Rightarrow> bool option" where
  "bloom_match bf hv = bloom_match_raw (bf_filter bf) (bf_bytes bf) hv"

declare update_loop_bf.simps [simp del] match_loop.simps [simp del]

section \<open>Tables\<close>

record BloomTable =
  bt_raw_bf :: "8 word list"
  bt_nr_bf :: "32 word"
  bt_nr_bytes :: "32 word"
  bt_offsets :: "32 word list"

definition BLOOMTABLE_INTERVAL :: nat where "BLOOMTABLE_INTERVAL = 16"
definition MAX_OFFSETS :: nat where "MAX_OFFSETS = 8192 div 16"

definition put :: "8 word list \<Rightarrow> nat \<Rightarrow> 8 word list \<Rightarrow> (8 word list \<times> nat) option" where
  "put raw ptr bs = (if ptr + length bs \<le> length raw then Some (buf_write raw ptr bs, ptr + length bs) else None)"

primrec count_bytes :: "BloomFilter list \<Rightarrow> 32 word \<Rightarrow> 32 word" where
  "count_bytes [] all_bytes = all_bytes"
| "count_bytes (bf # bfs) all_bytes =
     count_bytes bfs (all_bytes + (of_nat (length (encode_uint64 (ucast (bf_bytes bf)))) + bf_bytes bf))"

primrec build_loop ::
  "BloomFilter list \<Rightarrow> nat \<Rightarrow> nat \<Rightarrow> 8 word list \<Rightarrow> 32 word list \<Rightarrow> (8 word list \<times> 32 word list) option" where
  "build_loop [] i ptr raw offsets = Some (raw, offsets)"
| "build_loop (bf # bfs) i ptr raw offsets = do {
     offsets \<leftarrow> (if i mod BLOOMTABLE_INTERVAL = 0 then aset offsets (i div BLOOMTABLE_INTERVAL) (of_nat ptr) else Some offsets);
     (raw, pfilter) \<leftarrow> put raw ptr (encode_uint64 (ucast (bf_bytes bf)));
     (raw, ptr) \<leftarrow> (if unat (bf_bytes bf) \<le> length (bf_filter bf) then put raw pfilter (take (unat (bf_bytes bf)) (bf_filter bf)) else None);
     build_loop bfs (i + 1) ptr raw offsets }"

definition bloomtable_build ::
  "(nat \<Rightarrow> 32 word list option) \<Rightarrow> (nat \<Rightarrow> 8 word list option) \<Rightarrow> BloomFilter list \<Rightarrow> BloomTable option" where
  "bloomtable_build Ao Ab bfs = do {
     let nr_offsets = (length bfs + BLOOMTABLE_INTERVAL - 1) div BLOOMTABLE_INTERVAL;
     offsets \<leftarrow> Ao nr_offsets;
     let all_bytes = count_bytes bfs 0;
     raw_bf \<leftarrow> Ab (unat (all_bytes + 8));
     (raw_bf, offsets) \<leftarrow> build_loop bfs 0 0 raw_bf offsets;
     if length bfs < 0x100000000
     then Some \<lparr>bt_raw_bf = raw_bf, bt_nr_bf = of_nat (length bfs), bt_nr_bytes = all_bytes, bt_offsets = offsets\<rparr>
     else None }"

text \<open>A \<open>uint32_t\<close> as \<open>fwrite\<close> and \<open>fread\<close> transfer it on a little-endian machine.\<close>

definition le32 :: "32 word \<Rightarrow> 8 word list" where
  "le32 w = [ucast w, ucast (drop_bit 8 w), ucast (drop_bit 16 w), ucast (drop_bit 24 w)]"

fun of_le32 :: "8 word list \<Rightarrow> 32 word option" where
  "of_le32 (a # b # c # d # rest) = Some (ucast a OR push_bit 8 (ucast b) OR push_bit 16 (ucast c) OR push_bit 24 (ucast d))"
| "of_le32 bs = None"

text \<open>The bytes written to the file.\<close>

definition bloomtable_dump :: "BloomTable \<Rightarrow> 8 word list option" where
  "bloomtable_dump bt =
     (if unat (bt_nr_bytes bt) \<le> length (bt_raw_bf bt)
      then Some (le32 (bt_nr_bytes bt) @ take (unat (bt_nr_bytes bt)) (bt_raw_bf bt)) else None)"

function scan_items :: "8 word list \<Rightarrow> nat \<Rightarrow> nat \<Rightarrow> nat \<Rightarrow> nat \<Rightarrow> 32 word list \<Rightarrow> (nat \<times> nat \<times> nat \<times> 32 word list) option" where
  "scan_items raw raw_size ptr i nr_offsets offsets =
     (if ptr < raw_size then do {
        (n, bf_len) \<leftarrow> decode_uint64 (drop ptr raw);
        if n = 0 \<or> bf_len = 0 then None else do {
          (offsets, nr_offsets) \<leftarrow> (if i mod BLOOMTABLE_INTERVAL = 0
             then do { offsets \<leftarrow> aset offsets (i div BLOOMTABLE_INTERVAL) (of_nat ptr); Some (offsets, nr_offsets + 1) }
             else Some (offsets, nr_offsets));
          scan_items raw raw_size (ptr + n + unat bf_len) (i + 1) nr_offsets offsets } }
      else Some (ptr, i, nr_offsets, offsets))"
  by auto
termination by (relation "measure (\<lambda>(raw, raw_size, ptr, i, nr_offsets, offsets). raw_size - ptr)") auto

text \<open>\<open>offsets0\<close> is what the local array holds before it is written.\<close>

definition bloomtable_load :: "(nat \<Rightarrow> 8 word list option) \<Rightarrow> 32 word list \<Rightarrow> 8 word list \<Rightarrow> BloomTable option" where
  "bloomtable_load Ab offsets0 fi = do {
     raw_size \<leftarrow> of_le32 fi;
     raw_bf \<leftarrow> Ab (unat (raw_size + 8));
     (raw_bf, p) \<leftarrow> (if unat raw_size \<le> length (drop 4 fi) then put raw_bf 0 (take (unat raw_size) (drop 4 fi)) else None);
     (ptr, nr_bf, nr_offsets, offsets) \<leftarrow> scan_items raw_bf (unat raw_size) 0 0 0 offsets0;
     if ptr = unat raw_size
     then Some \<lparr>bt_raw_bf = raw_bf, bt_nr_bf = of_nat nr_bf, bt_nr_bytes = raw_size, bt_offsets = take nr_offsets offsets\<rparr>
     else None }"

primrec skip_loop :: "8 word list \<Rightarrow> nat \<Rightarrow> nat \<Rightarrow> nat option" where
  "skip_loop raw 0 ptr = Some ptr"
| "skip_loop raw (Suc k) ptr = do {
     (n, bf_len) \<leftarrow> decode_uint64 (drop ptr raw);
     if n = 0 \<or> bf_len = 0 then None else skip_loop raw k (ptr + n + unat bf_len) }"

definition bloomtable_match :: "BloomTable \<Rightarrow> 32 word \<Rightarrow> 64 word \<Rightarrow> bool option" where
  "bloomtable_match bt index hv =
     (if \<not> index < bt_nr_bf bt then None
      else do {
        let ixix = unat index div BLOOMTABLE_INTERVAL;
        ptr0 \<leftarrow> aget (bt_offsets bt) ixix;
        ptr \<leftarrow> skip_loop (bt_raw_bf bt) (unat index - ixix * BLOOMTABLE_INTERVAL) (unat ptr0);
        (n, bytes) \<leftarrow> decode_uint32 (drop ptr (bt_raw_bf bt));
        if n = 0 \<or> bytes = 0 then None else bloom_match_raw (drop (ptr + n) (bt_raw_bf bt)) bytes hv })"

declare scan_items.simps [simp del]

section \<open>Probes\<close>

text \<open>The bit with number \<open>pos\<close> of a filter, and the bit numbers a hash value stands for.\<close>

definition filter_bit :: "8 word list \<Rightarrow> 64 word \<Rightarrow> bool" where
  "filter_bit flt pos = bit (flt ! unat (drop_bit 3 pos)) (unat (pos mod 8))"

primrec probes :: "64 word \<Rightarrow> 64 word \<Rightarrow> nat \<Rightarrow> 64 word \<Rightarrow> 64 word list" where
  "probes delta bits 0 h = []"
| "probes delta bits (Suc n) h = (h mod bits) # probes delta bits n (h + delta)"

definition wide :: "8 word list \<Rightarrow> 64 word \<Rightarrow> bool" where
  "wide flt bits \<longleftrightarrow> bits \<noteq> 0 \<and> unat bits \<le> 8 * length flt"

lemma bits_odd:
  assumes "len \<noteq> 0"
  shows "bloom_bytes_to_bits len \<noteq> 0" "unat (bloom_bytes_to_bits len) \<le> 8 * unat len"
proof -
  define m where "m = 8 * unat len mod 2 ^ 32"
  have m: "unat (push_bit 3 len) = m" by (simp add: m_def push_bit_eq_mult unat_word_ariths mult.commute)
  have d: "8 dvd m" unfolding m_def by (intro dvd_mod) auto
  have u: "unat (bloom_bytes_to_bits len) = unat (push_bit 3 len - 3)"
    using unat_less [of "push_bit 3 len - 3"] by (simp add: bloom_bytes_to_bits_def unsigned_ucast_eq take_bit_nat_eq_self_iff)
  have "0 < unat (push_bit 3 len - 3) \<and> unat (push_bit 3 len - 3) \<le> 8 * unat len"
  proof (cases "m = 0")
    case True
    then have z: "push_bit 3 len = 0" using m by (simp add: unat_eq_zero)
    have "8 * unat len \<noteq> 0" using assms by (simp add: unat_eq_zero)
    then have "2 ^ 32 \<le> 8 * unat len" using True unfolding m_def by (metis mod_less not_le)
    then show ?thesis using z by simp
  next
    case False
    then have "8 \<le> m" using d by (simp add: dvd_imp_le)
    then have "unat (push_bit 3 len - 3) = m - 3" using m by (subst unat_sub) (simp_all add: word_le_nat_alt)
    moreover have "m \<le> 8 * unat len" by (simp add: m_def)
    ultimately show ?thesis using \<open>8 \<le> m\<close> by simp
  qed
  then show "bloom_bytes_to_bits len \<noteq> 0" "unat (bloom_bytes_to_bits len) \<le> 8 * unat len"
    using u by auto
qed

lemma wide_filter: "bytes \<noteq> 0 \<Longrightarrow> unat bytes \<le> length flt \<Longrightarrow> wide flt (bloom_bytes_to_bits bytes)"
  using bits_odd [of bytes] by (simp add: wide_def)

lemma unat_shift3: "unat (drop_bit 3 x) = unat x div 8" for x :: "64 word"
  unfolding unat_drop_bit_eq by (simp add: drop_bit_eq_div)

lemma probe_in: "wide flt bits \<Longrightarrow> unat (drop_bit 3 (h mod bits)) < length flt"
proof -
  assume w: "wide flt bits"
  then have "unat (h mod bits) < unat bits" by (simp add: wide_def unat_mod unat_gt_0)
  then have "unat (h mod bits) < length flt * 8" using w by (simp add: wide_def)
  then show ?thesis unfolding unat_shift3 by (rule less_mult_imp_div_less)
qed

lemma bit_in_byte: "unat (x mod 8) < 8" for x :: "64 word"
  by (simp add: unat_mod)

lemma test_bit_byte:
  "(ucast (b :: 8 word) :: 32 word) AND push_bit (unat (x mod 8)) 1 = 0 \<longleftrightarrow> \<not> bit b (unat (x mod 8))" for x :: "64 word"
  using bit_in_byte [of x] by (simp add: and_exp_eq_0_iff_not_bit push_bit_of_1 bit_ucast_iff)

lemma set_bit_byte:
  "(ucast ((ucast (b :: 8 word) :: 32 word) OR push_bit (unat (x mod 8)) 1) :: 8 word) = set_bit (unat (x mod 8)) b" for x :: "64 word"
  using bit_in_byte [of x] by (intro bit_word_eqI) (auto simp: bit_simps set_bit_eq_or)

lemma filter_bit_set:
  assumes "unat (drop_bit 3 p) < length flt"
  shows "filter_bit (flt[unat (drop_bit 3 p) := set_bit (unat (p mod 8)) (flt ! unat (drop_bit 3 p))]) q \<longleftrightarrow>
    filter_bit flt q \<or> q = p"
proof -
  have e: "q = p" if "unat (drop_bit 3 q) = unat (drop_bit 3 p)" "unat (q mod 8) = unat (p mod 8)"
  proof -
    have "unat q div 8 = unat p div 8" "unat q mod 8 = unat p mod 8" using that by (simp_all add: unat_shift3 unat_mod)
    then show ?thesis by (metis div_mult_mod_eq word_unat_eq_iff)
  qed
  have "unat (p mod 8) < LENGTH(8)" using bit_in_byte [of p] by simp
  then show ?thesis using assms e
    by (cases "unat (drop_bit 3 q) = unat (drop_bit 3 p)") (auto simp: filter_bit_def bit_set_bit_iff)
qed

lemma update_loop_eq:
  "wide flt bits \<Longrightarrow> \<exists>flt'. update_loop_bf delta bits j h flt = Some flt' \<and> length flt' = length flt \<and>
    (\<forall>q. filter_bit flt' q \<longleftrightarrow> filter_bit flt q \<or> q \<in> set (probes delta bits (NR_PROBES - j) h))"
proof (induction "NR_PROBES - j" arbitrary: j h flt)
  case 0
  then show ?case by (subst update_loop_bf.simps) simp
next
  case (Suc n)
  let ?p = "h mod bits"
  let ?i = "unat (drop_bit 3 ?p)"
  define flt1 where "flt1 = flt[?i := set_bit (unat (?p mod 8)) (flt ! ?i)]"
  have i: "?i < length flt" by (rule probe_in [OF Suc.prems])
  have j: "j < NR_PROBES" "n = NR_PROBES - (j + 1)" using Suc(2) by simp_all
  have w: "wide flt1 bits" using Suc.prems by (simp add: wide_def flt1_def)
  have e: "update_loop_bf delta bits j h flt = update_loop_bf delta bits (j + 1) (h + delta) flt1"
    unfolding flt1_def by (subst update_loop_bf.simps) (simp only: Let_def j(1) if_True aget_in [OF i] aset_in [OF i] bind.bind_lunit set_bit_byte)
  obtain flt' where f: "update_loop_bf delta bits (j + 1) (h + delta) flt1 = Some flt'" "length flt' = length flt1"
    "\<forall>q. filter_bit flt' q \<longleftrightarrow> filter_bit flt1 q \<or> q \<in> set (probes delta bits (NR_PROBES - (j + 1)) (h + delta))"
    using Suc(1) [OF j(2) w, of "h + delta"] by blast
  have "filter_bit flt' q \<longleftrightarrow> filter_bit flt q \<or> q \<in> set (probes delta bits (NR_PROBES - j) h)" for q
    using f(3) filter_bit_set [OF i, of q] j(2) unfolding Suc(2) [symmetric] flt1_def [symmetric] by auto
  then show ?case using f(1,2) e by (simp add: flt1_def)
qed

lemma match_loop_eq:
  "wide flt bits \<Longrightarrow> match_loop delta bits j h flt = Some (\<forall>q\<in>set (probes delta bits (NR_PROBES - j) h). filter_bit flt q)"
proof (induction "NR_PROBES - j" arbitrary: j h)
  case 0
  then show ?case by (subst match_loop.simps) simp
next
  case (Suc n)
  let ?p = "h mod bits"
  have i: "unat (drop_bit 3 ?p) < length flt" by (rule probe_in [OF Suc.prems])
  have j: "j < NR_PROBES" "n = NR_PROBES - (j + 1)" using Suc(2) by simp_all
  have "match_loop delta bits j h flt = (if \<not> filter_bit flt ?p then Some False else match_loop delta bits (j + 1) (h + delta) flt)"
    unfolding filter_bit_def
    by (subst match_loop.simps) (simp only: Let_def j(1) if_True aget_in [OF i] bind.bind_lunit test_bit_byte)
  then show ?case using Suc(1) [OF j(2) Suc.prems, of "h + delta"] j(2) unfolding Suc(2) [symmetric] by simp
qed

lemma bloom_match_raw_append:
  assumes "bytes \<noteq> 0" "unat bytes \<le> length flt"
  shows "bloom_match_raw (flt @ rest) bytes hv = bloom_match_raw flt bytes hv"
proof -
  let ?b = "bloom_bytes_to_bits bytes"
  have w: "wide flt ?b" "wide (flt @ rest) ?b" using wide_filter assms by auto
  have "filter_bit (flt @ rest) (h mod ?b) = filter_bit flt (h mod ?b)" for h
    using probe_in [OF w(1), of h] by (simp add: filter_bit_def nth_append)
  then have "(\<forall>q\<in>set (probes d ?b n h). filter_bit (flt @ rest) q) \<longleftrightarrow> (\<forall>q\<in>set (probes d ?b n h). filter_bit flt q)" for d n h
    by (induction n arbitrary: h) simp_all
  then show ?thesis using match_loop_eq [OF w(1)] match_loop_eq [OF w(2)] by (simp add: bloom_match_raw_def)
qed

definition wf_filter :: "BloomFilter \<Rightarrow> bool" where
  "wf_filter bf \<longleftrightarrow> bf_bytes bf \<noteq> 0 \<and> length (bf_filter bf) = unat (bf_bytes bf)"

lemma bloom_create_wf: "\<exists>bf. bloom_create True n = Some bf \<and> wf_filter bf"
proof -
  have "(8 :: 32 word) \<noteq> 0" by simp
  then show ?thesis by (auto simp: bloom_create_def wf_filter_def Let_def)
qed

text \<open>The hash values a filter answers for are those all of whose bits are set.\<close>

definition bf_probes :: "BloomFilter \<Rightarrow> 64 word \<Rightarrow> 64 word set" where
  "bf_probes bf hv = set (probes (hash_delta hv) (bloom_bytes_to_bits (bf_bytes bf)) NR_PROBES hv)"

lemma bloom_match_eq: "wf_filter bf \<Longrightarrow> bloom_match bf hv = Some (\<forall>q\<in>bf_probes bf hv. filter_bit (bf_filter bf) q)"
  using match_loop_eq [OF wide_filter, of "bf_bytes bf" "bf_filter bf" "hash_delta hv" 0 hv]
  by (simp add: bloom_match_def bloom_match_raw_def wf_filter_def bf_probes_def)

lemma bloom_update_ok:
  assumes "wf_filter bf"
  shows "\<exists>bf'. bloom_update bf hv = Some bf' \<and> wf_filter bf' \<and> bf_bytes bf' = bf_bytes bf \<and>
    (\<forall>q. filter_bit (bf_filter bf') q \<longleftrightarrow> filter_bit (bf_filter bf) q \<or> q \<in> bf_probes bf hv)"
proof -
  let ?b = "bloom_bytes_to_bits (bf_bytes bf)"
  have w: "wide (bf_filter bf) ?b" using assms by (intro wide_filter) (simp_all add: wf_filter_def)
  obtain flt where f: "update_loop_bf (hash_delta hv) ?b 0 hv (bf_filter bf) = Some flt" "length flt = length (bf_filter bf)"
    "\<forall>q. filter_bit flt q \<longleftrightarrow> filter_bit (bf_filter bf) q \<or> q \<in> bf_probes bf hv"
    using update_loop_eq [OF w, of "hash_delta hv" 0 hv] unfolding bf_probes_def diff_zero by blast
  then show ?thesis using assms by (simp add: bloom_update_def wf_filter_def)
qed

primrec bloom_updates :: "BloomFilter \<Rightarrow> 64 word list \<Rightarrow> BloomFilter option" where
  "bloom_updates bf [] = Some bf"
| "bloom_updates bf (hv # hvs) = do { bf \<leftarrow> bloom_update bf hv; bloom_updates bf hvs }"

lemma bloom_updates_ok:
  "wf_filter bf \<Longrightarrow> \<exists>bf'. bloom_updates bf hvs = Some bf' \<and> wf_filter bf' \<and> bf_bytes bf' = bf_bytes bf \<and>
    (\<forall>q. filter_bit (bf_filter bf') q \<longleftrightarrow> filter_bit (bf_filter bf) q \<or> (\<exists>hv\<in>set hvs. q \<in> bf_probes bf hv))"
proof (induction hvs arbitrary: bf)
  case (Cons hv hvs)
  obtain bf1 where b1: "bloom_update bf hv = Some bf1" "wf_filter bf1" "bf_bytes bf1 = bf_bytes bf"
    "\<forall>q. filter_bit (bf_filter bf1) q \<longleftrightarrow> filter_bit (bf_filter bf) q \<or> q \<in> bf_probes bf hv"
    using bloom_update_ok [OF Cons.prems, of hv] by blast
  obtain bf2 where b2: "bloom_updates bf1 hvs = Some bf2" "wf_filter bf2" "bf_bytes bf2 = bf_bytes bf1"
    "\<forall>q. filter_bit (bf_filter bf2) q \<longleftrightarrow> filter_bit (bf_filter bf1) q \<or> (\<exists>hv\<in>set hvs. q \<in> bf_probes bf1 hv)"
    using Cons.IH [OF b1(2)] by blast
  have "bf_probes bf1 = bf_probes bf" by (simp add: bf_probes_def b1(3) fun_eq_iff)
  then show ?case using b1 b2 by auto
qed simp

section \<open>The layout of a table\<close>

definition item :: "BloomFilter \<Rightarrow> 8 word list" where
  "item bf = encode_uint64 (ucast (bf_bytes bf)) @ bf_filter bf"

definition layout :: "BloomFilter list \<Rightarrow> 8 word list" where
  "layout bfs = concat (map item bfs)"

lemma layout_simps [simp]: "layout [] = []" "layout (bf # bfs) = item bf @ layout bfs"
  by (simp_all add: layout_def)

lemma layout_append: "layout (as @ bs) = layout as @ layout bs"
  by (simp add: layout_def)

text \<open>The offsets of every sixteenth of the filters with the numbers from \<open>i\<close>, the first at \<open>ptr\<close>.\<close>

primrec set_offsets :: "BloomFilter list \<Rightarrow> nat \<Rightarrow> nat \<Rightarrow> 32 word list \<Rightarrow> 32 word list" where
  "set_offsets [] i ptr offs = offs"
| "set_offsets (bf # bfs) i ptr offs =
     set_offsets bfs (i + 1) (ptr + length (item bf)) (if i mod 16 = 0 then offs[i div 16 := of_nat ptr] else offs)"

lemma length_set_offsets [simp]: "length (set_offsets bfs i ptr offs) = length offs"
  by (induction bfs arbitrary: i ptr offs) simp_all

lemma set_offsets_before: "16 * k < i \<Longrightarrow> set_offsets bfs i ptr offs ! k = offs ! k"
proof (induction bfs arbitrary: i ptr offs)
  case (Cons bf bfs)
  have "i div 16 \<noteq> k" if "i mod 16 = 0" using Cons.prems that by auto
  then show ?case using Cons.prems Cons.IH [of "i + 1"] by simp
qed simp

lemma set_offsets_nth:
  "i \<le> 16 * k \<Longrightarrow> 16 * k < i + length bfs \<Longrightarrow> k < length offs \<Longrightarrow>
   set_offsets bfs i ptr offs ! k = of_nat (ptr + length (layout (take (16 * k - i) bfs)))"
proof (induction bfs arbitrary: i ptr offs)
  case (Cons bf bfs)
  show ?case
  proof (cases "i = 16 * k")
    case True
    then show ?thesis using Cons.prems set_offsets_before [of k "i + 1"] by simp
  next
    case False
    then obtain m where m: "16 * k = i + Suc m" using Cons.prems(1) less_imp_Suc_add [of i "16 * k"] by auto
    then have d: "16 * k - i = Suc m" "16 * k - (i + 1) = m" by simp_all
    show ?thesis using Cons.IH [of "i + 1"] Cons.prems m unfolding d by (simp add: add.assoc)
  qed
qed simp

lemma decode_item:
  assumes "wf_filter bf"
  shows "decode_uint64 (item bf @ rest) = Some (length (encode_uint64 (ucast (bf_bytes bf))), ucast (bf_bytes bf))"
    "0 < length (encode_uint64 (ucast (bf_bytes bf)))" "(ucast (bf_bytes bf) :: 64 word) \<noteq> 0"
    "unat (ucast (bf_bytes bf) :: 64 word) = length (bf_filter bf)"
    "length (item bf) = length (encode_uint64 (ucast (bf_bytes bf))) + length (bf_filter bf)"
proof -
  show "decode_uint64 (item bf @ rest) = Some (length (encode_uint64 (ucast (bf_bytes bf))), ucast (bf_bytes bf))"
    by (simp add: item_def decode_uint64_encode)
  show "0 < length (encode_uint64 (ucast (bf_bytes bf)))" by (subst encode_uint64.simps) simp
  show u: "unat (ucast (bf_bytes bf) :: 64 word) = length (bf_filter bf)"
    using assms unat_less [of "bf_bytes bf"] by (simp add: wf_filter_def unsigned_ucast_eq take_bit_nat_eq_self_iff)
  show "(ucast (bf_bytes bf) :: 64 word) \<noteq> 0" using u assms by (auto simp: wf_filter_def unat_eq_zero)
  show "length (item bf) = length (encode_uint64 (ucast (bf_bytes bf))) + length (bf_filter bf)" by (simp add: item_def)
qed

lemma put_at: "ptr + length bs \<le> length raw \<Longrightarrow> put raw ptr bs = Some (buf_write raw ptr bs, ptr + length bs)"
  by (simp add: put_def)

lemma build_loop_eq:
  assumes "list_all wf_filter bfs" "ptr + length (layout bfs) \<le> length raw" "i + length bfs \<le> 16 * length offs"
  shows "\<exists>raw'. build_loop bfs i ptr raw offs = Some (raw', set_offsets bfs i ptr offs) \<and> length raw' = length raw \<and>
    take (ptr + length (layout bfs)) raw' = take ptr raw @ layout bfs"
  using assms
proof (induction bfs arbitrary: i ptr raw offs)
  case (Cons bf bfs)
  let ?e = "encode_uint64 (ucast (bf_bytes bf))"
  define offs1 where "offs1 = (if i mod 16 = 0 then offs[i div 16 := of_nat ptr] else offs)"
  define raw1 where "raw1 = buf_write raw ptr ?e"
  define raw2 where "raw2 = buf_write raw1 (ptr + length ?e) (bf_filter bf)"
  have f: "unat (bf_bytes bf) = length (bf_filter bf)" "length (item bf) = length ?e + length (bf_filter bf)"
    using Cons.prems(1) by (simp_all add: wf_filter_def item_def)
  have r: "ptr + length ?e \<le> length raw" "ptr + length ?e + length (bf_filter bf) \<le> length raw"
    using Cons.prems(2) f(2) by simp_all
  have l: "length raw1 = length raw" "length raw2 = length raw" using r by (simp_all add: raw1_def raw2_def)
  have "take (ptr + length ?e + length (bf_filter bf)) raw2 = take (ptr + length ?e) raw1 @ bf_filter bf"
    unfolding raw2_def using r l(1) by (intro take_buf_write_end) simp
  also have "take (ptr + length ?e) raw1 = take ptr raw @ ?e" unfolding raw1_def using r by (intro take_buf_write_end) simp
  finally have t: "take (ptr + length (item bf)) raw2 = take ptr raw @ item bf" using f(2) by (simp add: item_def add.assoc)
  have o: "(if i mod 16 = 0 then aset offs (i div 16) (of_nat ptr) else Some offs) = Some offs1"
    using Cons.prems(3) by (auto simp: offs1_def aset_in)
  have "build_loop (bf # bfs) i ptr raw offs = build_loop bfs (i + 1) (ptr + length (item bf)) raw2 offs1"
    using o put_at [OF r(1)] put_at [of "ptr + length ?e" "bf_filter bf" raw1] r(2) l(1) f
    by (cases "i mod 16 = 0") (simp_all add: BLOOMTABLE_INTERVAL_def raw1_def raw2_def add.assoc)
  moreover have "\<exists>raw'. build_loop bfs (i + 1) (ptr + length (item bf)) raw2 offs1 =
      Some (raw', set_offsets bfs (i + 1) (ptr + length (item bf)) offs1) \<and> length raw' = length raw2 \<and>
      take (ptr + length (item bf) + length (layout bfs)) raw' = take (ptr + length (item bf)) raw2 @ layout bfs"
    using Cons.prems l by (intro Cons.IH) (simp_all add: offs1_def)
  ultimately show ?case using t l by (auto simp: offs1_def add.assoc)
qed simp

text \<open>The number of offsets for \<open>i\<close> filters is \<open>(i + 15) div 16\<close>.\<close>

lemma interval_next: "(i + 15) div 16 + (if i mod 16 = 0 then 1 else 0) = (i + 1 + 15) div (16 :: nat)"
proof -
  obtain q m where i: "i = 16 * q + m" "m < 16" by (metis mod_less_divisor mult_div_mod_eq zero_less_numeral)
  have "(16 * q + m + 15) div 16 = q + (if m = 0 then 0 else 1)" using i(2) by (intro div_nat_eqI) auto
  moreover have "(16 * q + m) mod 16 = m" using i(2) by simp
  moreover have "(16 * q + m + 1 + 15) div 16 = q + 1" using i(2) by (intro div_nat_eqI) auto
  ultimately show ?thesis unfolding i(1) by simp
qed

lemma interval_covers: "n \<le> 16 * ((n + 15) div 16)" for n :: nat
  using dividend_less_times_div [of 16 "n + 15"] by simp

lemma interval_less: "16 * k < n \<Longrightarrow> k < (n + 15) div 16" for n :: nat
  by (simp add: Suc_le_eq [symmetric] less_eq_div_iff_mult_less_eq)

lemma scan_items_eq:
  assumes "list_all wf_filter bfs" "drop ptr raw = layout bfs @ rest" "i + length bfs \<le> 16 * length offs"
  shows "scan_items raw (ptr + length (layout bfs)) ptr i ((i + 15) div 16) offs =
    Some (ptr + length (layout bfs), i + length bfs, (i + length bfs + 15) div 16, set_offsets bfs i ptr offs)"
  using assms
proof (induction bfs arbitrary: i ptr offs)
  case Nil
  then show ?case by (subst scan_items.simps) simp
next
  case (Cons bf bfs)
  define offs1 where "offs1 = (if i mod 16 = 0 then offs[i div 16 := of_nat ptr] else offs)"
  have wf: "wf_filter bf" using Cons.prems(1) by simp
  note d = decode_item [OF wf]
  have dr: "drop (ptr + length (item bf)) raw = layout bfs @ rest"
    using arg_cong [OF Cons.prems(2), of "drop (length (item bf))"] by (simp add: add.commute)
  have i: "(i + 15) div 16 + (if i mod 16 = 0 then 1 else 0) = (i + 1 + 15) div 16" by (rule interval_next)
  have o: "i mod 16 = 0 \<Longrightarrow> aset offs (i div 16) (of_nat ptr) = Some offs1" "i mod 16 \<noteq> 0 \<Longrightarrow> offs1 = offs"
    using Cons.prems(3) by (auto simp: offs1_def aset_in)
  have p: "ptr + length (item bf) = ptr + length (encode_uint64 (ucast (bf_bytes bf))) + unat (ucast (bf_bytes bf) :: 64 word)"
    using d(4,5) by simp
  have "scan_items raw (ptr + length (layout (bf # bfs))) ptr i ((i + 15) div 16) offs =
      scan_items raw (ptr + length (layout (bf # bfs))) (ptr + length (item bf)) (i + 1) ((i + 1 + 15) div 16) offs1"
    using d(1) [of "layout bfs @ rest"] d(2,3) Cons.prems(2) o i p
    by (subst scan_items.simps) (cases "i mod 16 = 0"; simp add: BLOOMTABLE_INTERVAL_def d(5) add.assoc)
  also have "\<dots> = Some (ptr + length (item bf) + length (layout bfs), i + 1 + length bfs, (i + 1 + length bfs + 15) div 16,
      set_offsets bfs (i + 1) (ptr + length (item bf)) offs1)"
    using Cons.IH [OF _ dr, of "i + 1" offs1] Cons.prems by (simp add: offs1_def add.assoc)
  finally show ?case by (simp add: offs1_def add.assoc)
qed

section \<open>Looking up a filter\<close>

text \<open>A table that stores the given filters.\<close>

definition table_rep :: "BloomTable \<Rightarrow> BloomFilter list \<Rightarrow> bool" where
  "table_rep bt bfs \<longleftrightarrow> (\<exists>rest. bt_raw_bf bt = layout bfs @ rest) \<and> bt_nr_bf bt = of_nat (length bfs) \<and>
     length bfs < 2 ^ 32 \<and> length (layout bfs) < 2 ^ 32 \<and>
     (\<forall>k. 16 * k < length bfs \<longrightarrow> k < length (bt_offsets bt) \<and> bt_offsets bt ! k = of_nat (length (layout (take (16 * k) bfs))))"

lemma drop_layout:
  "i < length bfs \<Longrightarrow> \<exists>rest'. drop (length (layout (take i bfs))) (layout bfs @ rest) = item (bfs ! i) @ rest'"
proof -
  assume "i < length bfs"
  then have "bfs = take i bfs @ bfs ! i # drop (Suc i) bfs" by (rule id_take_nth_drop)
  then have "layout bfs = layout (take i bfs) @ item (bfs ! i) @ layout (drop (Suc i) bfs)"
    by (metis layout_append layout_simps(2))
  then show ?thesis by simp
qed

lemma layout_next:
  "i < length bfs \<Longrightarrow> length (layout (take (Suc i) bfs)) = length (layout (take i bfs)) + length (item (bfs ! i))"
  by (simp add: take_Suc_conv_app_nth layout_append)

lemma skip_loop_eq:
  "list_all wf_filter bfs \<Longrightarrow> i + k \<le> length bfs \<Longrightarrow>
   skip_loop (layout bfs @ rest) k (length (layout (take i bfs))) = Some (length (layout (take (i + k) bfs)))"
proof (induction k arbitrary: i)
  case (Suc k)
  have i: "i < length bfs" "wf_filter (bfs ! i)" using Suc.prems by (auto simp: list_all_length)
  note d = decode_item [OF i(2)]
  obtain rest' where r: "drop (length (layout (take i bfs))) (layout bfs @ rest) = item (bfs ! i) @ rest'"
    using drop_layout [OF i(1)] by blast
  have "length (layout (take i bfs)) + length (encode_uint64 (ucast (bf_bytes (bfs ! i)))) + unat (ucast (bf_bytes (bfs ! i)) :: 64 word) =
      length (layout (take (Suc i) bfs))"
    using layout_next [OF i(1)] d(4,5) by simp
  then show ?case using d(1) [of rest'] d(2,3) r Suc.IH [of "Suc i"] Suc.prems by simp
qed simp

lemma match_rep:
  assumes "table_rep bt bfs" "list_all wf_filter bfs" "i < length bfs"
  shows "bloomtable_match bt (of_nat i) hv = bloom_match (bfs ! i) hv"
proof -
  obtain rest where raw: "bt_raw_bf bt = layout bfs @ rest" using assms(1) by (auto simp: table_rep_def)
  have n: "length bfs < 2 ^ 32" "length (layout bfs) < 2 ^ 32" "bt_nr_bf bt = of_nat (length bfs)"
    using assms(1) by (simp_all add: table_rep_def)
  have u: "unat (of_nat i :: 32 word) = i" "unat (of_nat (length bfs) :: 32 word) = length bfs"
    using n(1) assms(3) by (simp_all add: unat_of_nat take_bit_nat_eq_self_iff)
  let ?k = "i div 16" and ?bf = "bfs ! i"
  have o: "?k < length (bt_offsets bt)" "bt_offsets bt ! ?k = of_nat (length (layout (take (16 * ?k) bfs)))"
    using assms(1,3) by (auto simp: table_rep_def)
  have "layout bfs = layout (take (16 * ?k) bfs) @ layout (drop (16 * ?k) bfs)" by (metis append_take_drop_id layout_append)
  then have "length (layout (take (16 * ?k) bfs)) < 2 ^ 32" using n(2) by simp
  then have p: "unat (of_nat (length (layout (take (16 * ?k) bfs))) :: 32 word) = length (layout (take (16 * ?k) bfs))"
    by (simp add: unat_of_nat take_bit_nat_eq_self_iff)
  have s: "skip_loop (bt_raw_bf bt) (i - ?k * 16) (length (layout (take (16 * ?k) bfs))) = Some (length (layout (take i bfs)))"
    using skip_loop_eq [OF assms(2), of "16 * ?k" "i - ?k * 16" rest] assms(3) by (simp add: raw mult.commute)
  have wf: "wf_filter ?bf" using assms(2,3) by (simp add: list_all_length)
  note d = decode_item [OF wf]
  obtain rest' where r: "drop (length (layout (take i bfs))) (layout bfs @ rest) = item ?bf @ rest'"
    using drop_layout [OF assms(3)] by blast
  let ?n = "length (encode_uint64 (ucast (bf_bytes ?bf)))"
  have "ucast (ucast (bf_bytes ?bf) :: 64 word) = bf_bytes ?bf" by (rule bit_word_eqI) (simp add: bit_simps)
  then have d32: "decode_uint32 (drop (length (layout (take i bfs))) (bt_raw_bf bt)) = Some (?n, bf_bytes ?bf)"
    using d(1) [of rest'] r by (simp add: decode_uint32_def raw)
  have "drop (length (layout (take i bfs)) + ?n) (layout bfs @ rest) = drop ?n (item ?bf @ rest')"
    unfolding r [symmetric] drop_drop by (simp only: add.commute)
  then have "drop (length (layout (take i bfs)) + ?n) (bt_raw_bf bt) = bf_filter ?bf @ rest'" by (simp add: raw item_def)
  moreover have "bloom_match_raw (bf_filter ?bf @ rest') (bf_bytes ?bf) hv = bloom_match ?bf hv"
    using bloom_match_raw_append wf by (simp add: bloom_match_def wf_filter_def)
  moreover have "(of_nat i :: 32 word) < bt_nr_bf bt" using u assms(3) n(3) by (simp add: word_less_nat_alt)
  ultimately show ?thesis using u(1) o p s d32 d(2) wf
    by (simp add: bloomtable_match_def BLOOMTABLE_INTERVAL_def aget_in wf_filter_def)
qed

text \<open>What \<open>bloomtable_build\<close> makes stores its filters.\<close>

lemma count_bytes_eq:
  "list_all wf_filter bfs \<Longrightarrow> unat acc + length (layout bfs) < 2 ^ 32 \<Longrightarrow>
   unat (count_bytes bfs acc) = unat acc + length (layout bfs)"
proof (induction bfs arbitrary: acc)
  case (Cons bf bfs)
  let ?n = "length (encode_uint64 (ucast (bf_bytes bf)))"
  have l: "length (item bf) = ?n + unat (bf_bytes bf)" using Cons.prems(1) by (simp add: item_def wf_filter_def)
  have e: "of_nat ?n + bf_bytes bf = (of_nat (length (item bf)) :: 32 word)" by (simp add: l)
  have "unat (of_nat (length (item bf)) :: 32 word) = length (item bf)"
    using Cons.prems(2) by (simp add: unat_of_nat take_bit_nat_eq_self_iff)
  then have "unat (acc + of_nat (length (item bf))) = unat acc + length (item bf)"
    using Cons.prems(2) by (simp add: unat_word_ariths)
  then show ?case using Cons.IH [of "acc + of_nat (length (item bf))"] Cons.prems by (simp add: e)
qed simp

lemma offsets_rep:
  assumes "16 * k < length bfs" "length bfs \<le> 16 * length offs"
  shows "k < length offs" "set_offsets bfs 0 0 offs ! k = of_nat (length (layout (take (16 * k) bfs)))"
  using assms set_offsets_nth [of 0 k bfs offs 0] by simp_all

lemma layout_length: "list_all wf_filter bfs \<Longrightarrow> length bfs \<le> length (layout bfs)"
proof (induction bfs)
  case (Cons bf bfs)
  then have "1 \<le> length (item bf)" using decode_item(2,5) [of bf] by (simp add: Suc_le_eq)
  then show ?case using Cons by simp
qed simp

lemma bloomtable_build_rep:
  assumes "wf_alloc Ao" "wf_alloc Ab" "Ao ((length bfs + 15) div 16) \<noteq> None" "Ab (length (layout bfs) + 8) \<noteq> None"
    "list_all wf_filter bfs" "length (layout bfs) + 8 < 2 ^ 32"
  shows "\<exists>bt. bloomtable_build Ao Ab bfs = Some bt \<and> table_rep bt bfs \<and> unat (bt_nr_bytes bt) = length (layout bfs)"
proof -
  obtain offs where o: "Ao ((length bfs + 15) div 16) = Some offs" "length offs = (length bfs + 15) div 16"
    using assms(1,3) by (auto simp: wf_alloc_def)
  obtain raw where r: "Ab (length (layout bfs) + 8) = Some raw" "length raw = length (layout bfs) + 8"
    using assms(2,4) by (auto simp: wf_alloc_def)
  have c: "unat (count_bytes bfs 0) = length (layout bfs)" using count_bytes_eq [of bfs 0] assms(5,6) by simp
  then have c8: "unat (count_bytes bfs 0 + 8) = length (layout bfs) + 8" using assms(6) by (simp add: unat_word_ariths)
  have l: "length bfs \<le> 16 * length offs" unfolding o(2) by (rule interval_covers)
  obtain raw' where b: "build_loop bfs 0 0 raw offs = Some (raw', set_offsets bfs 0 0 offs)"
    "take (length (layout bfs)) raw' = layout bfs"
    using build_loop_eq [OF assms(5), of 0 raw 0 offs] r(2) l by auto
  have n: "length bfs < 2 ^ 32" using layout_length [OF assms(5)] assms(6) by simp
  let ?bt = "\<lparr>bt_raw_bf = raw', bt_nr_bf = of_nat (length bfs), bt_nr_bytes = count_bytes bfs 0,
    bt_offsets = set_offsets bfs 0 0 offs\<rparr>"
  have "bloomtable_build Ao Ab bfs = Some ?bt" using o(1) r(1) b(1) c8 n
    by (simp add: bloomtable_build_def BLOOMTABLE_INTERVAL_def Let_def add.commute [of 15])
  moreover have "raw' = layout bfs @ drop (length (layout bfs)) raw'" using b(2) by (metis append_take_drop_id)
  then have "table_rep ?bt bfs" using n assms(6) offsets_rep [OF _ l] by (auto simp: table_rep_def)
  ultimately show ?thesis using c by auto
qed

lemma length_le32 [simp]: "length (le32 w) = 4"
  by (simp add: le32_def)

lemma of_le32_le32: "of_le32 (le32 w @ rest) = Some w"
proof -
  have "(ucast (ucast w :: 8 word) :: 32 word) OR push_bit 8 (ucast (ucast (drop_bit 8 w) :: 8 word)) OR
      push_bit 16 (ucast (ucast (drop_bit 16 w) :: 8 word)) OR push_bit 24 (ucast (ucast (drop_bit 24 w) :: 8 word)) = w"
    for w :: "32 word"
  proof (rule bit_word_eqI)
    fix n assume "n < LENGTH(32)"
    then consider "n < 8" | "8 \<le> n" "n < 16" | "16 \<le> n" "n < 24" | "24 \<le> n" "n < 32" by force
    then show "bit ((ucast (ucast w :: 8 word) :: 32 word) OR push_bit 8 (ucast (ucast (drop_bit 8 w) :: 8 word)) OR
      push_bit 16 (ucast (ucast (drop_bit 16 w) :: 8 word)) OR push_bit 24 (ucast (ucast (drop_bit 24 w) :: 8 word))) n = bit w n"
      by cases (auto simp: bit_simps)
  qed
  then show ?thesis by (simp add: le32_def)
qed

lemma bloomtable_load_rep:
  assumes "table_rep bt bfs" "unat (bt_nr_bytes bt) = length (layout bfs)" "list_all wf_filter bfs"
    "wf_alloc Ab" "Ab (length (layout bfs) + 8) \<noteq> None" "length (layout bfs) + 8 < 2 ^ 32"
    "length offs = MAX_OFFSETS" "length bfs \<le> 8192"
  shows "\<exists>fi bt'. bloomtable_dump bt = Some fi \<and> bloomtable_load Ab offs (fi @ behind) = Some bt' \<and> table_rep bt' bfs"
proof -
  obtain rest where raw: "bt_raw_bf bt = layout bfs @ rest" using assms(1) by (auto simp: table_rep_def)
  obtain mem where r: "Ab (length (layout bfs) + 8) = Some mem" "length mem = length (layout bfs) + 8"
    using assms(4,5) by (auto simp: wf_alloc_def)
  have c8: "unat (bt_nr_bytes bt + 8) = length (layout bfs) + 8" using assms(2,6) by (simp add: unat_word_ariths)
  define mem' where "mem' = buf_write mem 0 (layout bfs)"
  have m: "mem' = layout bfs @ drop (length (layout bfs)) mem" by (simp add: mem'_def buf_write_def)
  have l: "length bfs \<le> 16 * length offs" using assms(7,8) by (simp add: MAX_OFFSETS_def)
  let ?fi = "le32 (bt_nr_bytes bt) @ layout bfs"
  have "bloomtable_dump bt = Some ?fi" by (simp add: bloomtable_dump_def assms(2) raw)
  moreover have s: "scan_items mem' (length (layout bfs)) 0 0 0 offs =
      Some (length (layout bfs), length bfs, (length bfs + 15) div 16, set_offsets bfs 0 0 offs)"
    using scan_items_eq [OF assms(3), of 0 mem' "drop (length (layout bfs)) mem" 0 offs] l m by simp
  let ?bt = "\<lparr>bt_raw_bf = mem', bt_nr_bf = of_nat (length bfs), bt_nr_bytes = bt_nr_bytes bt,
    bt_offsets = take ((length bfs + 15) div 16) (set_offsets bfs 0 0 offs)\<rparr>"
  have "bloomtable_load Ab offs (?fi @ behind) = Some ?bt"
    using s r c8 put_at [of 0 "layout bfs" mem]
    by (simp add: bloomtable_load_def of_le32_le32 assms(2) mem'_def [symmetric])
  moreover have "table_rep ?bt bfs" unfolding table_rep_def
  proof (intro conjI allI impI)
    fix k assume k: "16 * k < length bfs"
    then have k': "k < (length bfs + 15) div 16" by (rule interval_less)
    show "k < length (bt_offsets ?bt)" using k' offsets_rep(1) [OF k l] by simp
    show "bt_offsets ?bt ! k = of_nat (length (layout (take (16 * k) bfs)))" using k' offsets_rep(2) [OF k l] by simp
  qed (use assms(1) m in \<open>auto simp: table_rep_def\<close>)
  ultimately show ?thesis by blast
qed

section \<open>Properties\<close>

text \<open>
  C21 (no false negatives). A filter made for any number of keys accepts any sequence of hash values, with
  every access inside it, and afterwards answers true for each of them.
\<close>
theorem bloom_no_false_negative:
  "\<exists>bf bf'. bloom_create True n = Some bf \<and> bloom_updates bf hvs = Some bf' \<and> wf_filter bf' \<and>
     list_all (\<lambda>hv. bloom_match bf' hv = Some True) hvs"
proof -
  obtain bf where bf: "bloom_create True n = Some bf" "wf_filter bf" using bloom_create_wf by blast
  obtain bf' where b: "bloom_updates bf hvs = Some bf'" "wf_filter bf'" "bf_bytes bf' = bf_bytes bf"
    "\<forall>q. filter_bit (bf_filter bf') q \<longleftrightarrow> filter_bit (bf_filter bf) q \<or> (\<exists>hv\<in>set hvs. q \<in> bf_probes bf hv)"
    using bloom_updates_ok [OF bf(2)] by blast
  have "bf_probes bf' = bf_probes bf" by (simp add: bf_probes_def b(3) fun_eq_iff)
  then have "list_all (\<lambda>hv. bloom_match bf' hv = Some True) hvs"
    using b(4) by (auto simp: bloom_match_eq [OF b(2)] list_all_iff)
  then show ?thesis using bf b by blast
qed

text \<open>
  C3 (a table answers like its filters, also after it was written to a file and read again). With enough
  memory and less than 4 GB of filters \<open>bloomtable_build\<close> succeeds; looking up filter \<open>i\<close> in the table finds it
  and gives its answer; and the table that \<open>bloomtable_load\<close> makes of the bytes \<open>bloomtable_dump\<close> wrote
  gives the same answers, for up to 8192 filters.
\<close>
theorem bloomtable_answers:
  assumes "wf_alloc Ao" "wf_alloc Ab" "Ao ((length bfs + 15) div 16) \<noteq> None" "Ab (length (layout bfs) + 8) \<noteq> None"
    "list_all wf_filter bfs" "length (layout bfs) + 8 < 2 ^ 32" "length offs = MAX_OFFSETS" "length bfs \<le> 8192"
  shows "\<exists>bt fi bt'. bloomtable_build Ao Ab bfs = Some bt \<and> bloomtable_dump bt = Some fi \<and>
    bloomtable_load Ab offs (fi @ behind) = Some bt' \<and>
    (\<forall>i<length bfs. bloomtable_match bt (of_nat i) hv = bloom_match (bfs ! i) hv \<and>
      bloomtable_match bt' (of_nat i) hv = bloom_match (bfs ! i) hv)"
proof -
  obtain bt where bt: "bloomtable_build Ao Ab bfs = Some bt" "table_rep bt bfs" "unat (bt_nr_bytes bt) = length (layout bfs)"
    using bloomtable_build_rep [OF assms(1-6)] by blast
  obtain fi bt' where l: "bloomtable_dump bt = Some fi" "bloomtable_load Ab offs (fi @ behind) = Some bt'" "table_rep bt' bfs"
    using bloomtable_load_rep [OF bt(2,3) assms(5,2,4,6,7,8)] by blast
  show ?thesis using bt(1) l(1,2) match_rep [OF bt(2) assms(5)] match_rep [OF l(3) assms(5)] by blast
qed

definition small_filter :: BloomFilter where
  "small_filter = \<lparr>bf_bytes = 8, bf_nr_keys = 1, bf_filter = [1, 0, 0, 0, 0, 0, 0, 0]\<rparr>"

lemma small_filter_match: "bloom_match small_filter 0 = Some True" "bloom_match small_filter 1 = Some False"
  by code_simp+

theorem bloomtable_answers_witness:
  "\<exists>bt fi bt'. bloomtable_build (\<lambda>n. Some (replicate n 0)) (\<lambda>n. Some (replicate n 0)) [small_filter, small_filter] = Some bt \<and>
    bloomtable_dump bt = Some fi \<and> bloomtable_load (\<lambda>n. Some (replicate n 0)) (replicate 512 0) (fi @ []) = Some bt' \<and>
    bloomtable_match bt (of_nat 1) 0 = Some True \<and> bloomtable_match bt' (of_nat 1) 0 = Some True"
proof -
  have e: "encode_uint64 8 = [8]" by (subst encode_uint64.simps) simp
  have "length (layout [small_filter, small_filter]) = 18" by (simp add: item_def small_filter_def e)
  moreover have "list_all wf_filter [small_filter, small_filter]" by (simp add: wf_filter_def small_filter_def)
  moreover have "wf_alloc (\<lambda>n. Some (replicate n (0 :: 32 word)))" "wf_alloc (\<lambda>n. Some (replicate n (0 :: 8 word)))"
    by (simp_all add: wf_alloc_def)
  ultimately obtain bt fi bt' where
    "bloomtable_build (\<lambda>n. Some (replicate n 0)) (\<lambda>n. Some (replicate n 0)) [small_filter, small_filter] = Some bt"
    "bloomtable_dump bt = Some fi" "bloomtable_load (\<lambda>n. Some (replicate n 0)) (replicate 512 0) (fi @ []) = Some bt'"
    "\<forall>i<length [small_filter, small_filter]. bloomtable_match bt (of_nat i) 0 = bloom_match ([small_filter, small_filter] ! i) 0 \<and>
       bloomtable_match bt' (of_nat i) 0 = bloom_match ([small_filter, small_filter] ! i) 0"
    using bloomtable_answers [of "\<lambda>n. Some (replicate n 0)" "\<lambda>n. Some (replicate n 0)" "[small_filter, small_filter]" "replicate 512 0" "[]" 0]
    by (auto simp: MAX_OFFSETS_def)
  then show ?thesis by (fastforce simp: small_filter_match)
qed

end
