(* ===== verification/Matrix.thy ===== *)
theory Matrix
  imports Prelude
begin

text \<open>
  Counting loops and square matrices, as the graph algorithms of \<open>DataStruct_learn/Graph\<close> use them. An
  access outside a matrix has no result.
\<close>

section \<open>Loops\<close>

text \<open>\<open>for (; i < n; i++) s = f(i, s);\<close>\<close>

function for_loop :: "nat \<Rightarrow> nat \<Rightarrow> (nat \<Rightarrow> 's \<Rightarrow> 's option) \<Rightarrow> 's \<Rightarrow> 's option" where
  "for_loop i n f s = (if i < n then do { s \<leftarrow> f i s; for_loop (i + 1) n f s } else Some s)"
  by pat_completeness auto
termination by (relation "measure (\<lambda>(i, n, f, s). n - i)") auto

declare for_loop.simps [simp del]

lemma for_loop_inv:
  assumes "I i s" "i \<le> n" "\<And>j s. i \<le> j \<Longrightarrow> j < n \<Longrightarrow> I j s \<Longrightarrow> \<exists>s'. f j s = Some s' \<and> I (j + 1) s'"
  shows "\<exists>s'. for_loop i n f s = Some s' \<and> I n s'"
  using assms
proof (induction "n - i" arbitrary: i s)
  case 0
  then show ?case by (subst for_loop.simps) simp
next
  case (Suc m)
  obtain s1 where s1: "f i s = Some s1" "I (i + 1) s1" using Suc.prems(3) [of i s] Suc(2) Suc.prems(1) by fastforce
  have "\<exists>s'. for_loop (i + 1) n f s1 = Some s' \<and> I n s'" using Suc(2) Suc.prems(3) s1(2) by (intro Suc(1)) auto
  then show ?case using s1(1) Suc(2) by (subst for_loop.simps) auto
qed

section \<open>Matrices\<close>

definition mget :: "'a list list \<Rightarrow> nat \<Rightarrow> nat \<Rightarrow> 'a option" where
  "mget M i j = do { r \<leftarrow> aget M i; aget r j }"

definition mset_at :: "'a list list \<Rightarrow> nat \<Rightarrow> nat \<Rightarrow> 'a \<Rightarrow> 'a list list option" where
  "mset_at M i j v = do { r \<leftarrow> aget M i; r \<leftarrow> aset r j v; aset M i r }"

definition square :: "nat \<Rightarrow> 'a list list \<Rightarrow> bool" where
  "square n M \<longleftrightarrow> length M = n \<and> (\<forall>r\<in>set M. length r = n)"

lemma square_row: "square n M \<Longrightarrow> i < n \<Longrightarrow> length (M ! i) = n"
  by (simp add: square_def)

lemma mget_in: "square n M \<Longrightarrow> i < n \<Longrightarrow> j < n \<Longrightarrow> mget M i j = Some (M ! i ! j)"
  using square_row [of n M i] by (simp add: mget_def aget_in square_def)

lemma mset_at_in: "square n M \<Longrightarrow> i < n \<Longrightarrow> j < n \<Longrightarrow> mset_at M i j v = Some (M[i := (M ! i)[j := v]])"
  using square_row [of n M i] by (simp add: mset_at_def aget_in aset_in square_def)

lemma square_set: "square n M \<Longrightarrow> i < n \<Longrightarrow> square n (M[i := (M ! i)[j := v]])"
  using square_row [of n M i] by (auto simp: square_def dest: set_update_subset_insert [THEN subsetD])

lemma nth_set:
  "square n M \<Longrightarrow> i < n \<Longrightarrow> j < n \<Longrightarrow> a < n \<Longrightarrow> b < n \<Longrightarrow>
   M[i := (M ! i)[j := v]] ! a ! b = (if a = i \<and> b = j then v else M ! a ! b)"
  using square_row [of n M i] by (auto simp: square_def nth_list_update)

lemma matrix_eqI:
  "square n M \<Longrightarrow> square n M' \<Longrightarrow> (\<And>i j. i < n \<Longrightarrow> j < n \<Longrightarrow> M ! i ! j = M' ! i ! j) \<Longrightarrow> M = M'"
  using square_row [of n M] square_row [of n M'] by (auto simp: square_def intro!: nth_equalityI)

section \<open>One pivot\<close>

text \<open>
  One round of Warshall's scheme, in place: every entry is combined with those of its row and its column at
  the pivot \<open>k\<close>.
\<close>

definition pivot_cell :: "('a \<Rightarrow> 'a \<Rightarrow> 'a \<Rightarrow> 'a option) \<Rightarrow> nat \<Rightarrow> nat \<Rightarrow> nat \<Rightarrow> 'a list list \<Rightarrow> 'a list list option" where
  "pivot_cell f k i j M = do {
     a \<leftarrow> mget M i k;
     b \<leftarrow> mget M k j;
     d \<leftarrow> mget M i j;
     v \<leftarrow> f d a b;
     mset_at M i j v }"

definition pivot_round :: "('a \<Rightarrow> 'a \<Rightarrow> 'a \<Rightarrow> 'a option) \<Rightarrow> nat \<Rightarrow> nat \<Rightarrow> 'a list list \<Rightarrow> 'a list list option" where
  "pivot_round f n k M = for_loop 0 n (\<lambda>i. for_loop 0 n (\<lambda>j. pivot_cell f k i j)) M"

text \<open>Where the round leaves the pivot's row and column alone, it updates all entries at once.\<close>

lemma pivot_round_eq:
  fixes M :: "'a list list" and g :: "nat \<Rightarrow> nat \<Rightarrow> 'a"
  assumes sq: "square n M" and k: "k < n"
    and f: "\<And>i j. i < n \<Longrightarrow> j < n \<Longrightarrow> f (M ! i ! j) (M ! i ! k) (M ! k ! j) = Some (g i j)"
    and fixed: "\<And>i. i < n \<Longrightarrow> g i k = M ! i ! k" "\<And>j. j < n \<Longrightarrow> g k j = M ! k ! j"
  shows "\<exists>M'. pivot_round f n k M = Some M' \<and> square n M' \<and> (\<forall>i<n. \<forall>j<n. M' ! i ! j = g i j)"
proof -
  define I where "I = (\<lambda>i j M'. square n M' \<and>
    (\<forall>a<n. \<forall>b<n. M' ! a ! b = (if a < i \<or> a = i \<and> b < j then g a b else M ! a ! b)))"
  have cell: "\<exists>M''. pivot_cell f k i j M' = Some M'' \<and> I i (j + 1) M''" if "i < n" "j < n" "I i j M'" for i j M'
  proof -
    have s: "square n M'" and v: "\<And>a b. a < n \<Longrightarrow> b < n \<Longrightarrow> M' ! a ! b = (if a < i \<or> a = i \<and> b < j then g a b else M ! a ! b)"
      using that(3) by (auto simp: I_def)
    have "M' ! i ! k = M ! i ! k" "M' ! k ! j = M ! k ! j" "M' ! i ! j = M ! i ! j"
      using v [OF that(1) k] v [OF k that(2)] v [OF that(1,2)] fixed(1) [OF that(1)] fixed(2) [OF that(2)] by auto
    then have "pivot_cell f k i j M' = Some (M'[i := (M' ! i)[j := g i j]])"
      using mget_in [OF s that(1) k] mget_in [OF s k that(2)] mget_in [OF s that(1,2)] mset_at_in [OF s that(1,2)] f [OF that(1,2)]
      by (simp add: pivot_cell_def)
    moreover have "I i (j + 1) (M'[i := (M' ! i)[j := g i j]])"
      unfolding I_def using square_set [OF s that(1)] nth_set [OF s that(1,2)] v by (auto simp: less_Suc_eq)
    ultimately show ?thesis by blast
  qed
  have row: "\<exists>M''. for_loop 0 n (\<lambda>j. pivot_cell f k i j) M' = Some M'' \<and> I (i + 1) 0 M''" if i: "i < n" "I i 0 M'" for i M'
  proof -
    obtain M'' where m: "for_loop 0 n (\<lambda>j. pivot_cell f k i j) M' = Some M''" "I i n M''"
      using for_loop_inv [of "I i" 0 M' n "\<lambda>j. pivot_cell f k i j", OF i(2)] cell [OF i(1)] by blast
    have "I (i + 1) 0 M''" using m(2) by (auto simp: I_def less_Suc_eq)
    then show ?thesis using m(1) by blast
  qed
  obtain M' where "pivot_round f n k M = Some M'" "I n 0 M'"
    using for_loop_inv [of "\<lambda>i. I i 0" 0 M n "\<lambda>i. for_loop 0 n (\<lambda>j. pivot_cell f k i j)"] row sq
    unfolding pivot_round_def by (auto simp: I_def)
  then show ?thesis by (auto simp: I_def)
qed

end
