(* ===== verification/Graphs.thy ===== *)
theory Graphs
  imports Matrix
begin

text \<open>
  Graphs of \<open>DataStruct_learn/Graph\<close> as matrices: Warshall's transitive closure
  (\<open>transitive_closure.c\<close>) and the shortest paths of Floyd and Warshall (\<open>floyd_warshall.c\<close>), where
  \<open>INT_MAX\<close> stands for no edge. A sum that leaves the range of \<open>int\<close> has no result.
\<close>

section \<open>Transitive closure\<close>

definition NODES :: nat where "NODES = 4"

definition digraph :: "int list list" where
  "digraph = [[0, 1, 1, 1], [1, 0, 1, 0], [0, 1, 0, 0], [0, 0, 0, 0]]"

definition copy_matrix :: "nat \<Rightarrow> int list list \<Rightarrow> int list list \<Rightarrow> int list list option" where
  "copy_matrix n src dst = for_loop 0 n (\<lambda>s. for_loop 0 n (\<lambda>t M. do { x \<leftarrow> mget src s t; mset_at M s t x })) dst"

definition tc_cell :: "int \<Rightarrow> int \<Rightarrow> int \<Rightarrow> int option" where
  "tc_cell d a b = Some (if a \<noteq> 0 \<and> b \<noteq> 0 then 1 else d)"

text \<open>The matrix \<open>graph\<close> and the array \<open>tc\<close>, with their dimension, are arguments.\<close>

definition warshall :: "nat \<Rightarrow> int list list \<Rightarrow> int list list \<Rightarrow> int list list option" where
  "warshall n graph tc = do { tc \<leftarrow> copy_matrix n graph tc; for_loop 0 n (pivot_round tc_cell n) tc }"

section \<open>Shortest paths\<close>

record Graph =
  vertexNum :: nat
  edges :: "int list list"

definition createGraph :: "nat \<Rightarrow> Graph" where
  "createGraph V = \<lparr>vertexNum = V, edges = map (\<lambda>i. (replicate V INT_MAX)[i := 0]) [0..<V]\<rparr>"

definition addEdge :: "Graph \<Rightarrow> nat \<Rightarrow> nat \<Rightarrow> int \<Rightarrow> Graph option" where
  "addEdge G src dst weight = do { M \<leftarrow> mset_at (edges G) src dst weight; Some (G\<lparr>edges := M\<rparr>) }"

definition fw_cell :: "int \<Rightarrow> int \<Rightarrow> int \<Rightarrow> int option" where
  "fw_cell d a b =
     (if a \<noteq> INT_MAX \<and> b \<noteq> INT_MAX
      then if - INT_MAX - 1 \<le> a + b \<and> a + b \<le> INT_MAX then Some (if a + b < d then a + b else d) else None
      else Some d)"

text \<open>\<open>dist0\<close> is what the local array holds before it is written; the result is the distances that are printed.\<close>

definition FloydWarshall :: "int list list \<Rightarrow> Graph \<Rightarrow> int list list option" where
  "FloydWarshall dist0 graph = do {
     let V = vertexNum graph;
     dist \<leftarrow> copy_matrix V (edges graph) dist0;
     for_loop 0 V (pivot_round fw_cell V) dist }"

section \<open>Copying\<close>

lemma copy_matrix_eq:
  assumes "square n src" "square n dst"
  shows "copy_matrix n src dst = Some src"
proof -
  define I where "I = (\<lambda>i j M. square n M \<and> (\<forall>a<n. \<forall>b<n. a < i \<or> a = i \<and> b < j \<longrightarrow> M ! a ! b = src ! a ! b))"
  have cell: "\<exists>M'. do { x \<leftarrow> mget src i j; mset_at M i j x } = Some M' \<and> I i (j + 1) M'" if i: "i < n" "j < n" "I i j M" for i j M
  proof -
    have s: "square n M" using i(3) by (simp add: I_def)
    have "I i (j + 1) (M[i := (M ! i)[j := src ! i ! j]])"
      unfolding I_def using square_set [OF s i(1)] nth_set [OF s i(1,2)] i(3) by (auto simp: I_def less_Suc_eq)
    then show ?thesis using mget_in [OF assms(1) i(1,2)] mset_at_in [OF s i(1,2)] by simp
  qed
  have row: "\<exists>M'. for_loop 0 n (\<lambda>t M. do { x \<leftarrow> mget src i t; mset_at M i t x }) M = Some M' \<and> I (i + 1) 0 M'"
    if i: "i < n" "I i 0 M" for i M
  proof -
    obtain M' where m: "for_loop 0 n (\<lambda>t M. do { x \<leftarrow> mget src i t; mset_at M i t x }) M = Some M'" "I i n M'"
      using for_loop_inv [of "I i" 0 M n "\<lambda>t M. do { x \<leftarrow> mget src i t; mset_at M i t x }", OF i(2)] cell [OF i(1)] by blast
    have "I (i + 1) 0 M'" using m(2) by (auto simp: I_def less_Suc_eq)
    then show ?thesis using m(1) by blast
  qed
  obtain M' where m: "copy_matrix n src dst = Some M'" "I n 0 M'"
    using for_loop_inv [of "\<lambda>i. I i 0" 0 dst n "\<lambda>s. for_loop 0 n (\<lambda>t M. do { x \<leftarrow> mget src s t; mset_at M s t x })"] row assms(2)
    unfolding copy_matrix_def I_def by force
  have "M' = src" using m(2) assms(1) by (intro matrix_eqI [of n]) (auto simp: I_def)
  then show ?thesis using m(1) by simp
qed

section \<open>Walks\<close>

text \<open>Walks by their inner vertices, and their weights.\<close>

primrec is_walk :: "(nat \<Rightarrow> nat \<Rightarrow> bool) \<Rightarrow> nat \<Rightarrow> nat list \<Rightarrow> nat \<Rightarrow> bool" where
  "is_walk E i [] j \<longleftrightarrow> E i j"
| "is_walk E i (x # xs) j \<longleftrightarrow> E i x \<and> is_walk E x xs j"

primrec walk_weight :: "(nat \<Rightarrow> nat \<Rightarrow> int) \<Rightarrow> nat \<Rightarrow> nat list \<Rightarrow> nat \<Rightarrow> int" where
  "walk_weight w i [] j = w i j"
| "walk_weight w i (x # xs) j = w i x + walk_weight w x xs j"

lemma walk_append:
  "is_walk E i (xs @ x # ys) j \<longleftrightarrow> is_walk E i xs x \<and> is_walk E x ys j"
  "walk_weight w i (xs @ x # ys) j = walk_weight w i xs x + walk_weight w x ys j"
  by (induction xs arbitrary: i) simp_all

lemma walk_nonneg: "is_walk E i xs j \<Longrightarrow> (\<And>a b. E a b \<Longrightarrow> 0 \<le> w a b) \<Longrightarrow> 0 \<le> walk_weight w i xs j"
  by (induction xs arbitrary: i) (simp_all add: add_nonneg_nonneg)

text \<open>A walk over the vertices up to \<open>k\<close> avoids \<open>k\<close>, or can be cut at its first and its last visit of \<open>k\<close>.\<close>

lemma walk_split:
  assumes "is_walk E i xs j" "set xs \<subseteq> {..<Suc k}" "\<And>a b. E a b \<Longrightarrow> 0 \<le> w a b"
  shows "set xs \<subseteq> {..<k} \<or> (\<exists>us ys. set us \<subseteq> {..<k} \<and> set ys \<subseteq> {..<k} \<and> is_walk E i us k \<and> is_walk E k ys j \<and>
    walk_weight w i us k + walk_weight w k ys j \<le> walk_weight w i xs j)"
proof (cases "k \<in> set xs")
  case False
  then show ?thesis using assms(2) by (auto simp: less_Suc_eq)
next
  case True
  then obtain us ms where u: "xs = us @ k # ms" "k \<notin> set us" using split_list_first by fastforce
  then have us: "set us \<subseteq> {..<k}" "is_walk E i us k" "is_walk E k ms j"
    "walk_weight w i xs j = walk_weight w i us k + walk_weight w k ms j"
    using assms(1,2) by (auto simp: less_Suc_eq walk_append)
  show ?thesis
  proof (cases "k \<in> set ms")
    case False
    then have "set ms \<subseteq> {..<k}" using assms(2) u(1) by (auto simp: less_Suc_eq)
    then show ?thesis using us by auto
  next
    case True
    then obtain ps ys where p: "ms = ps @ k # ys" "k \<notin> set ys" using split_list_last by fastforce
    then have "set ys \<subseteq> {..<k}" "is_walk E k ys j" "is_walk E k ps k"
      "walk_weight w k ms j = walk_weight w k ps k + walk_weight w k ys j"
      using assms(2) u(1) us(3) by (auto simp: less_Suc_eq walk_append)
    then show ?thesis using us walk_nonneg [of E k ps k w] assms(3) by force
  qed
qed

text \<open>Removing cycles does not make a walk heavier.\<close>

lemma walk_distinct:
  assumes "is_walk E i xs j" "\<And>a b. E a b \<Longrightarrow> 0 \<le> w a b"
  shows "\<exists>ys. distinct ys \<and> set ys \<subseteq> set xs \<and> is_walk E i ys j \<and> walk_weight w i ys j \<le> walk_weight w i xs j"
  using assms(1)
proof (induction xs rule: length_induct)
  case (1 xs)
  show ?case
  proof (cases "distinct xs")
    case False
    then obtain as x bs cs where x: "xs = as @ [x] @ bs @ [x] @ cs" using not_distinct_decomp by blast
    let ?zs = "as @ x # cs"
    have "is_walk E i as x" "is_walk E x bs x" "is_walk E x cs j"
      "walk_weight w i xs j = walk_weight w i as x + walk_weight w x bs x + walk_weight w x cs j"
      using "1.prems" by (simp_all add: x walk_append)
    then have z: "is_walk E i ?zs j" "walk_weight w i ?zs j \<le> walk_weight w i xs j"
      using walk_nonneg [of E x bs x w] assms(2) by (auto simp: walk_append)
    have l: "length ?zs < length xs" by (simp add: x)
    obtain ys where "distinct ys" "set ys \<subseteq> set ?zs" "is_walk E i ys j" "walk_weight w i ys j \<le> walk_weight w i ?zs j"
      using "1.IH" [rule_format, OF l z(1)] by blast
    then show ?thesis using z(2) x by (intro exI [of _ ys]) auto
  qed (use "1.prems" in auto)
qed

lemma walk_bound:
  assumes "is_walk E i xs j" "\<And>a b. E a b \<Longrightarrow> w a b \<le> W"
  shows "walk_weight w i xs j \<le> (int (length xs) + 1) * W"
  using assms(1)
proof (induction xs arbitrary: i)
  case (Cons x xs)
  then have "w i x \<le> W" "walk_weight w x xs j \<le> (int (length xs) + 1) * W" using assms(2) by simp_all
  then show ?case by (simp add: distrib_right)
qed (simp add: assms(2))

section \<open>Warshall's algorithm\<close>

definition arc :: "nat \<Rightarrow> int \<Rightarrow> int list list \<Rightarrow> nat \<Rightarrow> nat \<Rightarrow> bool" where
  "arc n none M a b \<longleftrightarrow> a < n \<and> b < n \<and> M ! a ! b \<noteq> none"

lemma walk_inside: "is_walk (arc n z M) i xs j \<Longrightarrow> set xs \<subseteq> {..<n}"
  by (induction xs arbitrary: i) (auto simp: arc_def)

definition tc_stage :: "nat \<Rightarrow> int list list \<Rightarrow> nat \<Rightarrow> int list list \<Rightarrow> bool" where
  "tc_stage n G k M \<longleftrightarrow> square n M \<and>
     (\<forall>i<n. \<forall>j<n. M ! i ! j = (if \<exists>xs. set xs \<subseteq> {..<k} \<and> is_walk (arc n 0 G) i xs j then 1 else 0))"

lemma tc_step:
  assumes "tc_stage n G k M" "k < n"
  shows "\<exists>M'. pivot_round tc_cell n k M = Some M' \<and> tc_stage n G (Suc k) M'"
proof -
  define R where "R = (\<lambda>k i j. \<exists>xs. set xs \<subseteq> {..<k} \<and> is_walk (arc n 0 G) i xs j)"
  define g where "g = (\<lambda>i j. if M ! i ! k \<noteq> 0 \<and> M ! k ! j \<noteq> 0 then 1 else M ! i ! j)"
  have s: "square n M" and v: "\<And>i j. i < n \<Longrightarrow> j < n \<Longrightarrow> M ! i ! j = (if R k i j then 1 else 0)"
    using assms(1) by (simp_all add: tc_stage_def R_def)
  have "\<exists>M'. pivot_round tc_cell n k M = Some M' \<and> square n M' \<and> (\<forall>i<n. \<forall>j<n. M' ! i ! j = g i j)"
  proof (rule pivot_round_eq [OF s assms(2)])
    show "g i k = M ! i ! k" if "i < n" for i using v [OF that assms(2)] by (simp add: g_def)
    show "g k j = M ! k ! j" if "j < n" for j using v [OF assms(2) that] by (simp add: g_def)
  qed (simp add: tc_cell_def g_def)
  then obtain M' where m: "pivot_round tc_cell n k M = Some M'" "square n M'" "\<forall>i<n. \<forall>j<n. M' ! i ! j = g i j" by blast
  have "g i j = (if R (Suc k) i j then 1 else 0)" if "i < n" "j < n" for i j
  proof -
    have up: "R k a b \<Longrightarrow> R (Suc k) a b" for a b unfolding R_def by (metis lessThan_Suc subset_insertI2)
    have join: "R (Suc k) i j" if r: "R k i k" "R k k j"
    proof -
      obtain us ys where "set us \<subseteq> {..<k}" "is_walk (arc n 0 G) i us k" "set ys \<subseteq> {..<k}" "is_walk (arc n 0 G) k ys j"
        using r unfolding R_def by blast
      then have "is_walk (arc n 0 G) i (us @ k # ys) j" "set (us @ k # ys) \<subseteq> {..<Suc k}" by (auto simp: walk_append)
      then show ?thesis unfolding R_def by blast
    qed
    have cut: "R k i j \<or> R k i k \<and> R k k j" if "R (Suc k) i j"
      using that walk_split [of "arc n 0 G" i _ j k "\<lambda>_ _. 0"] unfolding R_def by blast
    have "R (Suc k) i j \<longleftrightarrow> R k i j \<or> R k i k \<and> R k k j" using up [of i j] join cut by blast
    then show ?thesis using v [OF that(1) assms(2)] v [OF assms(2) that(2)] v [OF that] by (simp add: g_def)
  qed
  then show ?thesis using m by (simp add: tc_stage_def R_def)
qed

lemma walk_trancl: "(\<exists>xs. is_walk E i xs j) \<longleftrightarrow> (i, j) \<in> {(a, b). E a b}\<^sup>+"
proof
  have "is_walk E i xs j \<Longrightarrow> (i, j) \<in> {(a, b). E a b}\<^sup>+" for xs
    by (induction xs arbitrary: i) (auto intro: trancl_into_trancl2)
  then show "\<exists>xs. is_walk E i xs j \<Longrightarrow> (i, j) \<in> {(a, b). E a b}\<^sup>+" by blast
next
  assume "(i, j) \<in> {(a, b). E a b}\<^sup>+"
  then show "\<exists>xs. is_walk E i xs j"
  proof (induction rule: trancl_induct)
    case (base y)
    then show ?case by (intro exI [of _ "[]"]) simp
  next
    case (step y z)
    then obtain xs where "is_walk E i xs y" by blast
    then show ?case using step(2) walk_append(1) [of E i xs y "[]" z] by auto
  qed
qed

section \<open>Floyd and Warshall's algorithm\<close>

definition fw_stage :: "nat \<Rightarrow> int list list \<Rightarrow> nat \<Rightarrow> int list list \<Rightarrow> bool" where
  "fw_stage n G k D \<longleftrightarrow> square n D \<and> (\<forall>i<n. \<forall>j<n.
     (D ! i ! j \<noteq> INT_MAX \<longrightarrow>
       (\<exists>xs. set xs \<subseteq> {..<k} \<and> is_walk (arc n INT_MAX G) i xs j \<and> walk_weight (\<lambda>a b. G ! a ! b) i xs j = D ! i ! j)) \<and>
     (\<forall>xs. set xs \<subseteq> {..<k} \<longrightarrow> is_walk (arc n INT_MAX G) i xs j \<longrightarrow>
       D ! i ! j \<noteq> INT_MAX \<and> D ! i ! j \<le> walk_weight (\<lambda>a b. G ! a ! b) i xs j))"

lemma fw_walk:
  assumes "fw_stage n G k D" "i < n" "j < n" "D ! i ! j \<noteq> INT_MAX"
  shows "\<exists>xs. set xs \<subseteq> {..<k} \<and> is_walk (arc n INT_MAX G) i xs j \<and> walk_weight (\<lambda>a b. G ! a ! b) i xs j = D ! i ! j"
  using assms unfolding fw_stage_def by simp

lemma fw_least:
  assumes "fw_stage n G k D" "i < n" "j < n" "set xs \<subseteq> {..<k}" "is_walk (arc n INT_MAX G) i xs j"
  shows "D ! i ! j \<noteq> INT_MAX" "D ! i ! j \<le> walk_weight (\<lambda>a b. G ! a ! b) i xs j"
  using assms unfolding fw_stage_def by simp_all

text \<open>Weights that cannot overflow.\<close>

definition small_weights :: "nat \<Rightarrow> int list list \<Rightarrow> int \<Rightarrow> bool" where
  "small_weights n G W \<longleftrightarrow> 2 * ((int n + 1) * W) < INT_MAX \<and> 0 \<le> W \<and>
     (\<forall>i<n. \<forall>j<n. G ! i ! j \<noteq> INT_MAX \<longrightarrow> 0 \<le> G ! i ! j \<and> G ! i ! j \<le> W)"

lemma fw_range:
  assumes "fw_stage n G k D" "small_weights n G W" "k \<le> n" "i < n" "j < n" "D ! i ! j \<noteq> INT_MAX"
  shows "0 \<le> D ! i ! j" "D ! i ! j \<le> (int n + 1) * W"
proof -
  let ?E = "arc n INT_MAX G" and ?w = "\<lambda>a b. G ! a ! b"
  have e: "0 \<le> ?w a b" "?w a b \<le> W" if "?E a b" for a b using that assms(2) by (auto simp: arc_def small_weights_def)
  obtain xs where xs: "set xs \<subseteq> {..<k}" "is_walk ?E i xs j" "walk_weight ?w i xs j = D ! i ! j"
    using fw_walk [OF assms(1,4-6)] by blast
  show "0 \<le> D ! i ! j" using walk_nonneg [OF xs(2), of ?w] e(1) xs(3) by simp
  obtain ys where ys: "distinct ys" "set ys \<subseteq> set xs" "is_walk ?E i ys j"
    using walk_distinct [OF xs(2), of ?w] e(1) by blast
  have "length ys \<le> card {..<k}" using card_mono [of "{..<k}" "set ys"] ys(1,2) xs(1) by (simp add: distinct_card)
  then have l: "int (length ys) + 1 \<le> int n + 1" using assms(3) by simp
  have "D ! i ! j \<le> walk_weight ?w i ys j" using fw_least(2) [OF assms(1,4,5) _ ys(3)] ys(2) xs(1) by blast
  also have "\<dots> \<le> (int (length ys) + 1) * W" by (rule walk_bound [OF ys(3)]) (rule e(2))
  also have "\<dots> \<le> (int n + 1) * W" using l assms(2) by (intro mult_right_mono) (simp_all add: small_weights_def)
  finally show "D ! i ! j \<le> (int n + 1) * W" .
qed

lemma fw_step:
  assumes st: "fw_stage n G k D" and w: "small_weights n G W" and k: "k < n"
  shows "\<exists>D'. pivot_round fw_cell n k D = Some D' \<and> fw_stage n G (Suc k) D'"
proof -
  let ?E = "arc n INT_MAX G" and ?w = "\<lambda>a b. G ! a ! b"
  define g where "g = (\<lambda>i j. if D ! i ! k \<noteq> INT_MAX \<and> D ! k ! j \<noteq> INT_MAX \<and> D ! i ! k + D ! k ! j < D ! i ! j
    then D ! i ! k + D ! k ! j else D ! i ! j)"
  have s: "square n D" using st by (simp add: fw_stage_def)
  have e: "0 \<le> ?w a b" if "?E a b" for a b using that w by (auto simp: arc_def small_weights_def)
  note rng = fw_range [OF st w less_imp_le [OF k]]
  have sum: "0 \<le> D ! i ! k + D ! k ! j" "D ! i ! k + D ! k ! j < INT_MAX"
    if "i < n" "j < n" "D ! i ! k \<noteq> INT_MAX" "D ! k ! j \<noteq> INT_MAX" for i j
    using rng [OF that(1) k that(3)] rng [OF k that(2,4)] w by (simp_all add: small_weights_def)
  have "\<exists>D'. pivot_round fw_cell n k D = Some D' \<and> square n D' \<and> (\<forall>i<n. \<forall>j<n. D' ! i ! j = g i j)"
  proof (rule pivot_round_eq [OF s k])
    show "fw_cell (D ! i ! j) (D ! i ! k) (D ! k ! j) = Some (g i j)" if "i < n" "j < n" for i j
    proof (cases "D ! i ! k \<noteq> INT_MAX \<and> D ! k ! j \<noteq> INT_MAX")
      case True
      have "- INT_MAX - 1 \<le> D ! i ! k + D ! k ! j" "D ! i ! k + D ! k ! j \<le> INT_MAX"
        using sum [OF that, OF True [THEN conjunct1] True [THEN conjunct2]] by (simp_all add: INT_MAX_def)
      then show ?thesis using True by (simp add: fw_cell_def g_def)
    qed (auto simp: fw_cell_def g_def)
    show "g i k = D ! i ! k" if "i < n" for i using rng(1) [OF k k] by (auto simp: g_def)
    show "g k j = D ! k ! j" if "j < n" for j using rng(1) [OF k k] by (auto simp: g_def)
  qed
  then obtain D' where d: "pivot_round fw_cell n k D = Some D'" "square n D'" "\<forall>i<n. \<forall>j<n. D' ! i ! j = g i j" by blast
  have up: "\<exists>xs. set xs \<subseteq> {..<Suc k} \<and> is_walk ?E i xs j \<and> walk_weight ?w i xs j = g i j"
    if ij: "i < n" "j < n" "g i j \<noteq> INT_MAX" for i j
  proof (cases "D ! i ! k \<noteq> INT_MAX \<and> D ! k ! j \<noteq> INT_MAX \<and> D ! i ! k + D ! k ! j < D ! i ! j")
    case True
    obtain us where us: "set us \<subseteq> {..<k}" "is_walk ?E i us k" "walk_weight ?w i us k = D ! i ! k"
      using fw_walk [OF st ij(1) k] True by blast
    obtain ys where "set ys \<subseteq> {..<k}" "is_walk ?E k ys j" "walk_weight ?w k ys j = D ! k ! j"
      using fw_walk [OF st k ij(2)] True by blast
    then show ?thesis using us True by (intro exI [of _ "us @ k # ys"]) (auto simp: walk_append g_def)
  next
    case False
    then have g: "g i j = D ! i ! j" unfolding g_def by argo
    then show ?thesis using fw_walk [OF st ij(1,2)] ij(3) lessThan_Suc [of k] by auto
  qed
  have low: "g i j \<noteq> INT_MAX \<and> g i j \<le> walk_weight ?w i xs j"
    if ij: "i < n" "j < n" "set xs \<subseteq> {..<Suc k}" "is_walk ?E i xs j" for i j xs
  proof (cases "set xs \<subseteq> {..<k}")
    case True
    then show ?thesis using fw_least [OF st ij(1,2) True ij(4)] sum(2) [OF ij(1,2)] by (auto simp: g_def)
  next
    case False
    then obtain us ys where u: "set us \<subseteq> {..<k}" "set ys \<subseteq> {..<k}" "is_walk ?E i us k" "is_walk ?E k ys j"
      "walk_weight ?w i us k + walk_weight ?w k ys j \<le> walk_weight ?w i xs j"
      using walk_split [of ?E i xs j k ?w, OF ij(4,3) e] by blast
    note l = fw_least [OF st ij(1) k u(1,3)] fw_least [OF st k ij(2) u(2,4)]
    then show ?thesis using sum(2) [OF ij(1,2) l(1,3)] u(5) by (auto simp: g_def)
  qed
  show ?thesis using d up low by (auto simp: fw_stage_def)
qed

section \<open>Properties\<close>

text \<open>
  C28 (Warshall's algorithm computes the transitive closure). For every matrix of zeros and ones the entry for \<open>s\<close>
  and \<open>t\<close> is one exactly if a path of at least one arc leads from \<open>s\<close> to \<open>t\<close>.
\<close>
theorem warshall_closure:
  assumes "square n graph" "square n tc0" "\<forall>i<n. \<forall>j<n. graph ! i ! j \<in> {0, 1}"
  shows "\<exists>tc. warshall n graph tc0 = Some tc \<and> square n tc \<and>
    (\<forall>s<n. \<forall>t<n. tc ! s ! t = (if (s, t) \<in> {(a, b). a < n \<and> b < n \<and> graph ! a ! b \<noteq> 0}\<^sup>+ then 1 else 0))"
proof -
  have "tc_stage n graph 0 graph" unfolding tc_stage_def using assms(1,3) by (auto simp: arc_def)
  then obtain tc where tc: "for_loop 0 n (pivot_round tc_cell n) graph = Some tc" "tc_stage n graph n tc"
    using for_loop_inv [of "tc_stage n graph" 0 graph n "pivot_round tc_cell n"] tc_step by auto
  have "(\<exists>xs. set xs \<subseteq> {..<n} \<and> is_walk (arc n 0 graph) s xs t) \<longleftrightarrow>
      (s, t) \<in> {(a, b). a < n \<and> b < n \<and> graph ! a ! b \<noteq> 0}\<^sup>+" for s t
    using walk_trancl [of "arc n 0 graph" s t] walk_inside [of n 0 graph s _ t] unfolding arc_def by blast
  then show ?thesis using tc copy_matrix_eq [OF assms(1,2)] by (simp add: warshall_def tc_stage_def)
qed

theorem warshall_closure_witness:
  "square NODES digraph \<and> (\<exists>tc. warshall NODES digraph (replicate NODES (replicate NODES 7)) = Some tc \<and> square NODES tc \<and>
    tc ! 2 ! 3 = (if (2, 3) \<in> {(a, b). a < NODES \<and> b < NODES \<and> digraph ! a ! b \<noteq> 0}\<^sup>+ then 1 else 0))"
proof -
  have "square NODES digraph" "square NODES (replicate NODES (replicate NODES (7 :: int)))"
    by (auto simp: square_def NODES_def digraph_def)
  moreover have "\<forall>i<NODES. \<forall>j<NODES. digraph ! i ! j \<in> {0, 1}"
    unfolding NODES_def digraph_def by (auto simp: numeral_eq_Suc less_Suc_eq)
  moreover have "2 < NODES" "3 < NODES" by (simp_all add: NODES_def)
  ultimately show ?thesis using warshall_closure [of NODES digraph "replicate NODES (replicate NODES 7)"] by blast
qed

text \<open>
  C29 (the printed distances are those of shortest walks). With weights from 0 to \<open>W\<close>, where \<open>W\<close> is so small that
  no sum overflows, \<open>FloydWarshall\<close> returns; an entry is \<open>INT_MAX\<close> exactly if there is no walk, and otherwise the
  weight of a walk than which no other is lighter.
\<close>
theorem FloydWarshall_shortest:
  assumes "vertexNum G = V" "square V (edges G)" "square V dist0" "small_weights V (edges G) W"
  shows "\<exists>D. FloydWarshall dist0 G = Some D \<and> (\<forall>i<V. \<forall>j<V.
    (D ! i ! j = INT_MAX \<longleftrightarrow> (\<nexists>xs. is_walk (arc V INT_MAX (edges G)) i xs j)) \<and>
    (D ! i ! j \<noteq> INT_MAX \<longrightarrow>
      (\<exists>xs. is_walk (arc V INT_MAX (edges G)) i xs j \<and> walk_weight (\<lambda>a b. edges G ! a ! b) i xs j = D ! i ! j) \<and>
      (\<forall>xs. is_walk (arc V INT_MAX (edges G)) i xs j \<longrightarrow> D ! i ! j \<le> walk_weight (\<lambda>a b. edges G ! a ! b) i xs j)))"
proof -
  let ?M = "edges G"
  have "fw_stage V ?M 0 ?M" using assms(2) by (simp add: fw_stage_def arc_def)
  then obtain D where d: "for_loop 0 V (pivot_round fw_cell V) ?M = Some D" "fw_stage V ?M V D"
    using for_loop_inv [of "fw_stage V ?M" 0 ?M V "pivot_round fw_cell V"] fw_step [OF _ assms(4)] by auto
  have "FloydWarshall dist0 G = Some D" using d(1) copy_matrix_eq [OF assms(2,3)] assms(1) by (simp add: FloydWarshall_def)
  moreover have "(\<exists>xs. is_walk (arc V INT_MAX ?M) i xs j \<and> walk_weight (\<lambda>a b. ?M ! a ! b) i xs j = D ! i ! j)"
    if "i < V" "j < V" "D ! i ! j \<noteq> INT_MAX" for i j
    using fw_walk [OF d(2) that] by blast
  moreover have "D ! i ! j \<noteq> INT_MAX \<and> D ! i ! j \<le> walk_weight (\<lambda>a b. ?M ! a ! b) i xs j"
    if "i < V" "j < V" "is_walk (arc V INT_MAX ?M) i xs j" for i j xs
    using fw_least [OF d(2) that(1,2) walk_inside [OF that(3)] that(3)] by blast
  ultimately show ?thesis by (intro exI [of _ D]) blast
qed

text \<open>Three vertices with the arcs 0 - 1 of weight 9, 0 - 2 of weight 2 and 2 - 1 of weight 3.\<close>

definition small_graph :: Graph where
  "small_graph = \<lparr>vertexNum = 3, edges = [[0, 9, 2], [INT_MAX, 0, INT_MAX], [INT_MAX, 3, 0]]\<rparr>"

lemma small_graph_build:
  "do { G \<leftarrow> addEdge (createGraph 3) 0 1 9; G \<leftarrow> addEdge G 0 2 2; addEdge G 2 1 3 } = Some small_graph"
  by code_simp

theorem FloydWarshall_shortest_witness:
  "\<exists>D. FloydWarshall (replicate 3 (replicate 3 7)) small_graph = Some D \<and> D ! 0 ! 1 = 5 \<and> D ! 1 ! 0 = INT_MAX \<and>
    (\<nexists>xs. is_walk (arc 3 INT_MAX (edges small_graph)) 1 xs 0)"
proof -
  have "square 3 (edges small_graph)" "square 3 (replicate 3 (replicate 3 (7 :: int)))"
    by (simp_all add: square_def small_graph_def)
  moreover have "small_weights 3 (edges small_graph) 9"
    unfolding small_weights_def small_graph_def INT_MAX_def by (auto simp: numeral_eq_Suc less_Suc_eq)
  moreover have d: "FloydWarshall (replicate 3 (replicate 3 7)) small_graph =
      Some [[0, 5, 2], [INT_MAX, 0, INT_MAX], [INT_MAX, 3, 0]]" by code_simp
  moreover have "vertexNum small_graph = 3" by (simp add: small_graph_def)
  ultimately obtain D where D: "FloydWarshall (replicate 3 (replicate 3 7)) small_graph = Some D"
    "\<forall>i<3. \<forall>j<3. D ! i ! j = INT_MAX \<longleftrightarrow> (\<nexists>xs. is_walk (arc 3 INT_MAX (edges small_graph)) i xs j)"
    using FloydWarshall_shortest [of small_graph 3 "replicate 3 (replicate 3 7)" 9] by blast
  have v: "D = [[0, 5, 2], [INT_MAX, 0, INT_MAX], [INT_MAX, 3, 0]]" using D(1) d by simp
  have "D ! 1 ! 0 = INT_MAX" "D ! 0 ! 1 = 5" unfolding v by simp_all
  moreover have "(\<nexists>xs. is_walk (arc 3 INT_MAX (edges small_graph)) 1 xs 0)"
    using D(2) [rule_format, of 1 0] calculation(1) by simp
  ultimately show ?thesis using D(1) by blast
qed

end
