(* ===== verification/CBuffer.thy ===== *)
theory CBuffer
  imports Prelude
begin

text \<open>
  Byte buffers of the cryptographic sources: bounds-checked \<open>memcpy\<close> from and to an array, the
  exclusive-or of two buffers, and big-endian words. An access that leaves its array is \<open>None\<close>.
\<close>

section \<open>Reading and writing ranges\<close>

definition bget :: "'a list \<Rightarrow> nat \<Rightarrow> nat \<Rightarrow> 'a list option" where
  "bget xs off n = (if off + n \<le> length xs then Some (take n (drop off xs)) else None)"

definition bput :: "'a list \<Rightarrow> nat \<Rightarrow> 'a list \<Rightarrow> 'a list option" where
  "bput xs off bs = (if off + length bs \<le> length xs then Some (buf_write xs off bs) else None)"

lemma bget_in [array_simps]: "off + n \<le> length xs \<Longrightarrow> bget xs off n = Some (take n (drop off xs))"
  by (simp add: bget_def)

lemma bput_in [array_simps]: "off + length bs \<le> length xs \<Longrightarrow> bput xs off bs = Some (buf_write xs off bs)"
  by (simp add: bput_def)

lemma bput_out [array_simps]: "length xs < off + length bs \<Longrightarrow> bput xs off bs = None"
  by (simp add: bput_def)

lemma bget_SomeD: "bget xs off n = Some ys \<Longrightarrow> length ys = n \<and> off + n \<le> length xs"
  by (auto simp: bget_def split: if_splits)

lemma bput_SomeD: "bput xs off bs = Some ys \<Longrightarrow> length ys = length xs \<and> off + length bs \<le> length xs"
  by (auto simp: bput_def split: if_splits)

lemma take_buf_write:
  "n \<le> off \<Longrightarrow> off + length bs \<le> length xs \<Longrightarrow> take n (buf_write xs off bs) = take n xs"
  by (simp add: buf_write_def)

lemma buf_write_0: "length bs = length xs \<Longrightarrow> buf_write xs 0 bs = bs"
  by (simp add: buf_write_def)

lemma drop_buf_write:
  "off + length bs \<le> length xs \<Longrightarrow> off + length bs \<le> n \<Longrightarrow> drop n (buf_write xs off bs) = drop n xs"
  by (auto simp: buf_write_def)

lemma buf_write_append:
  "length xs = off \<Longrightarrow> length bs \<le> length ys \<Longrightarrow>
    buf_write (xs @ ys) off bs = xs @ bs @ drop (length bs) ys"
  by (simp add: buf_write_def)

section \<open>Exclusive or\<close>

text \<open>\<open>xor_buf(in, out, len)\<close> of \<open>aes.c\<close> on the first \<open>len\<close> bytes of two arrays.\<close>

definition xor_bytes :: "byte list \<Rightarrow> byte list \<Rightarrow> byte list" where
  "xor_bytes xs ys = map2 (XOR) xs ys"

lemma length_xor_bytes [simp]: "length (xor_bytes xs ys) = min (length xs) (length ys)"
  by (simp add: xor_bytes_def)

lemma xor_bytes_commute: "xor_bytes xs ys = xor_bytes ys xs"
  by (simp add: xor_bytes_def list_eq_iff_nth_eq xor.commute)

lemma xor_bytes_cancel:
  "length ys \<le> length xs \<Longrightarrow> xor_bytes xs (xor_bytes xs ys) = ys"
  by (auto simp: xor_bytes_def list_eq_iff_nth_eq xor.assoc [symmetric])

lemma xor_bytes_append:
  "length xs = length ys \<Longrightarrow> xor_bytes (xs @ xs') (ys @ ys') = xor_bytes xs ys @ xor_bytes xs' ys'"
  by (simp add: xor_bytes_def)

lemma take_xor_bytes: "take n (xor_bytes xs ys) = xor_bytes (take n xs) (take n ys)"
  by (simp add: xor_bytes_def take_map take_zip)

lemma xor_bytes_take: "length ys \<le> n \<Longrightarrow> xor_bytes (take n xs) ys = xor_bytes xs ys"
  by (auto simp: xor_bytes_def list_eq_iff_nth_eq)

lemma xor_bytes_zero: "xor_bytes (replicate (length xs) 0) xs = xs"
  by (auto simp: xor_bytes_def list_eq_iff_nth_eq)

section \<open>Words\<close>

text \<open>The value a \<open>BYTE\<close> variable takes when a wider word is stored in it.\<close>

abbreviation byte_of :: "word32 \<Rightarrow> byte" where
  "byte_of w \<equiv> ucast w"

text \<open>\<open>(a << 24) | (b << 16) | (c << 8) | d\<close>.\<close>

definition be_word :: "byte \<Rightarrow> byte \<Rightarrow> byte \<Rightarrow> byte \<Rightarrow> word32" where
  "be_word a b c d =
     push_bit 24 (ucast a) OR push_bit 16 (ucast b) OR push_bit 8 (ucast c) OR ucast d"

definition be_bytes :: "word32 \<Rightarrow> byte list" where
  "be_bytes w = [byte_of (drop_bit 24 w), byte_of (drop_bit 16 w), byte_of (drop_bit 8 w), byte_of w]"

lemma be_bytes_be_word: "be_bytes (be_word a b c d) = [a, b, c, d]"
  by (auto simp: be_bytes_def be_word_def intro!: bit_word_eqI) (auto simp: bit_simps dest: bit_imp_le_length)

lemma unat_byte_less: "unat (b :: byte) < 256"
  using unsigned_less [of b] by simp

section \<open>Equality by bits\<close>

lemma bit_byte_high: "8 \<le> n \<Longrightarrow> \<not> bit (a :: byte) n"
  using bit_imp_le_length [of a n] by auto

lemma byte_eqI:
  fixes a b :: byte
  assumes "\<And>n. n \<in> {0, 1, 2, 3, 4, 5, 6, 7} \<Longrightarrow> bit a n = bit b n"
  shows "a = b"
proof (rule bit_word_eqI)
  fix n assume "n < LENGTH(8)"
  then have "n \<in> {0, 1, 2, 3, 4, 5, 6, 7}" by (auto simp: less_Suc_eq numeral_eq_Suc)
  then show "bit a n = bit b n" by (rule assms)
qed

lemma nat32_cases: "n < 32 \<Longrightarrow> n \<in> {0, 1, 2, 3, 4, 5, 6, 7, 8, 9, 10, 11, 12, 13, 14, 15, 16, 17, 18, 19,
    20, 21, 22, 23, 24, 25, 26, 27, 28, 29, 30, 31}" for n :: nat
  by (simp add: numeral_eq_Suc less_Suc_eq)

lemma word32_eqI:
  fixes a b :: word32
  assumes "\<And>n. n \<in> {0, 1, 2, 3, 4, 5, 6, 7, 8, 9, 10, 11, 12, 13, 14, 15, 16, 17, 18, 19,
    20, 21, 22, 23, 24, 25, 26, 27, 28, 29, 30, 31} \<Longrightarrow> bit a n = bit b n"
  shows "a = b"
  using assms nat32_cases by (intro bit_word_eqI) auto

section \<open>Access relative to a prefix\<close>

lemma aget_at:
  "aget (xs @ a # t) (length xs) = Some a"
  "aget (xs @ a # b # t) (length xs + 1) = Some b"
  "aget (xs @ a # b # c # t) (length xs + 2) = Some c"
  "aget (xs @ a # b # c # d # t) (length xs + 3) = Some d"
  by (simp_all add: aget_def nth_append)

lemma aset_at:
  "aset (xs @ a # t) (length xs) v = Some (xs @ v # t)"
  "aset (xs @ a # b # t) (length xs + 1) v = Some (xs @ a # v # t)"
  "aset (xs @ a # b # c # t) (length xs + 2) v = Some (xs @ a # b # v # t)"
  "aset (xs @ a # b # c # d # t) (length xs + 3) v = Some (xs @ a # b # c # v # t)"
  "aset (xs @ a # b # c # d # e # t) (length xs + 4) v = Some (xs @ a # b # c # d # v # t)"
  by (simp_all add: aset_def list_update_append eval_nat_numeral)

end
