(* ===== verification/Aes.thy ===== *)
theory Aes
  imports AesTables CBuffer
begin

text \<open>
  The AES block cipher of \<open>crypto-algorithms_learn/aes.c\<close>: key expansion, the round steps and their
  inverses, \<open>aes_encrypt\<close> and \<open>aes_decrypt\<close>. The 4 by 4 array \<open>state\<close> is a value with sixteen bytes,
  written row by row as the source indexes it.
\<close>

section \<open>State and steps\<close>

datatype row = Row byte byte byte byte
datatype aes_state = State row row row row

fun map_row :: "(byte \<Rightarrow> byte) \<Rightarrow> row \<Rightarrow> row" where
  "map_row f (Row a b c d) = Row (f a) (f b) (f c) (f d)"

text \<open>The four bytes \<open>subkey[0..3]\<close> of a round-key word.\<close>

definition subkey :: "nat \<Rightarrow> word32 \<Rightarrow> byte" where
  "subkey i w = byte_of (drop_bit (24 - 8 * i) w)"

fun AddRoundKey :: "aes_state \<Rightarrow> word32 \<Rightarrow> word32 \<Rightarrow> word32 \<Rightarrow> word32 \<Rightarrow> aes_state" where
  "AddRoundKey (State (Row a0 a1 a2 a3) (Row b0 b1 b2 b3) (Row c0 c1 c2 c3) (Row d0 d1 d2 d3)) w0 w1 w2 w3 =
     State
       (Row (a0 XOR subkey 0 w0) (a1 XOR subkey 0 w1) (a2 XOR subkey 0 w2) (a3 XOR subkey 0 w3))
       (Row (b0 XOR subkey 1 w0) (b1 XOR subkey 1 w1) (b2 XOR subkey 1 w2) (b3 XOR subkey 1 w3))
       (Row (c0 XOR subkey 2 w0) (c1 XOR subkey 2 w1) (c2 XOR subkey 2 w2) (c3 XOR subkey 2 w3))
       (Row (d0 XOR subkey 3 w0) (d1 XOR subkey 3 w1) (d2 XOR subkey 3 w2) (d3 XOR subkey 3 w3))"

fun SubBytes :: "aes_state \<Rightarrow> aes_state" where
  "SubBytes (State r0 r1 r2 r3) =
     State (map_row aes_sub r0) (map_row aes_sub r1) (map_row aes_sub r2) (map_row aes_sub r3)"

fun InvSubBytes :: "aes_state \<Rightarrow> aes_state" where
  "InvSubBytes (State r0 r1 r2 r3) =
     State (map_row aes_inv_sub r0) (map_row aes_inv_sub r1) (map_row aes_inv_sub r2)
       (map_row aes_inv_sub r3)"

fun ShiftRows :: "aes_state \<Rightarrow> aes_state" where
  "ShiftRows (State r0 (Row b0 b1 b2 b3) (Row c0 c1 c2 c3) (Row d0 d1 d2 d3)) =
     State r0 (Row b1 b2 b3 b0) (Row c2 c3 c0 c1) (Row d3 d0 d1 d2)"

fun InvShiftRows :: "aes_state \<Rightarrow> aes_state" where
  "InvShiftRows (State r0 (Row b0 b1 b2 b3) (Row c0 c1 c2 c3) (Row d0 d1 d2 d3)) =
     State r0 (Row b3 b0 b1 b2) (Row c2 c3 c0 c1) (Row d1 d2 d3 d0)"

text \<open>\<open>gf_mul[x][k]\<close>, and the new value of one column \<open>col[0..3]\<close>.\<close>

definition gf :: "byte \<Rightarrow> nat \<Rightarrow> byte" where
  "gf x k = gf_mul ! unat x ! k"

definition mix_col :: "byte \<Rightarrow> byte \<Rightarrow> byte \<Rightarrow> byte \<Rightarrow> row" where
  "mix_col x0 x1 x2 x3 = Row
     (gf x0 0 XOR gf x1 1 XOR x2 XOR x3)
     (x0 XOR gf x1 0 XOR gf x2 1 XOR x3)
     (x0 XOR x1 XOR gf x2 0 XOR gf x3 1)
     (gf x0 1 XOR x1 XOR x2 XOR gf x3 0)"

definition inv_mix_col :: "byte \<Rightarrow> byte \<Rightarrow> byte \<Rightarrow> byte \<Rightarrow> row" where
  "inv_mix_col x0 x1 x2 x3 = Row
     (gf x0 5 XOR gf x1 3 XOR gf x2 4 XOR gf x3 2)
     (gf x0 2 XOR gf x1 5 XOR gf x2 3 XOR gf x3 4)
     (gf x0 4 XOR gf x1 2 XOR gf x2 5 XOR gf x3 3)
     (gf x0 3 XOR gf x1 4 XOR gf x2 2 XOR gf x3 5)"

text \<open>A state from its four columns.\<close>

fun of_cols :: "row \<Rightarrow> row \<Rightarrow> row \<Rightarrow> row \<Rightarrow> aes_state" where
  "of_cols (Row a0 b0 c0 d0) (Row a1 b1 c1 d1) (Row a2 b2 c2 d2) (Row a3 b3 c3 d3) =
     State (Row a0 a1 a2 a3) (Row b0 b1 b2 b3) (Row c0 c1 c2 c3) (Row d0 d1 d2 d3)"

fun MixColumns :: "aes_state \<Rightarrow> aes_state" where
  "MixColumns (State (Row a0 a1 a2 a3) (Row b0 b1 b2 b3) (Row c0 c1 c2 c3) (Row d0 d1 d2 d3)) =
     of_cols (mix_col a0 b0 c0 d0) (mix_col a1 b1 c1 d1) (mix_col a2 b2 c2 d2) (mix_col a3 b3 c3 d3)"

fun InvMixColumns :: "aes_state \<Rightarrow> aes_state" where
  "InvMixColumns (State (Row a0 a1 a2 a3) (Row b0 b1 b2 b3) (Row c0 c1 c2 c3) (Row d0 d1 d2 d3)) =
     of_cols (inv_mix_col a0 b0 c0 d0) (inv_mix_col a1 b1 c1 d1) (inv_mix_col a2 b2 c2 d2)
       (inv_mix_col a3 b3 c3 d3)"

section \<open>Block encryption and decryption\<close>

text \<open>Copying \<open>in[0..15]\<close> to the state by columns, and the state to \<open>out[0..15]\<close>.\<close>

definition load_state :: "byte list \<Rightarrow> aes_state" where
  "load_state i = State
     (Row (i ! 0) (i ! 4) (i ! 8) (i ! 12)) (Row (i ! 1) (i ! 5) (i ! 9) (i ! 13))
     (Row (i ! 2) (i ! 6) (i ! 10) (i ! 14)) (Row (i ! 3) (i ! 7) (i ! 11) (i ! 15))"

fun store_state :: "aes_state \<Rightarrow> byte list" where
  "store_state (State (Row a0 a1 a2 a3) (Row b0 b1 b2 b3) (Row c0 c1 c2 c3) (Row d0 d1 d2 d3)) =
     [a0, b0, c0, d0, a1, b1, c1, d1, a2, b2, c2, d2, a3, b3, c3, d3]"

text \<open>\<open>AddRoundKey(state, &key[k])\<close>.\<close>

definition add_key :: "word32 list \<Rightarrow> nat \<Rightarrow> aes_state \<Rightarrow> aes_state" where
  "add_key key k s = AddRoundKey s (key ! k) (key ! (k + 1)) (key ! (k + 2)) (key ! (k + 3))"

definition enc_round :: "word32 list \<Rightarrow> nat \<Rightarrow> aes_state \<Rightarrow> aes_state" where
  "enc_round key k s = add_key key k (MixColumns (ShiftRows (SubBytes s)))"

definition enc_last :: "word32 list \<Rightarrow> nat \<Rightarrow> aes_state \<Rightarrow> aes_state" where
  "enc_last key k s = add_key key k (ShiftRows (SubBytes s))"

definition dec_round :: "word32 list \<Rightarrow> nat \<Rightarrow> aes_state \<Rightarrow> aes_state" where
  "dec_round key k s = InvMixColumns (add_key key k (InvSubBytes (InvShiftRows s)))"

text \<open>The words of the key schedule that are read: \<open>key[0 .. 4 * (Nr + 1) - 1]\<close>.\<close>

definition enc_words :: "int \<Rightarrow> nat" where
  "enc_words keysize = (if keysize \<noteq> 128 then if keysize \<noteq> 192 then 60 else 52 else 44)"

definition dec_words :: "int \<Rightarrow> nat" where
  "dec_words keysize = (if keysize > 128 then if keysize > 192 then 60 else 52 else 44)"

definition encrypt_state :: "word32 list \<Rightarrow> int \<Rightarrow> aes_state \<Rightarrow> aes_state" where
  "encrypt_state key keysize s0 =
     (let s = add_key key 0 s0;
          s = enc_round key 4 s;
          s = enc_round key 8 s;
          s = enc_round key 12 s;
          s = enc_round key 16 s;
          s = enc_round key 20 s;
          s = enc_round key 24 s;
          s = enc_round key 28 s;
          s = enc_round key 32 s;
          s = enc_round key 36 s
      in if keysize \<noteq> 128 then
           let s = enc_round key 40 s;
               s = enc_round key 44 s
           in if keysize \<noteq> 192 then
                let s = enc_round key 48 s;
                    s = enc_round key 52 s
                in enc_last key 56 s
              else enc_last key 48 s
         else enc_last key 40 s)"

definition decrypt_state :: "word32 list \<Rightarrow> int \<Rightarrow> aes_state \<Rightarrow> aes_state" where
  "decrypt_state key keysize s0 =
     (let s = (if keysize > 128 then
                 let s = (if keysize > 192 then
                            let s = add_key key 56 s0;
                                s = dec_round key 52 s
                            in dec_round key 48 s
                          else add_key key 48 s0);
                     s = dec_round key 44 s
                 in dec_round key 40 s
               else add_key key 40 s0);
          s = dec_round key 36 s;
          s = dec_round key 32 s;
          s = dec_round key 28 s;
          s = dec_round key 24 s;
          s = dec_round key 20 s;
          s = dec_round key 16 s;
          s = dec_round key 12 s;
          s = dec_round key 8 s;
          s = dec_round key 4 s
      in add_key key 0 (InvSubBytes (InvShiftRows s)))"

definition aes_encrypt :: "byte list \<Rightarrow> word32 list \<Rightarrow> int \<Rightarrow> byte list option" where
  "aes_encrypt i key keysize =
     (if length i < 16 \<or> length key < enc_words keysize then None
      else Some (store_state (encrypt_state key keysize (load_state i))))"

definition aes_decrypt :: "byte list \<Rightarrow> word32 list \<Rightarrow> int \<Rightarrow> byte list option" where
  "aes_decrypt i key keysize =
     (if length i < 16 \<or> length key < dec_words keysize then None
      else Some (store_state (decrypt_state key keysize (load_state i))))"

section \<open>Key expansion\<close>

text \<open>\<open>KE_ROTWORD\<close>, and the four S-box lookups of \<open>SubWord\<close>, added up.\<close>

definition KE_ROTWORD :: "word32 \<Rightarrow> word32" where
  "KE_ROTWORD x = push_bit 8 x OR drop_bit 24 x"

definition sbox_at :: "word32 \<Rightarrow> nat \<Rightarrow> word32" where
  "sbox_at w k = ucast (aes_sbox ! unat (drop_bit (k + 4) w AND 0x0F) ! unat (drop_bit k w AND 0x0F))"

definition SubWord :: "word32 \<Rightarrow> word32" where
  "SubWord w = sbox_at w 0 + push_bit 8 (sbox_at w 8) + push_bit 16 (sbox_at w 16) +
     push_bit 24 (sbox_at w 24)"

definition Rcon :: "word32 list" where
  "Rcon = [0x01000000, 0x02000000, 0x04000000, 0x08000000, 0x10000000, 0x20000000, 0x40000000,
     0x80000000, 0x1b000000, 0x36000000, 0x6c000000, 0xd8000000, 0xab000000, 0x4d000000, 0x9a000000]"

text \<open>The number of rounds and of key words, from the \<open>switch\<close>; \<open>None\<close> is the default case.\<close>

definition key_params :: "int \<Rightarrow> (nat \<times> nat) option" where
  "key_params key_size =
     (if key_size = 128 then Some (10, 4)
      else if key_size = 192 then Some (12, 6)
      else if key_size = 256 then Some (14, 8)
      else None)"

text \<open>The first loop: the key bytes as big-endian words.\<close>

fun key_copy :: "byte list \<Rightarrow> nat \<Rightarrow> nat \<Rightarrow> word32 list \<Rightarrow> word32 list option" where
  "key_copy key idx 0 w = Some w"
| "key_copy key idx (Suc n) w = do {
     a \<leftarrow> aget key (4 * idx);
     b \<leftarrow> aget key (4 * idx + 1);
     c \<leftarrow> aget key (4 * idx + 2);
     d \<leftarrow> aget key (4 * idx + 3);
     w \<leftarrow> aset w idx (be_word a b c d);
     key_copy key (idx + 1) n w }"

text \<open>The body of the second loop on \<open>temp = w[idx - 1]\<close>.\<close>

definition key_temp :: "nat \<Rightarrow> nat \<Rightarrow> word32 \<Rightarrow> word32 option" where
  "key_temp Nk idx temp =
     (if idx mod Nk = 0 then do { r \<leftarrow> aget Rcon ((idx - 1) div Nk); Some (SubWord (KE_ROTWORD temp) XOR r) }
      else if Nk > 6 \<and> idx mod Nk = 4 then Some (SubWord temp)
      else Some temp)"

fun key_expand :: "nat \<Rightarrow> nat \<Rightarrow> nat \<Rightarrow> word32 list \<Rightarrow> word32 list option" where
  "key_expand Nk idx 0 w = Some w"
| "key_expand Nk idx (Suc n) w = do {
     temp \<leftarrow> aget w (idx - 1);
     temp \<leftarrow> key_temp Nk idx temp;
     v \<leftarrow> aget w (idx - Nk);
     w \<leftarrow> aset w idx (v XOR temp);
     key_expand Nk (idx + 1) n w }"

definition aes_key_setup :: "byte list \<Rightarrow> word32 list \<Rightarrow> int \<Rightarrow> word32 list option" where
  "aes_key_setup key w key_size =
     (case key_params key_size of
        None \<Rightarrow> Some w
      | Some (Nr, Nk) \<Rightarrow> do {
          w \<leftarrow> key_copy key 0 Nk w;
          key_expand Nk Nk (4 * (Nr + 1) - Nk) w })"

section \<open>Every step is undone by its inverse\<close>

lemma AddRoundKey_twice: "AddRoundKey (AddRoundKey s w0 w1 w2 w3) w0 w1 w2 w3 = s"
  by (cases s; rename_tac r0 r1 r2 r3; case_tac r0; case_tac r1; case_tac r2; case_tac r3)
    (simp add: xor.assoc)

lemma add_key_twice [simp]: "add_key key k (add_key key k s) = s"
  by (simp add: add_key_def AddRoundKey_twice)

lemma map_row_inv: "(\<And>x. g (f x) = x) \<Longrightarrow> map_row g (map_row f r) = r"
  by (cases r) simp

lemma InvSubBytes_SubBytes [simp]: "InvSubBytes (SubBytes s) = s"
  by (cases s) (simp add: map_row_inv)

lemma SubBytes_InvSubBytes [simp]: "SubBytes (InvSubBytes s) = s"
  by (cases s) (simp add: map_row_inv)

lemma InvShiftRows_ShiftRows [simp]: "InvShiftRows (ShiftRows s) = s"
  by (cases s rule: ShiftRows.cases) simp

lemma ShiftRows_InvShiftRows [simp]: "ShiftRows (InvShiftRows s) = s"
  by (cases s rule: ShiftRows.cases) simp

lemma gf_lookup:
  "gf x 0 = xtime x" "gf x 1 = xtime x XOR x" "gf x (Suc 0) = xtime x XOR x"
  "gf x 2 = xtime (xtime (xtime x)) XOR x"
  "gf x 3 = xtime (xtime (xtime x)) XOR xtime x XOR x"
  "gf x 4 = xtime (xtime (xtime x)) XOR xtime (xtime x) XOR x"
  "gf x 5 = xtime (xtime (xtime x)) XOR xtime (xtime x) XOR xtime x"
  by (simp_all add: gf_def gf_mul_nth gf_mul_nth(2) [simplified])

lemma xor_left_self [simp]: "(a :: byte) XOR (a XOR b) = b"
  by (simp flip: xor.assoc)

lemma gf_xor: "k < 6 \<Longrightarrow> gf (x XOR y) k = gf x k XOR gf y k"
proof -
  have "k = 0 \<or> k = 1 \<or> k = 2 \<or> k = 3 \<or> k = 4 \<or> k = 5" if "k < 6" using that by arith
  then show "k < 6 \<Longrightarrow> gf (x XOR y) k = gf x k XOR gf y k"
    by (auto simp: gf_lookup xtime_xor xor.assoc xor.commute xor.left_commute)
qed

fun col_map :: "(byte \<Rightarrow> byte \<Rightarrow> byte \<Rightarrow> byte \<Rightarrow> row) \<Rightarrow> row \<Rightarrow> row" where
  "col_map f (Row a b c d) = f a b c d"

lemma inv_mix_col_mix_col: "col_map inv_mix_col (mix_col a b c d) = Row a b c d"
  by (simp add: mix_col_def inv_mix_col_def gf_lookup xtime_xor xor.assoc xor.commute xor.left_commute)

lemma mix_col_inv_mix_col: "col_map mix_col (inv_mix_col a b c d) = Row a b c d"
  by (simp add: mix_col_def inv_mix_col_def gf_lookup xtime_xor xor.assoc xor.commute xor.left_commute)

lemma MixColumns_of_cols: "MixColumns (of_cols p q r t) =
    of_cols (col_map mix_col p) (col_map mix_col q) (col_map mix_col r) (col_map mix_col t)"
  by (cases p; cases q; cases r; cases t) simp

lemma InvMixColumns_of_cols: "InvMixColumns (of_cols p q r t) =
    of_cols (col_map inv_mix_col p) (col_map inv_mix_col q) (col_map inv_mix_col r)
      (col_map inv_mix_col t)"
  by (cases p; cases q; cases r; cases t) simp

lemma InvMixColumns_MixColumns [simp]: "InvMixColumns (MixColumns s) = s"
  by (cases s rule: MixColumns.cases) (simp add: InvMixColumns_of_cols inv_mix_col_mix_col)

lemma MixColumns_InvMixColumns [simp]: "MixColumns (InvMixColumns s) = s"
  by (cases s rule: MixColumns.cases) (simp add: MixColumns_of_cols mix_col_inv_mix_col)

section \<open>Decryption inverts encryption\<close>

text \<open>The number of words the documented key sizes use.\<close>

definition valid_keysize :: "int \<Rightarrow> bool" where
  "valid_keysize keysize \<longleftrightarrow> keysize = 128 \<or> keysize = 192 \<or> keysize = 256"

lemma words_eq: "valid_keysize keysize \<Longrightarrow> dec_words keysize = enc_words keysize"
  by (auto simp: valid_keysize_def enc_words_def dec_words_def)

lemmas round_defs = enc_round_def enc_last_def dec_round_def

lemma decrypt_encrypt_state: "valid_keysize keysize \<Longrightarrow>
    decrypt_state key keysize (encrypt_state key keysize s) = s"
  by (auto simp: valid_keysize_def encrypt_state_def decrypt_state_def round_defs Let_def)

lemma encrypt_decrypt_state: "valid_keysize keysize \<Longrightarrow>
    encrypt_state key keysize (decrypt_state key keysize s) = s"
  by (auto simp: valid_keysize_def encrypt_state_def decrypt_state_def round_defs Let_def)

lemma load_store_state [simp]: "load_state (store_state s) = s"
  by (cases s rule: MixColumns.cases) (simp add: load_state_def)

lemma length_store_state [simp]: "length (store_state s) = 16"
  by (cases s rule: MixColumns.cases) simp

lemma store_load_state:
  assumes "length i = 16"
  shows "store_state (load_state i) = i"
proof -
  have "i = map ((!) i) [0..<16]" by (simp add: assms [symmetric] map_nth)
  also have "\<dots> = store_state (load_state i)" by (simp add: load_state_def upt_rec numeral_eq_Suc)
  finally show ?thesis by simp
qed

lemma aes_encrypt_decrypt:
  assumes "length b = 16" "valid_keysize keysize" "enc_words keysize \<le> length key"
  shows "\<exists>c. aes_encrypt b key keysize = Some c \<and> length c = 16 \<and> aes_decrypt c key keysize = Some b"
  using assms
  by (simp add: aes_encrypt_def aes_decrypt_def words_eq decrypt_encrypt_state store_load_state)

lemma aes_decrypt_encrypt:
  assumes "length c = 16" "valid_keysize keysize" "enc_words keysize \<le> length key"
  shows "\<exists>b. aes_decrypt c key keysize = Some b \<and> length b = 16 \<and> aes_encrypt b key keysize = Some c"
  using assms
  by (simp add: aes_encrypt_def aes_decrypt_def words_eq encrypt_decrypt_state store_load_state)

section \<open>The key schedule\<close>

lemma key_copy_eq:
  defines "kw \<equiv> \<lambda>key j. be_word (key ! (4 * j)) (key ! (4 * j + 1)) (key ! (4 * j + 2)) (key ! (4 * j + 3))"
  shows "4 * (idx + n) \<le> length key \<Longrightarrow> idx + n \<le> length w \<Longrightarrow>
    \<exists>w'. key_copy key idx n w = Some w' \<and> length w' = length w \<and>
      (\<forall>j. idx \<le> j \<and> j < idx + n \<longrightarrow> w' ! j = kw key j) \<and>
      (\<forall>j. j < idx \<or> idx + n \<le> j \<longrightarrow> w' ! j = w ! j)"
proof (induction n arbitrary: idx w)
  case 0
  then show ?case by auto
next
  case (Suc n)
  let ?w1 = "w[idx := kw key idx]"
  have "4 * idx < length key" "4 * idx + 1 < length key" "4 * idx + 2 < length key"
      "4 * idx + 3 < length key" "idx < length w" using Suc.prems by simp_all
  then have step: "key_copy key idx (Suc n) w = key_copy key (idx + 1) n ?w1"
    by (simp add: array_simps kw_def)
  obtain w' where w': "key_copy key (idx + 1) n ?w1 = Some w'" "length w' = length w"
      "\<forall>j. idx + 1 \<le> j \<and> j < idx + 1 + n \<longrightarrow> w' ! j = kw key j"
      "\<forall>j. j < idx + 1 \<or> idx + 1 + n \<le> j \<longrightarrow> w' ! j = ?w1 ! j"
    using Suc.IH [of "idx + 1" ?w1] Suc.prems by auto
  have "w' ! idx = kw key idx" using w'(4) Suc.prems by simp
  then have "\<forall>j. idx \<le> j \<and> j < idx + Suc n \<longrightarrow> w' ! j = kw key j"
    using w'(3) by (metis Suc_eq_plus1 add_Suc_shift le_antisym not_less_eq_eq)
  then show ?case using step w' by auto
qed

text \<open>
  The recurrence of the standard: each later word is the word \<open>Nk\<close> places back, exclusive-or the
  previous word as transformed by the loop body.
\<close>

definition schedule_step :: "nat \<Rightarrow> word32 list \<Rightarrow> nat \<Rightarrow> bool" where
  "schedule_step Nk w j \<longleftrightarrow>
     map_option ((XOR) (w ! (j - Nk))) (key_temp Nk j (w ! (j - 1))) = Some (w ! j)"

lemma key_expand_eq:
  "0 < Nk \<Longrightarrow> Nk \<le> idx \<Longrightarrow> idx + n \<le> length w \<Longrightarrow> idx + n \<le> 15 * Nk \<Longrightarrow>
    \<exists>w'. key_expand Nk idx n w = Some w' \<and> length w' = length w \<and>
      (\<forall>j. idx \<le> j \<and> j < idx + n \<longrightarrow> schedule_step Nk w' j) \<and>
      (\<forall>j. j < idx \<or> idx + n \<le> j \<longrightarrow> w' ! j = w ! j)"
proof (induction n arbitrary: idx w)
  case 0
  then show ?case by auto
next
  case (Suc n)
  have "(idx - 1) div Nk < 15" using Suc.prems by (intro div_less_iff_less_mult [THEN iffD2]) auto
  then have "(idx - 1) div Nk < length Rcon" by (simp add: Rcon_def)
  then obtain t where t: "key_temp Nk idx (w ! (idx - 1)) = Some t"
    by (metis (no_types, lifting) aget_in bind.bind_lunit key_temp_def)
  let ?w1 = "w[idx := w ! (idx - Nk) XOR t]"
  have "idx - 1 < length w" "idx - Nk < length w" "idx < length w" using Suc.prems by linarith+
  then have step: "key_expand Nk idx (Suc n) w = key_expand Nk (idx + 1) n ?w1"
    using t by (simp add: array_simps)
  obtain w' where w': "key_expand Nk (idx + 1) n ?w1 = Some w'" "length w' = length w"
      "\<forall>j. idx + 1 \<le> j \<and> j < idx + 1 + n \<longrightarrow> schedule_step Nk w' j"
      "\<forall>j. j < idx + 1 \<or> idx + 1 + n \<le> j \<longrightarrow> w' ! j = ?w1 ! j"
    using Suc.IH [of "idx + 1" ?w1] Suc.prems by auto
  have "w' ! idx = w ! (idx - Nk) XOR t" "w' ! (idx - 1) = w ! (idx - 1)" "w' ! (idx - Nk) = w ! (idx - Nk)"
    using w'(4) Suc.prems by auto
  then have "schedule_step Nk w' idx" unfolding schedule_step_def by (simp only: t option.map)
  then have "\<forall>j. idx \<le> j \<and> j < idx + Suc n \<longrightarrow> schedule_step Nk w' j"
    using w'(3) by (metis Suc_eq_plus1 add_Suc_shift le_antisym not_less_eq_eq)
  then show ?case using step w' by auto
qed

lemma aes_key_setup_eq:
  assumes "key_params keysize = Some (Nr, Nk)" "4 * Nk \<le> length key" "4 * (Nr + 1) \<le> length w"
  shows "\<exists>w'. aes_key_setup key w keysize = Some w' \<and> length w' = length w \<and>
    (\<forall>j<Nk. be_bytes (w' ! j) = take 4 (drop (4 * j) key)) \<and>
    (\<forall>j. Nk \<le> j \<and> j < 4 * (Nr + 1) \<longrightarrow> schedule_step Nk w' j)"
proof -
  have p: "0 < Nk" "Nk \<le> 4 * (Nr + 1)" "4 * (Nr + 1) \<le> 15 * Nk"
    using assms(1) by (auto simp: key_params_def split: if_splits)
  obtain w1 where w1: "key_copy key 0 Nk w = Some w1" "length w1 = length w"
      "\<forall>j<Nk. w1 ! j = be_word (key ! (4 * j)) (key ! (4 * j + 1)) (key ! (4 * j + 2)) (key ! (4 * j + 3))"
    using key_copy_eq [of 0 Nk key w] assms(2,3) p(2) by auto
  obtain w' where w': "key_expand Nk Nk (4 * (Nr + 1) - Nk) w1 = Some w'" "length w' = length w1"
      "\<forall>j. Nk \<le> j \<and> j < 4 * (Nr + 1) \<longrightarrow> schedule_step Nk w' j" "\<forall>j<Nk. w' ! j = w1 ! j"
    using key_expand_eq [of Nk Nk "4 * (Nr + 1) - Nk" w1] assms(3) p w1(2)
    by (simp only: le_add_diff_inverse) auto
  have "be_bytes (w' ! j) = take 4 (drop (4 * j) key)" if "j < Nk" for j
  proof -
    have "4 * j + 3 < length key" using that assms(2) by linarith
    then have "take 4 (drop (4 * j) key) =
        [key ! (4 * j), key ! (4 * j + 1), key ! (4 * j + 2), key ! (4 * j + 3)]"
      by (intro nth_equalityI) (auto simp: less_Suc_eq numeral_eq_Suc)
    then show ?thesis using w'(4) w1(3) that by (simp add: be_bytes_be_word)
  qed
  then show ?thesis using w' w1(1,2) assms(1) by (auto simp: aes_key_setup_def)
qed

section \<open>Properties\<close>

text \<open>The product of two elements of GF(2^8): one multiple of \<open>x\<close> for each bit of \<open>y\<close>.\<close>

definition gf_times :: "byte \<Rightarrow> byte \<Rightarrow> byte" where
  "gf_times x y =
     foldr (\<lambda>i a. (if bit y i then (xtime ^^ i) x else 0) XOR a) [0, 1, 2, 3, 4, 5, 6, 7] 0"

lemma gf_times_coefficients:
  "gf_times x 2 = xtime x" "gf_times x 3 = x XOR xtime x"
  "gf_times x 9 = x XOR xtime (xtime (xtime x))"
  "gf_times x 11 = x XOR xtime x XOR xtime (xtime (xtime x))"
  "gf_times x 13 = x XOR xtime (xtime x) XOR xtime (xtime (xtime x))"
  "gf_times x 14 = xtime x XOR xtime (xtime x) XOR xtime (xtime (xtime x))"
  by (simp_all add: gf_times_def, simp_all add: numeral_2_eq_2 numeral_3_eq_3)

text \<open>
  The multiplication table. Every entry \<open>gf_mul[x][k]\<close> is the product in GF(2^8) of \<open>x\<close> and the
  coefficient of column \<open>k\<close>: 2, 3, 9, 11, 13 and 14.
\<close>
theorem gf_mul_table:
  "map (\<lambda>k. gf_mul ! unat x ! k) [0, 1, 2, 3, 4, 5] = map (gf_times x) [2, 3, 9, 11, 13, 14]"
  by (simp add: gf_mul_nth gf_mul_nth(2) [simplified] gf_times_coefficients
      xor.assoc xor.commute xor.left_commute)

text \<open>
  C7 (AES block round trip). For each of the three key sizes and every schedule of sufficient length,
  \<open>aes_encrypt\<close> maps a 16-byte block to a 16-byte block that \<open>aes_decrypt\<close> maps back, and
  \<open>aes_decrypt\<close> maps every 16-byte block to one that \<open>aes_encrypt\<close> maps back.
\<close>
theorem aes_block_round_trip:
  assumes "length b = 16" "valid_keysize keysize" "enc_words keysize \<le> length key"
  shows "(\<exists>c. aes_encrypt b key keysize = Some c \<and> length c = 16 \<and> aes_decrypt c key keysize = Some b) \<and>
    (\<exists>p. aes_decrypt b key keysize = Some p \<and> length p = 16 \<and> aes_encrypt p key keysize = Some b)"
  using aes_encrypt_decrypt [OF assms] aes_decrypt_encrypt [OF assms] by blast

theorem aes_block_round_trip_witness:
  "\<exists>c. aes_encrypt (replicate 16 7) (replicate 60 1) 256 = Some c \<and>
    aes_decrypt c (replicate 60 1) 256 = Some (replicate 16 7)"
  using aes_block_round_trip [of "replicate 16 7" 256 "replicate 60 1"]
  by (auto simp: valid_keysize_def enc_words_def)



end
