(* ===== verification/BlockModes.thy ===== *)
theory BlockModes
  imports CBuffer
begin

text \<open>
  The contract of a 16-byte block cipher, and what the chaining modes promise on top of it: cipher
  block chaining as a recursion over the blocks, and the counter-mode key stream with the counter
  block as a 128-bit big-endian number.
\<close>

section \<open>Specifications of the modes\<close>

primrec cbc_enc :: "(byte list \<Rightarrow> byte list option) \<Rightarrow> byte list \<Rightarrow> nat \<Rightarrow> byte list \<Rightarrow> byte list option" where
  "cbc_enc E iv 0 xs = Some []"
| "cbc_enc E iv (Suc n) xs = do {
     c \<leftarrow> E (xor_bytes iv (take 16 xs));
     cs \<leftarrow> cbc_enc E c n (drop 16 xs);
     Some (c @ cs) }"

primrec cbc_dec :: "(byte list \<Rightarrow> byte list option) \<Rightarrow> byte list \<Rightarrow> nat \<Rightarrow> byte list \<Rightarrow> byte list option" where
  "cbc_dec D iv 0 cs = Some []"
| "cbc_dec D iv (Suc n) cs = do {
     p \<leftarrow> D (take 16 cs);
     bs \<leftarrow> cbc_dec D (take 16 cs) n (drop 16 cs);
     Some (xor_bytes iv p @ bs) }"

text \<open>The CBC-MAC: the last cipher block.\<close>

primrec cbc_last :: "(byte list \<Rightarrow> byte list option) \<Rightarrow> byte list \<Rightarrow> nat \<Rightarrow> byte list \<Rightarrow> byte list option" where
  "cbc_last E iv 0 xs = Some iv"
| "cbc_last E iv (Suc n) xs = do {
     c \<leftarrow> E (xor_bytes iv (take 16 xs));
     cbc_last E c n (drop 16 xs) }"

text \<open>Big-endian value of a byte string, and the block that follows a counter block.\<close>

definition be_val :: "byte list \<Rightarrow> nat" where
  "be_val bs = foldl (\<lambda>a b. a * 256 + unat b) 0 bs"

primrec be_block :: "nat \<Rightarrow> nat \<Rightarrow> byte list" where
  "be_block 0 v = []"
| "be_block (Suc n) v = be_block n (v div 256) @ [word_of_nat (v mod 256)]"

text \<open>\<open>n\<close> blocks of key stream from the counter value \<open>v\<close> on.\<close>

primrec ctr_stream :: "(byte list \<Rightarrow> byte list option) \<Rightarrow> nat \<Rightarrow> nat \<Rightarrow> byte list option" where
  "ctr_stream E v 0 = Some []"
| "ctr_stream E v (Suc n) = do {
     b \<leftarrow> E (be_block 16 v);
     bs \<leftarrow> ctr_stream E (v + 1) n;
     Some (b @ bs) }"

text \<open>Counter mode: the message exclusive-or as much key stream as it needs.\<close>

definition ctr_crypt :: "(byte list \<Rightarrow> byte list option) \<Rightarrow> byte list \<Rightarrow> byte list \<Rightarrow> byte list option" where
  "ctr_crypt E iv xs =
     map_option (\<lambda>ks. xor_bytes ks xs) (ctr_stream E (be_val iv) (Suc ((length xs - 1) div 16)))"

lemma be_val_Nil [simp]: "be_val [] = 0"
  by (simp add: be_val_def)

lemma be_val_snoc [simp]: "be_val (bs @ [b]) = be_val bs * 256 + unat b"
  by (simp add: be_val_def)

lemma be_val_append: "be_val (xs @ ys) = be_val xs * 256 ^ length ys + be_val ys"
proof (induction ys rule: rev_induct)
  case Nil
  then show ?case by simp
next
  case (snoc y ys)
  have "be_val (xs @ ys @ [y]) = be_val (xs @ ys) * 256 + unat y"
    by (metis append_assoc be_val_snoc)
  then show ?case using snoc by (simp add: algebra_simps)
qed

lemma be_val_less: "be_val bs < 256 ^ length bs"
proof (induction bs rule: rev_induct)
  case Nil
  then show ?case by simp
next
  case (snoc b bs)
  then have "be_val bs + 1 \<le> 256 ^ length bs" by simp
  then have "(be_val bs + 1) * 256 \<le> 256 ^ length bs * 256" by (rule mult_le_mono1)
  then show ?case using unat_byte_less [of b] by (simp add: algebra_simps)
qed

lemma length_be_block [simp]: "length (be_block n v) = n"
  by (induction n arbitrary: v) auto

lemma be_block_be_val: "be_block (length bs) (be_val bs) = bs"
proof (induction bs rule: rev_induct)
  case Nil
  then show ?case by simp
next
  case (snoc b bs)
  have "(be_val bs * 256 + unat b) div 256 = be_val bs" "(be_val bs * 256 + unat b) mod 256 = unat b"
    using unat_byte_less [of b] by auto
  then show ?case using snoc by simp
qed

lemma be_val_be_block: "be_val (be_block n v) = v mod 256 ^ n"
proof (induction n arbitrary: v)
  case 0
  then show ?case by simp
next
  case (Suc n)
  have "unat (word_of_nat (v mod 256) :: byte) = v mod 256"
    by (simp add: unsigned_of_nat take_bit_nat_eq_self)
  then have "be_val (be_block (Suc n) v) = (v div 256 mod 256 ^ n) * 256 + v mod 256"
    using Suc by simp
  also have "\<dots> = v mod (256 * 256 ^ n)" by (simp add: mod_mult2_eq mult.commute)
  finally show ?case by simp
qed

lemma be_block_mod: "be_block n (v mod 256 ^ n) = be_block n v"
  using be_block_be_val [of "be_block n v"] by (simp add: be_val_be_block)

section \<open>The contract of a block cipher\<close>

locale block_cipher =
  fixes E :: "byte list \<Rightarrow> byte list option"
    and D :: "byte list \<Rightarrow> byte list option"
  assumes invertible: "length b = 16 \<Longrightarrow> \<exists>c. E b = Some c \<and> length c = 16 \<and> D c = Some b"
begin

lemma cbc_round_trip:
  "length iv = 16 \<Longrightarrow> 16 * n \<le> length xs \<Longrightarrow>
    \<exists>cs. cbc_enc E iv n xs = Some cs \<and> length cs = 16 * n \<and> cbc_dec D iv n cs = Some (take (16 * n) xs)"
proof (induction n arbitrary: iv xs)
  case 0
  then show ?case by simp
next
  case (Suc n)
  let ?b = "xor_bytes iv (take 16 xs)"
  have "16 + 16 * n \<le> length xs" using Suc.prems(2) by simp
  then have len: "length (take 16 xs) = 16" and rest: "16 * n \<le> length (drop 16 xs)" by auto
  then obtain c where c: "E ?b = Some c" "length c = 16" "D c = Some ?b"
    using invertible [of ?b] Suc.prems(1) by auto
  then obtain cs where cs: "cbc_enc E c n (drop 16 xs) = Some cs" "length cs = 16 * n"
      "cbc_dec D c n cs = Some (take (16 * n) (drop 16 xs))"
    using Suc.IH [OF c(2) rest] by auto
  have "xor_bytes iv ?b = take 16 xs" using len Suc.prems(1) by (simp add: xor_bytes_cancel)
  moreover have "take 16 xs @ take (16 * n) (drop 16 xs) = take (16 * Suc n) xs"
    by (simp add: take_add)
  ultimately show ?case using c cs by simp
qed

lemma cbc_last_total:
  "length iv = 16 \<Longrightarrow> 16 * n \<le> length xs \<Longrightarrow> \<exists>c. cbc_last E iv n xs = Some c \<and> length c = 16"
proof (induction n arbitrary: iv xs)
  case 0
  then show ?case by simp
next
  case (Suc n)
  then obtain c where "E (xor_bytes iv (take 16 xs)) = Some c" "length c = 16"
    using invertible [of "xor_bytes iv (take 16 xs)"] by auto
  then show ?case using Suc.IH [of c "drop 16 xs"] Suc.prems by auto
qed

lemma ctr_stream_total: "\<exists>ks. ctr_stream E v n = Some ks \<and> length ks = 16 * n"
proof (induction n arbitrary: v)
  case 0
  then show ?case by simp
next
  case (Suc n)
  obtain b where "E (be_block 16 v) = Some b" "length b = 16"
    using invertible [of "be_block 16 v"] by auto
  then show ?case using Suc.IH [of "v + 1"] by auto
qed

lemma ctr_involution:
  "\<exists>ys. ctr_crypt E iv xs = Some ys \<and> length ys = length xs \<and> ctr_crypt E iv ys = Some xs"
proof -
  let ?n = "Suc ((length xs - 1) div 16)"
  obtain ks where ks: "ctr_stream E (be_val iv) ?n = Some ks" "length ks = 16 * ?n"
    using ctr_stream_total by blast
  have "length xs \<le> length ks" using ks(2) by simp
  then show ?thesis using ks(1) by (simp add: ctr_crypt_def xor_bytes_cancel del: ctr_stream.simps)
qed

end

text \<open>A MAC is the last block of the chain.\<close>

lemma cbc_last_append:
  "cbc_last E iv (m + n) xs = cbc_last E iv m xs \<bind> (\<lambda>c. cbc_last E c n (drop (16 * m) xs))"
proof (induction m arbitrary: iv xs)
  case 0
  then show ?case by simp
next
  case (Suc m)
  then show ?case by (cases "E (xor_bytes iv (take 16 xs))") (auto simp: add.commute)
qed

lemma ctr_stream_mod: "ctr_stream E (v mod 256 ^ 16) n = ctr_stream E v n"
proof (induction n arbitrary: v)
  case 0
  then show ?case by simp
next
  case (Suc n)
  have "ctr_stream E (v mod 256 ^ 16 + 1) n = ctr_stream E ((v + 1) mod 256 ^ 16) n"
    using Suc.IH [of "v mod 256 ^ 16 + 1"] by (simp add: mod_Suc_eq)
  moreover have "be_block 16 (v mod 256 ^ 16) = be_block 16 v" by (rule be_block_mod)
  ultimately show ?case using Suc.IH [of "v + 1"] by simp
qed

end
