(* ===== verification/AesModes.thy ===== *)
theory AesModes
  imports Aes BlockModes
begin

text \<open>
  The CBC, CBC-MAC and CTR functions of \<open>crypto-algorithms_learn/aes.c\<close>, as loops over offsets into
  the caller's arrays, and their agreement with the specifications of the modes. \<open>None\<close> is an
  access outside an array, a read of an uninitialised local, or a signed overflow.
\<close>

section \<open>CBC\<close>

definition xor_buf :: "byte list \<Rightarrow> byte list \<Rightarrow> nat \<Rightarrow> byte list option" where
  "xor_buf i out n = do {
     a \<leftarrow> bget i 0 n;
     b \<leftarrow> bget out 0 n;
     bput out 0 (xor_bytes a b) }"

text \<open>\<open>blocks = in_len / AES_BLOCK_SIZE\<close>, stored in an \<open>int\<close>; \<open>idx * AES_BLOCK_SIZE\<close> is an \<open>int\<close> product.\<close>

definition block_count :: "nat \<Rightarrow> int" where
  "block_count in_len = c_int (int (in_len div 16))"

definition block_off :: "nat \<Rightarrow> nat option" where
  "block_off idx = (if int idx * 16 \<le> INT_MAX then Some (idx * 16) else None)"

function cbc_encrypt_loop ::
  "byte list \<Rightarrow> word32 list \<Rightarrow> int \<Rightarrow> int \<Rightarrow> nat \<Rightarrow> byte list \<Rightarrow> byte list \<Rightarrow> byte list option"
where
  "cbc_encrypt_loop i key keysize blocks idx iv_buf out =
     (if int idx < blocks then do {
        off \<leftarrow> block_off idx;
        buf_in \<leftarrow> bget i off 16;
        buf_in \<leftarrow> xor_buf iv_buf buf_in 16;
        buf_out \<leftarrow> aes_encrypt buf_in key keysize;
        out \<leftarrow> bput out off buf_out;
        cbc_encrypt_loop i key keysize blocks (idx + 1) buf_out out }
      else Some out)"
  by pat_completeness auto
termination
  by (relation "measure (\<lambda>(i, key, keysize, blocks, idx, iv_buf, out). nat (blocks - int idx))") auto

definition aes_encrypt_cbc ::
  "byte list \<Rightarrow> nat \<Rightarrow> byte list \<Rightarrow> word32 list \<Rightarrow> int \<Rightarrow> byte list \<Rightarrow> (bool \<times> byte list) option"
where
  "aes_encrypt_cbc i in_len out key keysize iv =
     (if in_len mod 16 \<noteq> 0 then Some (False, out)
      else do {
        iv_buf \<leftarrow> bget iv 0 16;
        out \<leftarrow> cbc_encrypt_loop i key keysize (block_count in_len) 0 iv_buf out;
        Some (True, out) })"

text \<open>\<open>buf_out\<close> is \<open>None\<close> until the first block has been encrypted.\<close>

function cbc_mac_loop ::
  "byte list \<Rightarrow> word32 list \<Rightarrow> int \<Rightarrow> int \<Rightarrow> nat \<Rightarrow> byte list \<Rightarrow> byte list option \<Rightarrow> byte list option"
where
  "cbc_mac_loop i key keysize blocks idx iv_buf buf_out =
     (if int idx < blocks then do {
        off \<leftarrow> block_off idx;
        buf_in \<leftarrow> bget i off 16;
        buf_in \<leftarrow> xor_buf iv_buf buf_in 16;
        c \<leftarrow> aes_encrypt buf_in key keysize;
        cbc_mac_loop i key keysize blocks (idx + 1) c (Some c) }
      else buf_out)"
  by pat_completeness auto
termination
  by (relation "measure (\<lambda>(i, key, keysize, blocks, idx, iv_buf, buf_out). nat (blocks - int idx))") auto

definition aes_encrypt_cbc_mac ::
  "byte list \<Rightarrow> nat \<Rightarrow> byte list \<Rightarrow> word32 list \<Rightarrow> int \<Rightarrow> byte list \<Rightarrow> (bool \<times> byte list) option"
where
  "aes_encrypt_cbc_mac i in_len out key keysize iv =
     (if in_len mod 16 \<noteq> 0 then Some (False, out)
      else do {
        iv_buf \<leftarrow> bget iv 0 16;
        buf_out \<leftarrow> cbc_mac_loop i key keysize (block_count in_len) 0 iv_buf None;
        out \<leftarrow> bput out 0 buf_out;
        Some (True, out) })"

function cbc_decrypt_loop ::
  "byte list \<Rightarrow> word32 list \<Rightarrow> int \<Rightarrow> int \<Rightarrow> nat \<Rightarrow> byte list \<Rightarrow> byte list \<Rightarrow> byte list option"
where
  "cbc_decrypt_loop i key keysize blocks idx iv_buf out =
     (if int idx < blocks then do {
        off \<leftarrow> block_off idx;
        buf_in \<leftarrow> bget i off 16;
        buf_out \<leftarrow> aes_decrypt buf_in key keysize;
        buf_out \<leftarrow> xor_buf iv_buf buf_out 16;
        out \<leftarrow> bput out off buf_out;
        cbc_decrypt_loop i key keysize blocks (idx + 1) buf_in out }
      else Some out)"
  by pat_completeness auto
termination
  by (relation "measure (\<lambda>(i, key, keysize, blocks, idx, iv_buf, out). nat (blocks - int idx))") auto

definition aes_decrypt_cbc ::
  "byte list \<Rightarrow> nat \<Rightarrow> byte list \<Rightarrow> word32 list \<Rightarrow> int \<Rightarrow> byte list \<Rightarrow> (bool \<times> byte list) option"
where
  "aes_decrypt_cbc i in_len out key keysize iv =
     (if in_len mod 16 \<noteq> 0 then Some (False, out)
      else do {
        iv_buf \<leftarrow> bget iv 0 16;
        out \<leftarrow> cbc_decrypt_loop i key keysize (block_count in_len) 0 iv_buf out;
        Some (True, out) })"

section \<open>CTR\<close>

text \<open>The loop of \<open>increment_iv\<close>, with \<open>lo = AES_BLOCK_SIZE - counter_size\<close>.\<close>

function increment_loop :: "byte list \<Rightarrow> int \<Rightarrow> int \<Rightarrow> byte list option" where
  "increment_loop iv lo idx =
     (if idx \<ge> lo then
        if idx < 0 then None
        else do {
          b \<leftarrow> aget iv (nat idx);
          iv \<leftarrow> aset iv (nat idx) (b + 1);
          if b + 1 \<noteq> 0 \<or> idx = lo then Some iv else increment_loop iv lo (idx - 1) }
      else Some iv)"
  by pat_completeness auto
termination
  by (relation "measure (\<lambda>(iv, lo, idx). nat (idx - lo + 1))") auto

definition increment_iv :: "byte list \<Rightarrow> int \<Rightarrow> byte list option" where
  "increment_iv iv counter_size = increment_loop iv (16 - counter_size) 15"

function ctr_loop ::
  "nat \<Rightarrow> word32 list \<Rightarrow> int \<Rightarrow> nat \<Rightarrow> byte list \<Rightarrow> byte list \<Rightarrow> (nat \<times> byte list \<times> byte list) option"
where
  "ctr_loop lim key keysize idx iv_buf out =
     (if idx < lim then do {
        out_buf \<leftarrow> aes_encrypt iv_buf key keysize;
        seg \<leftarrow> xor_buf out_buf (drop idx out) 16;
        iv_buf \<leftarrow> increment_iv iv_buf 16;
        ctr_loop lim key keysize (idx + 16) iv_buf (take idx out @ seg) }
      else Some (idx, iv_buf, out))"
  by pat_completeness auto
termination
  by (relation "measure (\<lambda>(lim, key, keysize, idx, iv_buf, out). lim - idx)") auto

text \<open>The input \<open>None\<close> is the call with \<open>in == out\<close>, which encrypts in place.\<close>

definition aes_encrypt_ctr ::
  "byte list option \<Rightarrow> nat \<Rightarrow> byte list \<Rightarrow> word32 list \<Rightarrow> int \<Rightarrow> byte list \<Rightarrow> byte list option"
where
  "aes_encrypt_ctr i in_len out key keysize iv = do {
     out \<leftarrow> (case i of
              None \<Rightarrow> Some out
            | Some xs \<Rightarrow> do { x \<leftarrow> bget xs 0 in_len; bput out 0 x });
     iv_buf \<leftarrow> bget iv 0 16;
     (idx, iv_buf, out) \<leftarrow>
       (if in_len > 16 then ctr_loop (in_len - 16) key keysize 0 iv_buf out
        else Some (0, iv_buf, out));
     out_buf \<leftarrow> aes_encrypt iv_buf key keysize;
     seg \<leftarrow> xor_buf out_buf (drop idx out) (in_len - idx);
     Some (take idx out @ seg) }"

definition aes_decrypt_ctr ::
  "byte list option \<Rightarrow> nat \<Rightarrow> byte list \<Rightarrow> word32 list \<Rightarrow> int \<Rightarrow> byte list \<Rightarrow> byte list option"
where
  "aes_decrypt_ctr i in_len out key keysize iv = aes_encrypt_ctr i in_len out key keysize iv"

declare cbc_encrypt_loop.simps [simp del] cbc_mac_loop.simps [simp del]
  cbc_decrypt_loop.simps [simp del] increment_loop.simps [simp del] ctr_loop.simps [simp del]

section \<open>AES is a block cipher\<close>

definition key_ok :: "word32 list \<Rightarrow> int \<Rightarrow> bool" where
  "key_ok key keysize \<longleftrightarrow> valid_keysize keysize \<and> enc_words keysize \<le> length key"

text \<open>An expanded key of a documented size, with the schedule words the cipher reads.\<close>

typedef key_schedule = "{(key, keysize). key_ok key keysize}"
  by (rule exI [of _ "(replicate 44 0, 128)"]) (simp add: key_ok_def valid_keysize_def enc_words_def)

definition enc_with :: "key_schedule \<Rightarrow> byte list \<Rightarrow> byte list option" where
  "enc_with K b = aes_encrypt b (fst (Rep_key_schedule K)) (snd (Rep_key_schedule K))"

definition dec_with :: "key_schedule \<Rightarrow> byte list \<Rightarrow> byte list option" where
  "dec_with K c = aes_decrypt c (fst (Rep_key_schedule K)) (snd (Rep_key_schedule K))"

interpretation aes: block_cipher "enc_with K" "dec_with K" for K
proof
  fix b :: "byte list"
  assume "length b = 16"
  then show "\<exists>c. enc_with K b = Some c \<and> length c = 16 \<and> dec_with K c = Some b"
    using Rep_key_schedule [of K]
    by (auto simp: enc_with_def dec_with_def key_ok_def intro!: aes_encrypt_decrypt)
qed

lemma with_Abs:
  assumes "key_ok key keysize"
  shows "enc_with (Abs_key_schedule (key, keysize)) = (\<lambda>b. aes_encrypt b key keysize)"
    "dec_with (Abs_key_schedule (key, keysize)) = (\<lambda>c. aes_decrypt c key keysize)"
  using assms by (simp_all add: enc_with_def dec_with_def Abs_key_schedule_inverse fun_eq_iff)

section \<open>CBC meets its specification\<close>

lemma xor_buf_in: "n \<le> length i \<Longrightarrow> length out = n \<Longrightarrow> xor_buf i out n = Some (xor_bytes (take n i) out)"
  by (simp add: xor_buf_def bget_def bput_def buf_write_0)

lemma block_count_small: "int in_len \<le> INT_MAX \<Longrightarrow> block_count in_len = int (in_len div 16)"
  unfolding block_count_def by (rule c_int_id) (auto simp: INT_MAX_def)

lemma aes_encrypt_length: "aes_encrypt b key keysize = Some c \<Longrightarrow> length c = 16"
  by (auto simp: aes_encrypt_def split: if_splits)

lemma aes_decrypt_length: "aes_decrypt b key keysize = Some c \<Longrightarrow> length c = 16"
  by (auto simp: aes_decrypt_def split: if_splits)

lemma buf_write_twice:
  "off + length xs + length ys \<le> length out \<Longrightarrow>
    buf_write (buf_write out off xs) (off + length xs) ys = buf_write out off (xs @ ys)"
  by (simp add: buf_write_def ac_simps)

lemma cbc_enc_length:
  "(\<And>b c. E b = Some c \<Longrightarrow> length c = 16) \<Longrightarrow> cbc_enc E iv n xs = Some cs \<Longrightarrow> length cs = 16 * n"
  by (induction n arbitrary: iv xs cs) (auto simp: bind_eq_Some_conv)

lemma cbc_dec_length:
  "(\<And>c b. D c = Some b \<Longrightarrow> length b = 16) \<Longrightarrow> length iv = 16 \<Longrightarrow> 16 * n \<le> length xs \<Longrightarrow>
    cbc_dec D iv n xs = Some bs \<Longrightarrow> length bs = 16 * n"
proof (induction n arbitrary: iv xs bs)
  case 0
  then show ?case by simp
next
  case (Suc n)
  obtain p bs' where p: "D (take 16 xs) = Some p" "cbc_dec D (take 16 xs) n (drop 16 xs) = Some bs'"
      "bs = xor_bytes iv p @ bs'"
    using Suc.prems(4) by (auto simp: bind_eq_Some_conv)
  have "16 + 16 * n \<le> length xs" using Suc.prems(3) by simp
  then have "length (take 16 xs) = 16" "16 * n \<le> length (drop 16 xs)" by auto
  then show ?case using Suc.IH [OF Suc.prems(1) _ _ p(2)] Suc.prems(1) [OF p(1)] Suc.prems(2) p(3) by simp
qed

lemma cbc_dec_take: "16 * n \<le> length cs \<Longrightarrow> cbc_dec D iv n (cs @ xs) = cbc_dec D iv n cs"
  by (induction n arbitrary: iv cs) auto

text \<open>One round of either loop stores a block and leaves the rest to the remaining rounds.\<close>

lemma store_block:
  assumes "length c = 16" "length cs = 16 * n" "16 * (idx + Suc n) \<le> length out"
  shows "buf_write (buf_write out (16 * idx) c) (16 * (idx + 1)) cs = buf_write out (16 * idx) (c @ cs)"
proof -
  have "16 * idx + length c = 16 * (idx + 1)" using assms(1) by simp
  moreover have "16 * idx + length c + length cs \<le> length out" using assms by simp
  ultimately show ?thesis using buf_write_twice [of "16 * idx" c cs out] by metis
qed

lemma cbc_encrypt_loop_eq:
  "length iv = 16 \<Longrightarrow> 16 * (idx + n) \<le> length i \<Longrightarrow> 16 * (idx + n) \<le> length out \<Longrightarrow>
    int (16 * (idx + n)) \<le> INT_MAX \<Longrightarrow>
    cbc_enc (\<lambda>b. aes_encrypt b key keysize) iv n (drop (16 * idx) i) = Some cs \<Longrightarrow>
    cbc_encrypt_loop i key keysize (int (idx + n)) idx iv out = Some (buf_write out (16 * idx) cs)"
proof (induction n arbitrary: idx iv out cs)
  case 0
  then show ?case by (subst cbc_encrypt_loop.simps) (simp add: buf_write_def)
next
  case (Suc n)
  let ?b = "take 16 (drop (16 * idx) i)"
  obtain c cs' where c: "aes_encrypt (xor_bytes iv ?b) key keysize = Some c"
      "cbc_enc (\<lambda>b. aes_encrypt b key keysize) c n (drop (16 * (idx + 1)) i) = Some cs'" "cs = c @ cs'"
    using Suc.prems(5) by (auto simp: bind_eq_Some_conv add.commute)
  have len: "length c = 16" "length cs' = 16 * n"
    using aes_encrypt_length c(1) cbc_enc_length [OF aes_encrypt_length c(2)] by auto
  have off: "block_off idx = Some (16 * idx)" using Suc.prems(4) by (simp add: block_off_def)
  have x: "xor_buf iv ?b 16 = Some (xor_bytes iv ?b)" using Suc.prems(1,2) by (simp add: xor_buf_in)
  have "cbc_encrypt_loop i key keysize (int (idx + Suc n)) idx iv out =
      cbc_encrypt_loop i key keysize (int (idx + 1 + n)) (idx + 1) c (buf_write out (16 * idx) c)"
    using Suc.prems(2,3) len
    by (subst cbc_encrypt_loop.simps) (simp add: off x c(1) bget_in bput_in)
  also have "\<dots> = Some (buf_write (buf_write out (16 * idx) c) (16 * (idx + 1)) cs')"
    using Suc.prems len c(2) by (intro Suc.IH) simp_all
  finally show ?case using store_block [OF len Suc.prems(3)] c(3) by simp
qed

lemma cbc_decrypt_loop_eq:
  "length iv = 16 \<Longrightarrow> 16 * (idx + n) \<le> length i \<Longrightarrow> 16 * (idx + n) \<le> length out \<Longrightarrow>
    int (16 * (idx + n)) \<le> INT_MAX \<Longrightarrow>
    cbc_dec (\<lambda>b. aes_decrypt b key keysize) iv n (drop (16 * idx) i) = Some bs \<Longrightarrow>
    cbc_decrypt_loop i key keysize (int (idx + n)) idx iv out = Some (buf_write out (16 * idx) bs)"
proof (induction n arbitrary: idx iv out bs)
  case 0
  then show ?case by (subst cbc_decrypt_loop.simps) (simp add: buf_write_def)
next
  case (Suc n)
  let ?c = "take 16 (drop (16 * idx) i)"
  obtain p bs' where p: "aes_decrypt ?c key keysize = Some p"
      "cbc_dec (\<lambda>b. aes_decrypt b key keysize) ?c n (drop (16 * (idx + 1)) i) = Some bs'"
      "bs = xor_bytes iv p @ bs'"
    using Suc.prems(5) by (auto simp: bind_eq_Some_conv add.commute)
  have lc: "length ?c = 16" "16 * n \<le> length (drop (16 * (idx + 1)) i)" using Suc.prems(2) by auto
  have lp: "length p = 16" using aes_decrypt_length p(1) .
  have len: "length (xor_bytes iv p) = 16" "length bs' = 16 * n"
    using lp Suc.prems(1) cbc_dec_length [OF aes_decrypt_length lc p(2)] by auto
  have off: "block_off idx = Some (16 * idx)" using Suc.prems(4) by (simp add: block_off_def)
  have x: "xor_buf iv p 16 = Some (xor_bytes iv p)" using Suc.prems(1) lp by (simp add: xor_buf_in)
  have "cbc_decrypt_loop i key keysize (int (idx + Suc n)) idx iv out =
      cbc_decrypt_loop i key keysize (int (idx + 1 + n)) (idx + 1) ?c
        (buf_write out (16 * idx) (xor_bytes iv p))"
    using Suc.prems(2,3) len
    by (subst cbc_decrypt_loop.simps) (simp add: off x p(1) bget_in bput_in)
  also have "\<dots> = Some (buf_write (buf_write out (16 * idx) (xor_bytes iv p)) (16 * (idx + 1)) bs')"
    using Suc.prems len lc p(2) by (intro Suc.IH) simp_all
  finally show ?case using store_block [OF len Suc.prems(3)] p(3) by simp
qed

lemma cbc_mac_loop_eq:
  "length iv = 16 \<Longrightarrow> 16 * (idx + n) \<le> length i \<Longrightarrow> int (16 * (idx + n)) \<le> INT_MAX \<Longrightarrow>
    cbc_last (\<lambda>b. aes_encrypt b key keysize) iv n (drop (16 * idx) i) = Some c \<Longrightarrow>
    n \<noteq> 0 \<or> buf_out = Some iv \<Longrightarrow>
    cbc_mac_loop i key keysize (int (idx + n)) idx iv buf_out = Some c"
proof (induction n arbitrary: idx iv buf_out)
  case 0
  then show ?case by (subst cbc_mac_loop.simps) simp
next
  case (Suc n)
  let ?b = "take 16 (drop (16 * idx) i)"
  obtain d where d: "aes_encrypt (xor_bytes iv ?b) key keysize = Some d"
      "cbc_last (\<lambda>b. aes_encrypt b key keysize) d n (drop (16 * (idx + 1)) i) = Some c"
    using Suc.prems(4) by (auto simp: bind_eq_Some_conv add.commute)
  have ld: "length d = 16" using aes_encrypt_length d(1) .
  have off: "block_off idx = Some (16 * idx)" using Suc.prems(3) by (simp add: block_off_def)
  have x: "xor_buf iv ?b 16 = Some (xor_bytes iv ?b)" using Suc.prems(1,2) by (simp add: xor_buf_in)
  have "cbc_mac_loop i key keysize (int (idx + Suc n)) idx iv buf_out =
      cbc_mac_loop i key keysize (int (idx + 1 + n)) (idx + 1) d (Some d)"
    using Suc.prems(2) by (subst cbc_mac_loop.simps) (simp add: off x d(1) bget_in)
  also have "\<dots> = Some c" using Suc.prems ld d(2) by (intro Suc.IH) simp_all
  finally show ?case .
qed

lemma cbc_round_trip_ok:
  assumes "key_ok key keysize" "length iv = 16" "in_len mod 16 = 0" "in_len \<le> length i"
    "in_len \<le> length out" "in_len \<le> length out2" "int in_len \<le> INT_MAX"
  shows "\<exists>cs. cbc_enc (\<lambda>b. aes_encrypt b key keysize) iv (in_len div 16) i = Some cs \<and>
    length cs = in_len \<and>
    aes_encrypt_cbc i in_len out key keysize iv = Some (True, buf_write out 0 cs) \<and>
    aes_decrypt_cbc (buf_write out 0 cs) in_len out2 key keysize iv =
      Some (True, buf_write out2 0 (take in_len i))"
proof -
  define n where "n = in_len div 16"
  have n: "in_len = 16 * n" using assms(3) by (auto simp: n_def)
  let ?E = "\<lambda>b. aes_encrypt b key keysize" and ?D = "\<lambda>b. aes_decrypt b key keysize"
  obtain cs where cs: "cbc_enc ?E iv n i = Some cs" "length cs = 16 * n"
      "cbc_dec ?D iv n cs = Some (take (16 * n) i)"
    using aes.cbc_round_trip [of iv n i "Abs_key_schedule (key, keysize)"] assms(1,2,4) n
    by (auto simp: with_Abs)
  have cnt: "block_count (16 * n) = int n" using block_count_small [OF assms(7)] n by simp
  have "cbc_encrypt_loop i key keysize (int (0 + n)) 0 iv out = Some (buf_write out (16 * 0) cs)"
    using assms(2,4,5,7) n cs(1) by (intro cbc_encrypt_loop_eq) auto
  then have enc: "aes_encrypt_cbc i in_len out key keysize iv = Some (True, buf_write out 0 cs)"
    using assms(2) n by (simp add: aes_encrypt_cbc_def bget_def cnt)
  let ?c = "buf_write out 0 cs"
  have eq: "cbc_dec ?D iv n ?c = cbc_dec ?D iv n cs"
    using cbc_dec_take [of n cs ?D iv "drop in_len out"] cs(2) n by (simp add: buf_write_def)
  have "cbc_decrypt_loop ?c key keysize (int (0 + n)) 0 iv out2 =
      Some (buf_write out2 (16 * 0) (take (16 * n) i))"
    using assms(2,4,5,6,7) n cs(2,3) eq by (intro cbc_decrypt_loop_eq) auto
  then have "aes_decrypt_cbc ?c in_len out2 key keysize iv = Some (True, buf_write out2 0 (take in_len i))"
    using assms(2) n by (simp add: aes_decrypt_cbc_def bget_def cnt)
  then show ?thesis using cs(1,2) enc n by (auto simp: n_def [symmetric])
qed

lemma cbc_mac_ok:
  assumes "key_ok key keysize" "length iv = 16" "in_len mod 16 = 0" "0 < in_len" "in_len \<le> length i"
    "16 \<le> length out" "int in_len \<le> INT_MAX"
  shows "\<exists>c. cbc_last (\<lambda>b. aes_encrypt b key keysize) iv (in_len div 16) i = Some c \<and> length c = 16 \<and>
    aes_encrypt_cbc_mac i in_len out key keysize iv = Some (True, buf_write out 0 c)"
proof -
  define n where "n = in_len div 16"
  have n: "in_len = 16 * n" "n \<noteq> 0" using assms(3,4) by (auto simp: n_def)
  obtain c where c: "cbc_last (\<lambda>b. aes_encrypt b key keysize) iv n i = Some c" "length c = 16"
    using aes.cbc_last_total [of iv n i "Abs_key_schedule (key, keysize)"] assms(1,2,5) n
    by (auto simp: with_Abs)
  have "cbc_mac_loop i key keysize (int (0 + n)) 0 iv None = Some c"
    using assms(2,5,7) n c(1) by (intro cbc_mac_loop_eq) auto
  then show ?thesis
    using assms(2,6) n c block_count_small [OF assms(7)]
    by (simp add: aes_encrypt_cbc_mac_def bget_def bput_in flip: n_def)
qed

section \<open>The counter\<close>

lemma byte_max: "(b :: byte) + 1 = 0 \<longleftrightarrow> unat b = 255"
proof -
  have "unat (- 1 :: byte) = 255" by code_simp
  then show ?thesis by (metis eq_neg_iff_add_eq_0 unsigned_word_eqI)
qed

lemma increment_loop_eq:
  "mid \<noteq> [] \<Longrightarrow>
    increment_loop (pre @ mid @ post) (int (length pre)) (int (length pre + length mid) - 1) =
      Some (pre @ be_block (length mid) (be_val mid + 1) @ post)"
proof (induction mid arbitrary: post rule: rev_induct)
  case Nil
  then show ?case by simp
next
  case (snoc b mid)
  let ?k = "length pre + length mid"
  have upd: "(pre @ mid @ b # post)[?k := c] = pre @ mid @ c # post" for c
    by (simp add: list_update_append)
  have get: "(pre @ mid @ b # post) ! ?k = b" by (simp add: nth_append)
  have step: "increment_loop (pre @ (mid @ [b]) @ post) (int (length pre)) (int ?k) =
      (if b + 1 \<noteq> 0 \<or> mid = [] then Some (pre @ mid @ (b + 1) # post)
       else increment_loop (pre @ mid @ (b + 1) # post) (int (length pre)) (int ?k - 1))"
    using get upd by (subst increment_loop.simps) (simp add: array_simps nat_int_add)
  show ?case
  proof (cases "b + 1 = 0")
    case True
    then have b: "unat b = 255" by (simp add: byte_max)
    then have v: "(be_val (mid @ [b]) + 1) div 256 = be_val mid + 1" "(be_val (mid @ [b]) + 1) mod 256 = 0"
      by simp_all
    show ?thesis
    proof (cases "mid = []")
      case True
      then show ?thesis using step v \<open>b + 1 = 0\<close> by simp
    next
      case False
      then show ?thesis using step snoc.IH [OF False, of "0 # post"] v \<open>b + 1 = 0\<close> by simp
    qed
  next
    case False
    then have "unat b \<noteq> 255" by (simp add: byte_max)
    then have b: "unat b + 1 < 256" using unat_byte_less [of b] by simp
    then have "(be_val (mid @ [b]) + 1) div 256 = be_val mid" "(be_val (mid @ [b]) + 1) mod 256 = unat b + 1"
      by (simp_all add: div_add1_eq mod_add_eq)
    moreover have "word_of_nat (unat b + 1) = b + 1" by simp
    ultimately show ?thesis using step False by (simp add: be_block_be_val)
  qed
qed

lemma increment_iv_eq:
  assumes "length iv = 16" "0 < n" "n \<le> 16"
  shows "increment_iv iv (int n) = Some (take (16 - n) iv @ be_block n (be_val (drop (16 - n) iv) + 1))"
proof -
  have "drop (16 - n) iv \<noteq> []" using assms by simp
  then show ?thesis
    using increment_loop_eq [of "drop (16 - n) iv" "take (16 - n) iv" "[]"] assms
    by (simp add: increment_iv_def of_nat_diff)
qed

lemma increment_iv_none: "n \<le> 0 \<Longrightarrow> increment_iv iv n = Some iv"
  unfolding increment_iv_def by (subst increment_loop.simps) simp

lemma increment_be_block: "increment_iv (be_block 16 v) 16 = Some (be_block 16 (v + 1))"
proof -
  have "be_block 16 (v mod 256 ^ 16 + 1) = be_block 16 (v + 1)"
    by (metis be_block_mod mod_add_left_eq)
  then show ?thesis
    using increment_iv_eq [of "be_block 16 v" 16] by (simp only: length_be_block) (simp add: be_val_be_block)
qed

section \<open>CTR meets its specification\<close>

lemma ctr_stream_snoc:
  "ctr_stream E v (Suc n) = do { bs \<leftarrow> ctr_stream E v n; b \<leftarrow> E (be_block 16 (v + n)); Some (bs @ b) }"
proof (induction n arbitrary: v)
  case 0
  then show ?case by (cases "E (be_block 16 v)") auto
next
  case (Suc n)
  show ?case
    by (cases "E (be_block 16 v)"; cases "ctr_stream E (v + 1) n"; cases "E (be_block 16 (v + 1 + n))")
      (use Suc.IH [of "v + 1"] in \<open>auto\<close>)
qed

lemma ctr_loop_eq:
  "ctr_stream (\<lambda>b. aes_encrypt b key keysize) v m = Some ks \<Longrightarrow> length ks = 16 * m \<Longrightarrow>
    idx + 16 * m \<le> length out \<Longrightarrow> lim \<le> idx + 16 * m \<Longrightarrow> (m \<noteq> 0 \<Longrightarrow> idx + 16 * (m - 1) < lim) \<Longrightarrow>
    ctr_loop lim key keysize idx (be_block 16 v) out =
      Some (idx + 16 * m, be_block 16 (v + m),
        take idx out @ xor_bytes ks (take (16 * m) (drop idx out)) @ drop (idx + 16 * m) out)"
proof (induction m arbitrary: idx v out ks)
  case 0
  then show ?case by (subst ctr_loop.simps) (simp add: xor_bytes_def)
next
  case (Suc m)
  let ?E = "\<lambda>b. aes_encrypt b key keysize"
  obtain b ks' where b: "?E (be_block 16 v) = Some b" "ctr_stream ?E (v + 1) m = Some ks'" "ks = b @ ks'"
    using Suc.prems(1) by (auto simp: bind_eq_Some_conv)
  have len: "length b = 16" "length ks' = 16 * m" using aes_encrypt_length b Suc.prems(2) by auto
  define x where "x = xor_bytes b (take 16 (drop idx out))"
  have lx: "length x = 16" using len Suc.prems(3) by (simp add: x_def)
  have seg: "xor_buf b (drop idx out) 16 = Some (x @ drop 16 (drop idx out))"
    using len Suc.prems(3) by (simp add: xor_buf_def bget_def bput_def buf_write_def x_def)
  let ?out1 = "take idx out @ x @ drop 16 (drop idx out)"
  have io: "idx + 16 \<le> length out" using Suc.prems(3) by simp
  have lim: "idx < lim" using Suc.prems(5) by simp
  have "ctr_loop lim key keysize idx (be_block 16 v) out =
      ctr_loop lim key keysize (idx + 16) (be_block 16 (v + 1)) ?out1"
    using lim by (subst ctr_loop.simps) (simp add: b(1) seg increment_be_block)
  also have "\<dots> = Some (idx + 16 + 16 * m, be_block 16 (v + 1 + m),
      take (idx + 16) ?out1 @ xor_bytes ks' (take (16 * m) (drop (idx + 16) ?out1)) @
        drop (idx + 16 + 16 * m) ?out1)"
  proof (rule Suc.IH [OF b(2) len(2)])
    show "idx + 16 + 16 * m \<le> length ?out1" using Suc.prems(3) lx by simp
    show "lim \<le> idx + 16 + 16 * m" using Suc.prems(4) by simp
    show "idx + 16 + 16 * (m - 1) < lim" if "m \<noteq> 0" using Suc.prems(5) that by (cases m) auto
  qed
  also have "take (idx + 16) ?out1 = take idx out @ x" using io lx by simp
  also have "drop (idx + 16) ?out1 = drop (idx + 16) out" using io lx by (simp add: add.commute)
  also have "drop (idx + 16 + 16 * m) ?out1 = drop (idx + 16 * Suc m) out"
    using io lx by (simp add: ac_simps)
  finally have run: "ctr_loop lim key keysize idx (be_block 16 v) out =
      Some (idx + 16 + 16 * m, be_block 16 (v + 1 + m),
        (take idx out @ x) @ xor_bytes ks' (take (16 * m) (drop (idx + 16) out)) @
          drop (idx + 16 * Suc m) out)" .
  have "take (16 * Suc m) (drop idx out) = take 16 (drop idx out) @ take (16 * m) (drop (idx + 16) out)"
    by (simp add: take_add add.commute)
  then have "xor_bytes ks (take (16 * Suc m) (drop idx out)) = x @ xor_bytes ks' (take (16 * m) (drop (idx + 16) out))"
    using len io by (simp add: b(3) x_def xor_bytes_append)
  then show ?case using run by (simp add: ac_simps)
qed

lemma ctr_in_place:
  assumes "key_ok key keysize" "length iv = 16" "in_len \<le> length out"
  shows "\<exists>ys. ctr_crypt (\<lambda>b. aes_encrypt b key keysize) iv (take in_len out) = Some ys \<and>
    length ys = in_len \<and> aes_encrypt_ctr None in_len out key keysize iv = Some (ys @ drop in_len out)"
proof -
  let ?E = "\<lambda>b. aes_encrypt b key keysize" and ?v = "be_val iv"
  define m where "m = (in_len - 1) div 16"
  have m: "16 * m \<le> in_len" "in_len - 16 * m \<le> 16" "m \<noteq> 0 \<Longrightarrow> 16 * (m - 1) < in_len - 16"
      "in_len \<le> 16 \<longleftrightarrow> m = 0"
    unfolding m_def by linarith+
  obtain ks b where ks: "ctr_stream ?E ?v m = Some ks" "length ks = 16 * m"
      "?E (be_block 16 (?v + m)) = Some b" "length b = 16"
    using aes.ctr_stream_total [of "Abs_key_schedule (key, keysize)" ?v m]
      aes.invertible [of "be_block 16 (?v + m)" "Abs_key_schedule (key, keysize)"] with_Abs [OF assms(1)]
    by auto
  let ?r = "in_len - 16 * m"
  let ?o1 = "xor_bytes ks (take (16 * m) out) @ drop (16 * m) out"
  have loop: "(if in_len > 16 then ctr_loop (in_len - 16) key keysize 0 iv out else Some (0, iv, out)) =
      Some (16 * m, be_block 16 (?v + m), ?o1)"
  proof (cases "m = 0")
    case True
    then show ?thesis using m(4) be_block_be_val [of iv] assms(2) by (auto simp: xor_bytes_def)
  next
    case False
    then show ?thesis
      using m assms(2,3) ctr_loop_eq [OF ks(1,2), of 0 out "in_len - 16"] be_block_be_val [of iv] by auto
  qed
  have len1: "length (xor_bytes ks (take (16 * m) out)) = 16 * m" using ks(2) m(1) assms(3) by simp
  have seg: "xor_buf b (drop (16 * m) out) ?r =
      Some (xor_bytes (take ?r b) (take ?r (drop (16 * m) out)) @ drop in_len out)"
    using ks(4) m assms(3) by (simp add: xor_buf_def bget_def bput_def buf_write_def)
  have run: "aes_encrypt_ctr None in_len out key keysize iv =
      Some (xor_bytes ks (take (16 * m) out) @
        xor_bytes (take ?r b) (take ?r (drop (16 * m) out)) @ drop in_len out)"
    using assms(2) loop ks(3) seg len1 by (simp add: aes_encrypt_ctr_def bget_def)
  have "take in_len out = take (16 * m) out @ take ?r (drop (16 * m) out)"
    using m(1) take_add [of "16 * m" ?r out] by simp
  then have "xor_bytes (ks @ b) (take in_len out) =
      xor_bytes ks (take (16 * m) out) @ xor_bytes (take ?r b) (take ?r (drop (16 * m) out))"
    using ks(2,4) m assms(3) by (simp add: xor_bytes_append xor_bytes_take)
  moreover have "ctr_stream ?E ?v (Suc m) = Some (ks @ b)" unfolding ctr_stream_snoc using ks(1,3) by simp
  then have stream: "ctr_stream ?E ?v (Suc ((length (take in_len out) - 1) div 16)) = Some (ks @ b)"
    using assms(3) by (simp add: m_def del: ctr_stream.simps)
  ultimately have "ctr_crypt ?E iv (take in_len out) =
      Some (xor_bytes ks (take (16 * m) out) @ xor_bytes (take ?r b) (take ?r (drop (16 * m) out)))"
    using stream assms(3) by (simp add: ctr_crypt_def del: ctr_stream.simps)
  then show ?thesis using run ks(4) len1 m assms(3) by auto
qed

lemma ctr_copied:
  "n \<le> length xs \<Longrightarrow> n \<le> length out \<Longrightarrow>
    aes_encrypt_ctr (Some xs) n out key keysize iv =
      aes_encrypt_ctr None n (buf_write out 0 (take n xs)) key keysize iv"
  by (simp add: aes_encrypt_ctr_def bget_def bput_def)

lemma ctr_ok:
  assumes "key_ok key keysize" "length iv = 16" "n \<le> length xs" "n \<le> length out"
  shows "\<exists>ys. ctr_crypt (\<lambda>b. aes_encrypt b key keysize) iv (take n xs) = Some ys \<and> length ys = n \<and>
    aes_encrypt_ctr (Some xs) n out key keysize iv = Some (buf_write out 0 ys)"
proof -
  have n: "n \<le> length (buf_write out 0 (take n xs))" using assms(3,4) by simp
  have "take n (buf_write out 0 (take n xs)) = take n xs" "drop n (buf_write out 0 (take n xs)) = drop n out"
    using assms(3,4) by (simp_all add: buf_write_def)
  then show ?thesis
    using ctr_in_place [OF assms(1,2) n] ctr_copied [OF assms(3,4)] by (auto simp: buf_write_def)
qed

section \<open>Properties\<close>

text \<open>
  C9 (CBC). On a whole number of blocks, below 2 GiB, \<open>aes_encrypt_cbc\<close> stores the cipher block
  chain of the specification at the start of \<open>out\<close>, leaves the rest of it alone, and
  \<open>aes_decrypt_cbc\<close> with the same key and IV restores the plaintext.
\<close>
theorem aes_cbc_round_trip:
  assumes "key_ok key keysize" "length iv = 16" "in_len mod 16 = 0" "in_len \<le> length i"
    "in_len \<le> length out" "in_len \<le> length out2" "int in_len \<le> INT_MAX"
  shows "\<exists>cs. cbc_enc (\<lambda>b. aes_encrypt b key keysize) iv (in_len div 16) i = Some cs \<and>
    length cs = in_len \<and>
    aes_encrypt_cbc i in_len out key keysize iv = Some (True, buf_write out 0 cs) \<and>
    aes_decrypt_cbc (buf_write out 0 cs) in_len out2 key keysize iv =
      Some (True, buf_write out2 0 (take in_len i))"
  by (rule cbc_round_trip_ok [OF assms])

theorem aes_cbc_round_trip_witness:
  "\<exists>c. aes_encrypt_cbc (replicate 32 5) 32 (replicate 32 0) (replicate 60 1) 192 (replicate 16 9) =
      Some (True, c) \<and>
    aes_decrypt_cbc c 32 (replicate 32 0) (replicate 60 1) 192 (replicate 16 9) =
      Some (True, replicate 32 5)"
  using aes_cbc_round_trip [of "replicate 60 1" 192 "replicate 16 9" 32 "replicate 32 5" "replicate 32 0"
      "replicate 32 0"]
  by (auto simp: key_ok_def valid_keysize_def enc_words_def INT_MAX_def buf_write_def)

text \<open>
  C10 (CTR). For a message of any length \<open>aes_encrypt_ctr\<close> stores the message exclusive-or the key
  stream \<open>E(iv), E(iv + 1), \<dots>\<close>, with the counter block as a 128-bit big-endian number that wraps
  around; \<open>aes_decrypt_ctr\<close> then restores the message.
\<close>
theorem aes_ctr_round_trip:
  assumes "key_ok key keysize" "length iv = 16" "n \<le> length xs" "n \<le> length out" "n \<le> length out2"
  shows "\<exists>ys. ctr_crypt (\<lambda>b. aes_encrypt b key keysize) iv (take n xs) = Some ys \<and> length ys = n \<and>
    aes_encrypt_ctr (Some xs) n out key keysize iv = Some (buf_write out 0 ys) \<and>
    aes_decrypt_ctr (Some (buf_write out 0 ys)) n out2 key keysize iv =
      Some (buf_write out2 0 (take n xs))"
proof -
  let ?E = "\<lambda>b. aes_encrypt b key keysize"
  obtain ys where ys: "ctr_crypt ?E iv (take n xs) = Some ys" "length ys = n"
      "aes_encrypt_ctr (Some xs) n out key keysize iv = Some (buf_write out 0 ys)"
    using ctr_ok [OF assms(1-4)] by blast
  have "ctr_crypt ?E iv ys = Some (take n xs)"
    using aes.ctr_involution [of "Abs_key_schedule (key, keysize)" iv "take n xs"] ys(1)
      with_Abs [OF assms(1)] by auto
  moreover have "take n (buf_write out 0 ys) = ys" "n \<le> length (buf_write out 0 ys)"
    using ys(2) assms(4) by (simp_all add: buf_write_def)
  ultimately have "aes_encrypt_ctr (Some (buf_write out 0 ys)) n out2 key keysize iv =
      Some (buf_write out2 0 (take n xs))"
    using ctr_ok [OF assms(1,2) _ assms(5), of "buf_write out 0 ys"] by auto
  then show ?thesis using ys by (auto simp: aes_decrypt_ctr_def)
qed

theorem aes_ctr_round_trip_witness:
  "\<exists>c. aes_encrypt_ctr (Some [1, 2, 3]) 3 [0, 0, 0] (replicate 60 1) 128 (replicate 16 9) = Some c \<and>
    aes_decrypt_ctr (Some c) 3 [0, 0, 0] (replicate 60 1) 128 (replicate 16 9) = Some [1, 2, 3]"
  using aes_ctr_round_trip [of "replicate 60 1" 128 "replicate 16 9" 3 "[1, 2, 3]" "[0, 0, 0]" "[0, 0, 0]"]
  by (auto simp: key_ok_def valid_keysize_def enc_words_def buf_write_def)

text \<open>
  C30 (\<open>increment_iv\<close>). With a counter of \<open>n\<close> bytes, 1 to 16, the last \<open>n\<close> bytes of the block count up
  by one modulo 256^n as a big-endian number, and the other bytes do not change.
\<close>
theorem increment_iv_counts:
  assumes "length iv = 16" "0 < n" "n \<le> 16"
  shows "\<exists>iv'. increment_iv iv (int n) = Some iv' \<and> length iv' = 16 \<and>
    take (16 - n) iv' = take (16 - n) iv \<and>
    be_val (drop (16 - n) iv') = (be_val (drop (16 - n) iv) + 1) mod 256 ^ n"
  using increment_iv_eq [OF assms] assms by (simp add: be_val_be_block)

theorem increment_iv_counts_witness:
  "\<exists>iv'. increment_iv (replicate 14 3 @ [0, 255]) (int 2) = Some iv' \<and> take 14 iv' = replicate 14 3 \<and>
    be_val (drop 14 iv') = 256"
  using increment_iv_counts [of "replicate 14 3 @ [0, 255]" 2] by (auto simp: be_val_def)

end
