(* ===== verification/AesCcm.thy ===== *)
theory AesCcm
  imports AesModes "HOL-Library.Signed_Division"
begin

text \<open>
  Authenticated encryption, \<open>aes_encrypt_ccm\<close> and \<open>aes_decrypt_ccm\<close> of
  \<open>crypto-algorithms_learn/aes.c\<close>, with the formatting helpers writing into the allocated buffer.
  \<open>malloc\<close> is the parameter \<open>M\<close>: the block of that many bytes it returns, or \<open>None\<close> for NULL.
  \<open>None\<close> as a result is an access outside an array, a read of an uninitialised local, or a signed
  overflow.
\<close>

section \<open>Formatting\<close>

definition ccm_prepare_first_ctr_blk :: "byte list \<Rightarrow> int \<Rightarrow> int \<Rightarrow> byte list option" where
  "ccm_prepare_first_ctr_blk nonce nonce_len payload_len_store_size =
     (if nonce_len < 0 then None
      else do {
        x \<leftarrow> bget nonce 0 (nat nonce_len);
        bput ((replicate 16 0)[0 := word_of_int ((payload_len_store_size - 1) AND 0x07)]) 1 x })"

text \<open>The flags byte \<open>buf[0]\<close> of the first block.\<close>

definition first_flags :: "int \<Rightarrow> int \<Rightarrow> int \<Rightarrow> byte" where
  "first_flags assoc_len payload_len_store_size mac_len =
     (let b = word_of_int
        (push_bit 3 (((mac_len - 2) sdiv 2) AND 0x07) OR ((payload_len_store_size - 1) AND 0x07))
      in if assoc_len > 0 then b + 0x40 else b)"

definition ccm_prepare_first_format_blk ::
  "byte list \<Rightarrow> int \<Rightarrow> int \<Rightarrow> int \<Rightarrow> int \<Rightarrow> byte list \<Rightarrow> int \<Rightarrow> byte list option"
where
  "ccm_prepare_first_format_blk buf assoc_len payload_len payload_len_store_size mac_len nonce nonce_len =
     (if nonce_len < 0 \<or> 15 < nonce_len then None
      else do {
        buf \<leftarrow> aset buf 0 (first_flags assoc_len payload_len_store_size mac_len);
        x \<leftarrow> bget nonce 0 (nat nonce_len);
        buf \<leftarrow> bput buf 1 x;
        buf \<leftarrow> bput buf (1 + nat nonce_len) (replicate (15 - nat nonce_len) 0);
        buf \<leftarrow> aset buf 15 (word_of_int (payload_len AND 0xFF));
        aset buf 14 (word_of_int (drop_bit 8 payload_len AND 0xFF)) })"

text \<open>\<open>*end_of_buf += n\<close> in an \<open>int\<close>.\<close>

definition advance :: "nat \<Rightarrow> nat \<Rightarrow> nat option" where
  "advance end_of_buf n = (if int (end_of_buf + n) \<le> INT_MAX then Some (end_of_buf + n) else None)"

definition ccm_format_assoc_data ::
  "byte list \<Rightarrow> nat \<Rightarrow> byte list \<Rightarrow> int \<Rightarrow> (byte list \<times> nat) option"
where
  "ccm_format_assoc_data buf end_of_buf assoc assoc_len =
     (if assoc_len < 0 then None
      else do {
        buf \<leftarrow> aset buf (end_of_buf + 1) (word_of_int (assoc_len AND 0xFF));
        buf \<leftarrow> aset buf end_of_buf (word_of_int (drop_bit 8 assoc_len AND 0xFF));
        end_of_buf \<leftarrow> advance end_of_buf 2;
        x \<leftarrow> bget assoc 0 (nat assoc_len);
        buf \<leftarrow> bput buf end_of_buf x;
        end_of_buf \<leftarrow> advance end_of_buf (nat assoc_len);
        let pad = 16 - end_of_buf mod 16;
        buf \<leftarrow> bput buf end_of_buf (replicate pad 0);
        end_of_buf \<leftarrow> advance end_of_buf pad;
        Some (buf, end_of_buf) })"

definition ccm_format_payload_data ::
  "byte list \<Rightarrow> nat \<Rightarrow> byte list \<Rightarrow> int \<Rightarrow> (byte list \<times> nat) option"
where
  "ccm_format_payload_data buf end_of_buf payload payload_len =
     (if payload_len < 0 then None
      else do {
        x \<leftarrow> bget payload 0 (nat payload_len);
        buf \<leftarrow> bput buf end_of_buf x;
        end_of_buf \<leftarrow> advance end_of_buf (nat payload_len);
        let pad = (if end_of_buf mod 16 \<noteq> 0 then 16 - end_of_buf mod 16 else 0);
        buf \<leftarrow> bput buf end_of_buf (replicate pad 0);
        end_of_buf \<leftarrow> advance end_of_buf pad;
        Some (buf, end_of_buf) })"

section \<open>Encryption and decryption\<close>

text \<open>
  The types are those of the source: \<open>WORD\<close> lengths are 32-bit words, \<open>unsigned short\<close> lengths 16-bit
  words. \<open>key0\<close> and \<open>mac0\<close> are what the local arrays \<open>key\<close> and \<open>mac\<close> (or \<open>mac_buf\<close>) hold at first. The
  results are the return value, the output array and the output length.
\<close>

definition valid_mac_len :: "word32 \<Rightarrow> bool" where
  "valid_mac_len m \<longleftrightarrow> m = 4 \<or> m = 6 \<or> m = 8 \<or> m = 10 \<or> m = 12 \<or> m = 14 \<or> m = 16"

definition aes_encrypt_ccm ::
  "(nat \<Rightarrow> byte list option) \<Rightarrow> word32 list \<Rightarrow> byte list \<Rightarrow> byte list \<Rightarrow> word32 \<Rightarrow> byte list \<Rightarrow> 16 word \<Rightarrow>
    byte list \<Rightarrow> 16 word \<Rightarrow> byte list \<Rightarrow> word32 \<Rightarrow> word32 \<Rightarrow> byte list \<Rightarrow> int \<Rightarrow>
    (bool \<times> byte list \<times> word32) option"
where
  "aes_encrypt_ccm M key0 mac0 payload payload_len assoc assoc_len nonce nonce_len out out_len mac_len
      key_str keysize =
     (if \<not> valid_mac_len mac_len then Some (False, out, out_len)
      else if nonce_len < 7 \<or> nonce_len > 13 then Some (False, out, out_len)
      else if assoc_len > 32768 then Some (False, out, out_len)
      else case M (unat (payload_len + ucast assoc_len + 48 :: word32)) of
        None \<Rightarrow> Some (False, out, out_len)
      | Some buf \<Rightarrow> do {
          key \<leftarrow> aes_key_setup key_str key0 keysize;
          let store_size = 15 - uint nonce_len;
          buf \<leftarrow> ccm_prepare_first_format_blk buf (uint assoc_len) (sint payload_len) store_size
            (sint mac_len) nonce (uint nonce_len);
          (buf, end_of_buf) \<leftarrow> ccm_format_assoc_data buf 16 assoc (uint assoc_len);
          (buf, end_of_buf) \<leftarrow> ccm_format_payload_data buf end_of_buf payload (sint payload_len);
          counter \<leftarrow> ccm_prepare_first_ctr_blk nonce (uint nonce_len) store_size;
          (_, mac) \<leftarrow> aes_encrypt_cbc_mac buf end_of_buf mac0 key keysize (replicate 16 0);
          x \<leftarrow> bget payload 0 (unat payload_len);
          out \<leftarrow> bput out 0 x;
          t \<leftarrow> bget mac 0 (unat mac_len);
          out \<leftarrow> bput out (unat payload_len) t;
          temp_iv \<leftarrow> increment_iv counter (sint (15 - mac_len));
          out \<leftarrow> aes_encrypt_ctr None (unat payload_len) out key keysize temp_iv;
          tail \<leftarrow> aes_encrypt_ctr None (unat mac_len) (drop (unat payload_len) out) key keysize counter;
          Some (True, take (unat payload_len) out @ tail, payload_len + mac_len) })"

text \<open>
  \<open>auth\<close> tells whether the caller passes a \<open>mac_auth\<close> pointer; the last result is what is stored
  there.
\<close>

definition aes_decrypt_ccm ::
  "(nat \<Rightarrow> byte list option) \<Rightarrow> word32 list \<Rightarrow> byte list \<Rightarrow> byte list \<Rightarrow> byte list \<Rightarrow> word32 \<Rightarrow> byte list \<Rightarrow>
    16 word \<Rightarrow> byte list \<Rightarrow> 16 word \<Rightarrow> byte list \<Rightarrow> word32 \<Rightarrow> word32 \<Rightarrow> bool \<Rightarrow> byte list \<Rightarrow> int \<Rightarrow>
    (bool \<times> byte list \<times> word32 \<times> bool option) option"
where
  "aes_decrypt_ccm M key0 mac0 mac_buf0 ciphertext ciphertext_len assoc assoc_len nonce nonce_len
      plaintext plaintext_len mac_len auth key_str keysize =
     (if ciphertext_len \<le> mac_len then Some (False, plaintext, plaintext_len, None)
      else case M (unat (ucast assoc_len + ciphertext_len + 48 :: word32)) of
        None \<Rightarrow> Some (False, plaintext, plaintext_len, None)
      | Some buf \<Rightarrow> do {
          key \<leftarrow> aes_key_setup key_str key0 keysize;
          let plaintext_len = ciphertext_len - mac_len;
          let store_size = 15 - uint nonce_len;
          x \<leftarrow> bget ciphertext 0 (unat plaintext_len);
          plaintext \<leftarrow> bput plaintext 0 x;
          t \<leftarrow> bget ciphertext (unat plaintext_len) (unat mac_len);
          mac \<leftarrow> bput mac0 0 t;
          counter \<leftarrow> ccm_prepare_first_ctr_blk nonce (uint nonce_len) store_size;
          temp_iv \<leftarrow> increment_iv counter (sint (15 - mac_len));
          plaintext \<leftarrow> aes_decrypt_ctr None (unat plaintext_len) plaintext key keysize temp_iv;
          if auth then do {
            mac \<leftarrow> aes_decrypt_ctr None (unat mac_len) mac key keysize counter;
            buf \<leftarrow> ccm_prepare_first_format_blk buf (uint assoc_len) (sint plaintext_len) store_size
              (sint mac_len) nonce (uint nonce_len);
            (buf, end_of_buf) \<leftarrow> ccm_format_assoc_data buf 16 assoc (uint assoc_len);
            (buf, end_of_buf) \<leftarrow> ccm_format_payload_data buf end_of_buf plaintext (sint plaintext_len);
            (_, mac_buf) \<leftarrow> aes_encrypt_cbc_mac buf end_of_buf mac_buf0 key keysize (replicate 16 0);
            a \<leftarrow> bget mac 0 (unat mac_len);
            b \<leftarrow> bget mac_buf 0 (unat mac_len);
            if a = b then Some (True, plaintext, plaintext_len, Some True)
            else do {
              plaintext \<leftarrow> bput plaintext 0 (replicate (unat plaintext_len) 0);
              Some (True, plaintext, plaintext_len, Some False) } }
          else Some (True, plaintext, plaintext_len, None) })"

section \<open>What the formatting writes\<close>

definition first_block :: "int \<Rightarrow> int \<Rightarrow> int \<Rightarrow> int \<Rightarrow> byte list \<Rightarrow> nat \<Rightarrow> byte list" where
  "first_block assoc_len payload_len store_size mac_len nonce nonce_len =
     (first_flags assoc_len store_size mac_len # take nonce_len nonce @ replicate (15 - nonce_len) 0)
       [15 := word_of_int (payload_len AND 0xFF), 14 := word_of_int (drop_bit 8 payload_len AND 0xFF)]"

definition assoc_blocks :: "byte list \<Rightarrow> nat \<Rightarrow> byte list" where
  "assoc_blocks assoc n =
     [word_of_int (drop_bit 8 (int n) AND 0xFF), word_of_int (int n AND 0xFF)] @ take n assoc @
     replicate (16 - (2 + n) mod 16) 0"

definition payload_blocks :: "byte list \<Rightarrow> nat \<Rightarrow> byte list" where
  "payload_blocks payload n =
     take n payload @ replicate (if n mod 16 \<noteq> 0 then 16 - n mod 16 else 0) 0"

lemma length_assoc_blocks:
  "n \<le> length assoc \<Longrightarrow> length (assoc_blocks assoc n) = 2 + n + (16 - (2 + n) mod 16)"
  by (simp add: assoc_blocks_def)

lemma assoc_blocks_aligned: "n \<le> length assoc \<Longrightarrow> length (assoc_blocks assoc n) mod 16 = 0"
  unfolding length_assoc_blocks by presburger

lemma length_payload_blocks:
  "n \<le> length payload \<Longrightarrow>
    length (payload_blocks payload n) = n + (if n mod 16 \<noteq> 0 then 16 - n mod 16 else 0)"
  by (simp add: payload_blocks_def)

lemma payload_blocks_aligned: "n \<le> length payload \<Longrightarrow> length (payload_blocks payload n) mod 16 = 0"
  unfolding length_payload_blocks by presburger

lemma length_first_block:
  "nonce_len \<le> length nonce \<Longrightarrow> nonce_len \<le> 15 \<Longrightarrow>
    length (first_block assoc_len payload_len store_size mac_len nonce nonce_len) = 16"
  by (simp add: first_block_def)

lemma first_format_blk_eq:
  assumes "16 \<le> length buf" "nl \<le> length nonce" "nl \<le> 15"
  shows "ccm_prepare_first_format_blk buf al pl ss ml nonce (int nl) =
    Some (first_block al pl ss ml nonce nl @ drop 16 buf)"
proof -
  obtain b0 bs where buf: "buf = b0 # bs" "15 \<le> length bs" using assms(1) by (cases buf) auto
  let ?c = "first_flags al ss ml"
  define x where "x = ?c # take nl nonce @ replicate (15 - nl) 0"
  have 1: "bput (?c # bs) 1 (take nl nonce) = Some (?c # take nl nonce @ drop nl bs)"
    using assms buf(2) by (simp add: bput_def buf_write_def)
  have 2: "bput (?c # take nl nonce @ drop nl bs) (1 + nl) (replicate (15 - nl) 0) =
      Some (x @ drop 15 bs)"
    using assms buf(2) by (simp add: bput_def buf_write_def x_def)
  have len: "length x = 16" using assms by (simp add: x_def)
  have 3: "aset (y @ drop 15 bs) k v = Some (y[k := v] @ drop 15 bs)" if "length y = 16" "k < 16" for y k v
    using that by (simp add: aset_def list_update_append)
  have "ccm_prepare_first_format_blk buf al pl ss ml nonce (int nl) =
      aset (x @ drop 15 bs) 15 (word_of_int (pl AND 255)) \<bind>
        (\<lambda>b. aset b 14 (word_of_int (drop_bit 8 pl AND 255)))"
    using assms buf 1 2 by (simp add: ccm_prepare_first_format_blk_def bget_def aset_in)
  also have "\<dots> = Some (x[15 := word_of_int (pl AND 255), 14 := word_of_int (drop_bit 8 pl AND 255)] @ drop 15 bs)"
    using len by (simp add: 3)
  finally show ?thesis using buf(1) by (simp add: first_block_def x_def)
qed

lemma bput_append:
  "k = length xs \<Longrightarrow> bput (xs @ ys) k bs =
    (if length bs \<le> length ys then Some (xs @ bs @ drop (length bs) ys) else None)"
  by (simp add: bput_def buf_write_append)

lemma advance_in: "int (e + n) \<le> INT_MAX \<Longrightarrow> advance e n = Some (e + n)"
  by (simp add: advance_def)

lemma format_assoc_eq:
  assumes "length p mod 16 = 0" "n \<le> length assoc" "length (assoc_blocks assoc n) \<le> length r"
    "int (length p + length (assoc_blocks assoc n)) \<le> INT_MAX"
  shows "ccm_format_assoc_data (p @ r) (length p) assoc (int n) =
    Some (p @ assoc_blocks assoc n @ drop (length (assoc_blocks assoc n)) r,
      length p + length (assoc_blocks assoc n))"
proof -
  have len: "length (assoc_blocks assoc n) = 2 + n + (16 - (2 + n) mod 16)"
    using assms(2) by (rule length_assoc_blocks)
  obtain r0 r1 rs where r: "r = r0 # r1 # rs" using assms(3) len by (cases r; cases "tl r") auto
  let ?hi = "word_of_int (drop_bit 8 (int n) AND 255) :: byte" and ?lo = "word_of_int (int n AND 255) :: byte"
  define q where "q = p @ [?hi, ?lo]"
  have lq: "length q = length p + 2" by (simp add: q_def)
  define pad where "pad = 16 - (length p + 2 + n) mod 16"
  have pad: "pad = 16 - (2 + n) mod 16"
    using assms(1) unfolding pad_def by (metis add.assoc add.left_neutral mod_add_left_eq)
  have len': "length (assoc_blocks assoc n) = 2 + n + pad" unfolding len pad ..
  have rs: "n + pad \<le> length rs" using assms(3) len' r by simp
  have bound: "int (length p + (2 + n + pad)) \<le> INT_MAX" using assms(4) unfolding len' .
  have 1: "aset (p @ r) (length p + 1) ?lo = Some (p @ r0 # ?lo # rs)"
    "aset (p @ r0 # ?lo # rs) (length p) ?hi = Some (q @ rs)"
    by (simp_all add: r aset_def list_update_append q_def)
  have 2: "bput (q @ rs) (length p + 2) (take n assoc) = Some (q @ take n assoc @ drop n rs)"
    using rs assms(2) lq by (subst bput_append) auto
  have 3: "bput ((q @ take n assoc) @ drop n rs) (length p + 2 + n) (replicate pad 0) =
      Some ((q @ take n assoc) @ replicate pad 0 @ drop (n + pad) rs)"
    using bput_append [of "length p + 2 + n" "q @ take n assoc" "drop n rs" "replicate pad 0"] rs assms(2) lq
    by (simp add: add.commute)
  have 4: "advance (length p) 2 = Some (length p + 2)" "advance (length p + 2) n = Some (length p + 2 + n)"
    "advance (length p + 2 + n) pad = Some (length p + 2 + n + pad)"
    using bound by (simp_all add: advance_def)
  have "ccm_format_assoc_data (p @ r) (length p) assoc (int n) =
      Some ((q @ take n assoc) @ replicate pad 0 @ drop (n + pad) rs, length p + 2 + n + pad)"
    unfolding ccm_format_assoc_data_def
    using assms(2) 1 2 3 4 pad_def [symmetric] by (simp add: bget_in Let_def)
  moreover have "(q @ take n assoc) @ replicate pad 0 = p @ assoc_blocks assoc n"
    by (simp add: q_def assoc_blocks_def pad)
  ultimately show ?thesis using r len' by (simp add: add.assoc)
qed

lemma format_payload_eq:
  assumes "length p mod 16 = 0" "n \<le> length payload"
    "int (length p + length (payload_blocks payload n)) \<le> INT_MAX"
  shows "ccm_format_payload_data (p @ r) (length p) payload (int n) =
    (if length (payload_blocks payload n) \<le> length r
     then Some (p @ payload_blocks payload n @ drop (length (payload_blocks payload n)) r,
       length p + length (payload_blocks payload n))
     else None)"
proof -
  define pad where "pad = (if n mod 16 \<noteq> 0 then 16 - n mod 16 else 0)"
  have md: "(length p + n) mod 16 = n mod 16" using assms(1) by (metis add.left_neutral mod_add_left_eq)
  have len: "length (payload_blocks payload n) = n + pad"
    using length_payload_blocks [OF assms(2)] by (simp add: pad_def)
  have bound: "int (length p + (n + pad)) \<le> INT_MAX" using assms(3) unfolding len .
  have adv: "advance (length p) n = Some (length p + n)" "advance (length p + n) pad = Some (length p + n + pad)"
    using bound by (simp_all add: advance_def)
  have unf: "ccm_format_payload_data (p @ r) (length p) payload (int n) = do {
      buf \<leftarrow> bput (p @ r) (length p) (take n payload);
      buf \<leftarrow> bput buf (length p + n) (replicate pad 0);
      Some (buf, length p + n + pad) }"
    unfolding ccm_format_payload_data_def using assms(2) adv
    by (cases "n mod 16 = 0") (simp_all add: bget_in md Let_def pad_def)
  show ?thesis
  proof (cases "n \<le> length r")
    case True
    then have "bput (p @ r) (length p) (take n payload) = Some ((p @ take n payload) @ drop n r)"
      using assms(2) by (simp add: bput_def buf_write_append)
    moreover have "bput ((p @ take n payload) @ drop n r) (length p + n) (replicate pad 0) =
        (if n + pad \<le> length r then Some ((p @ take n payload) @ replicate pad 0 @ drop (n + pad) r) else None)"
      using bput_append [of "length p + n" "p @ take n payload" "drop n r" "replicate pad 0"] True assms(2)
      by (auto simp: add.commute)
    moreover have "payload_blocks payload n = take n payload @ replicate pad 0"
      by (simp add: payload_blocks_def pad_def)
    ultimately show ?thesis unfolding unf len by simp
  next
    case False
    then show ?thesis using assms(2) len unfolding unf by (simp add: bput_def)
  qed
qed

text \<open>The three parts together, on the buffer both functions allocate.\<close>

definition formatted :: "byte list \<Rightarrow> nat \<Rightarrow> byte list \<Rightarrow> nat \<Rightarrow> byte list \<Rightarrow> nat \<Rightarrow> nat \<Rightarrow> byte list" where
  "formatted payload n assoc al nonce nl ml =
     first_block (int al) (int n) (15 - int nl) (int ml) nonce nl @ assoc_blocks assoc al @
     payload_blocks payload n"

definition format_all :: "byte list \<Rightarrow> byte list \<Rightarrow> nat \<Rightarrow> byte list \<Rightarrow> nat \<Rightarrow> byte list \<Rightarrow> nat \<Rightarrow> nat \<Rightarrow>
    (byte list \<times> nat) option" where
  "format_all buf payload n assoc al nonce nl ml = do {
     buf \<leftarrow> ccm_prepare_first_format_blk buf (int al) (int n) (15 - int nl) (int ml) nonce (int nl);
     (buf, e) \<leftarrow> ccm_format_assoc_data buf 16 assoc (int al);
     ccm_format_payload_data buf e payload (int n) }"

lemma format_all_eq:
  fixes ml :: nat
  assumes "nl \<le> length nonce" "nl \<le> 15" "al \<le> length assoc" "n \<le> length payload"
    "int (n + al + 64) \<le> INT_MAX" "n + al + 48 \<le> length buf"
  defines "F \<equiv> formatted payload n assoc al nonce nl ml"
  shows "format_all buf payload n assoc al nonce nl ml =
    (if length F \<le> length buf then Some (F @ drop (length F) buf, length F) else None)"
proof -
  define B where "B = first_block (int al) (int n) (15 - int nl) (int ml) nonce nl"
  define A where "A = assoc_blocks assoc al"
  define P where "P = payload_blocks payload n"
  have len: "length B = 16" "length A = 2 + al + (16 - (2 + al) mod 16)"
      "length P = n + (if n mod 16 \<noteq> 0 then 16 - n mod 16 else 0)"
    using length_first_block assms(1,2) length_assoc_blocks assms(3) length_payload_blocks assms(4)
    by (auto simp: B_def A_def P_def)
  have al: "length A mod 16 = 0" using assoc_blocks_aligned assms(3) by (simp add: A_def)
  have lA: "length A \<le> al + 18" "length P \<le> n + 15" using len by auto
  have F: "F = B @ A @ P" by (simp add: F_def formatted_def A_def B_def P_def)
  have 1: "ccm_prepare_first_format_blk buf (int al) (int n) (15 - int nl) (int ml) nonce (int nl) =
      Some (B @ drop 16 buf)"
    unfolding B_def using assms by (intro first_format_blk_eq) auto
  have lA2: "length A \<le> length (drop 16 buf)" "int (length B + length A) \<le> INT_MAX"
    using lA(1) len(1) assms(5,6) by auto
  have 2: "ccm_format_assoc_data (B @ drop 16 buf) 16 assoc (int al) =
      Some ((B @ A) @ drop (length A + 16) buf, 16 + length A)"
    using format_assoc_eq [of B al assoc "drop 16 buf", folded A_def] lA2 assms(3) len(1) by simp
  have lBA: "length (B @ A) = 16 + length A" using len(1) by simp
  have lP: "length (B @ A) mod 16 = 0" "int (length (B @ A) + length P) \<le> INT_MAX"
    using lA al assms(5) unfolding lBA by auto
  have 3: "ccm_format_payload_data ((B @ A) @ drop (length A + 16) buf) (16 + length A) payload (int n) =
      (if length P \<le> length buf - (length A + 16)
       then Some ((B @ A) @ P @ drop (length P + (length A + 16)) buf, 16 + length A + length P) else None)"
    using format_payload_eq [of "B @ A" n payload "drop (length A + 16) buf", folded P_def] lP assms(4)
    unfolding lBA length_drop drop_drop by blast
  have "length P \<le> length buf - (length A + 16) \<longleftrightarrow> length F \<le> length buf"
    using len(1) lA(1) assms(6) unfolding F by auto
  moreover have "length P + (length A + 16) = length F" "16 + length A + length P = length F"
    using len(1) unfolding F by simp_all
  ultimately have 3: "ccm_format_payload_data ((B @ A) @ drop (length A + 16) buf) (16 + length A) payload (int n) =
      (if length F \<le> length buf then Some ((B @ A) @ P @ drop (length F) buf, length F) else None)"
    using 3 by presburger
  have "(B @ A) @ P @ drop (length F) buf = F @ drop (length F) buf" by (simp add: F)
  then show ?thesis unfolding format_all_def 1 bind.bind_lunit 2 prod.case 3 by presburger
qed

text \<open>
  When the formatted data fits into \<open>n + al + 48\<close> bytes: the extra zero block that an aligned
  associated part gets, together with 15 bytes of padding, is one byte too long.
\<close>

lemma pad_arith:
  "(a :: nat) < 16 \<Longrightarrow> b < 16 \<Longrightarrow>
    16 + (2 + al + (16 - a)) + (n + (if b \<noteq> 0 then 16 - b else 0)) \<le> n + al + 48 \<longleftrightarrow>
      \<not> (a = 0 \<and> b = 1)"
  by (cases "b = 0"; cases "a = 0") auto

lemma formatted_fits:
  assumes "nl \<le> length nonce" "nl \<le> 15" "al \<le> length assoc" "n \<le> length payload"
  shows "length (formatted payload n assoc al nonce nl ml) \<le> n + al + 48 \<longleftrightarrow>
    \<not> (al mod 16 = 14 \<and> n mod 16 = 1)"
proof -
  have "length (formatted payload n assoc al nonce nl ml) =
      16 + (2 + al + (16 - (2 + al) mod 16)) + (n + (if n mod 16 \<noteq> 0 then 16 - n mod 16 else 0))"
    using assms by (simp only: formatted_def length_append length_first_block length_assoc_blocks
        length_payload_blocks add.assoc)
  moreover have "(2 + al) mod 16 = 0 \<longleftrightarrow> al mod 16 = 14" by presburger
  moreover have "(2 + al) mod 16 < 16" "n mod 16 < 16" by simp_all
  ultimately show ?thesis by (simp only: pad_arith)
qed

section \<open>The two functions on valid arguments\<close>

text \<open>
  What the header requires of the arguments, for lengths that stay in the \<open>int\<close> range. The local
  arrays have the sizes the source declares.
\<close>

definition ccm_args ::
  "word32 list \<Rightarrow> byte list \<Rightarrow> word32 \<Rightarrow> byte list \<Rightarrow> 16 word \<Rightarrow> byte list \<Rightarrow> 16 word \<Rightarrow> word32 \<Rightarrow>
    byte list \<Rightarrow> int \<Rightarrow> bool"
where
  "ccm_args key0 mac0 payload_len assoc assoc_len nonce nonce_len mac_len key_str keysize \<longleftrightarrow>
     valid_keysize keysize \<and> keysize \<le> 8 * int (length key_str) \<and> length key0 = 60 \<and>
     length mac0 = 16 \<and> valid_mac_len mac_len \<and> 7 \<le> nonce_len \<and> nonce_len \<le> 13 \<and>
     unat nonce_len \<le> length nonce \<and> assoc_len \<le> 32768 \<and> unat assoc_len \<le> length assoc \<and>
     int (unat payload_len) + 40000 \<le> INT_MAX"

text \<open>\<open>malloc\<close> succeeds, with a block of the size asked for.\<close>

definition malloc_ok :: "(nat \<Rightarrow> byte list option) \<Rightarrow> bool" where
  "malloc_ok M \<longleftrightarrow> (\<forall>n. \<exists>b. M n = Some b \<and> length b = n)"

lemma setup_key_ok:
  assumes "valid_keysize keysize" "keysize \<le> 8 * int (length key_str)" "length key0 = 60"
  shows "\<exists>key. aes_key_setup key_str key0 keysize = Some key \<and> key_ok key keysize"
proof -
  obtain Nr Nk where p: "key_params keysize = Some (Nr, Nk)" "4 * Nk \<le> length key_str"
      "4 * (Nr + 1) \<le> length key0"
    using assms by (auto simp: valid_keysize_def key_params_def)
  then show ?thesis
    using aes_key_setup_eq [OF p] assms by (auto simp: key_ok_def enc_words_def)
qed

lemma valid_mac_unat:
  assumes "valid_mac_len m"
  shows "4 \<le> unat m" "unat m \<le> 16" "sint m = int (unat m)" "sint (15 - m) = 15 - int (unat m)"
  using assms by (auto simp: valid_mac_len_def)

lemma ctr_blk_eq:
  assumes "nl \<le> length nonce" "nl \<le> 15"
  shows "\<exists>c. ccm_prepare_first_ctr_blk nonce (int nl) ss = Some c \<and> length c = 16"
  using assms by (simp add: ccm_prepare_first_ctr_blk_def bget_def bput_def)

lemma increment_total:
  assumes "length c = 16" "k \<le> 16"
  shows "\<exists>iv. increment_iv c k = Some iv \<and> length iv = 16"
proof (cases "k \<le> 0")
  case True
  then show ?thesis using assms increment_iv_none by blast
next
  case False
  then show ?thesis using increment_iv_eq [of c "nat k"] assms by auto
qed

lemma cbc_last_take: "16 * n \<le> length xs \<Longrightarrow> cbc_last E iv n (xs @ ys) = cbc_last E iv n xs"
  by (induction n arbitrary: iv xs) auto

lemma formatted_aligned:
  assumes "nl \<le> length nonce" "nl \<le> 15" "al \<le> length assoc" "n \<le> length payload"
  shows "length (formatted payload n assoc al nonce nl ml) mod 16 = 0"
    "0 < length (formatted payload n assoc al nonce nl ml)"
    "length (formatted payload n assoc al nonce nl ml) \<le> n + al + 49"
proof -
  let ?A = "length (assoc_blocks assoc al)" and ?P = "length (payload_blocks payload n)"
  have len: "length (formatted payload n assoc al nonce nl ml) = 16 + (?A + ?P)"
    using length_first_block assms(1,2) by (simp add: formatted_def)
  show "length (formatted payload n assoc al nonce nl ml) mod 16 = 0"
    using assoc_blocks_aligned [OF assms(3)] payload_blocks_aligned [OF assms(4)] unfolding len by auto
  show "0 < length (formatted payload n assoc al nonce nl ml)" unfolding len by simp
  have "?A \<le> al + 18" "?P \<le> n + 15"
    unfolding length_assoc_blocks [OF assms(3)] length_payload_blocks [OF assms(4)] by auto
  then show "length (formatted payload n assoc al nonce nl ml) \<le> n + al + 49" unfolding len by simp
qed

text \<open>The MAC both functions compute, from the formatted data.\<close>

lemma ccm_mac_eq:
  fixes ml :: nat
  assumes "key_ok key keysize" "length mac0 = 16" "nl \<le> length nonce" "nl \<le> 15" "al \<le> length assoc"
    "n \<le> length payload" "int (n + al + 64) \<le> INT_MAX"
  defines "F \<equiv> formatted payload n assoc al nonce nl ml"
  shows "\<exists>T. cbc_last (\<lambda>b. aes_encrypt b key keysize) (replicate 16 0) (length F div 16) F = Some T \<and>
    length T = 16 \<and>
    (\<forall>r. aes_encrypt_cbc_mac (F @ r) (length F) mac0 key keysize (replicate 16 0) = Some (True, T))"
proof -
  let ?E = "\<lambda>b. aes_encrypt b key keysize"
  note F = formatted_aligned [OF assms(3-6), of ml, folded F_def]
  have "\<exists>T. cbc_last ?E (replicate 16 0) (length F div 16) (F @ r) = Some T \<and> length T = 16 \<and>
      aes_encrypt_cbc_mac (F @ r) (length F) mac0 key keysize (replicate 16 0) = Some (True, buf_write mac0 0 T)"
    for r
    using F assms(2,7) by (intro cbc_mac_ok [OF assms(1)]) auto
  moreover have "cbc_last ?E (replicate 16 0) (length F div 16) (F @ r) =
      cbc_last ?E (replicate 16 0) (length F div 16) F" for r
    by (rule cbc_last_take) simp
  ultimately show ?thesis using assms(2) buf_write_0 [of _ mac0] by (metis option.inject)
qed

lemma format_all_bind:
  "do {
     buf \<leftarrow> ccm_prepare_first_format_blk buf (int al) (int n) (15 - int nl) (int ml) nonce (int nl);
     (buf, e) \<leftarrow> ccm_format_assoc_data buf 16 assoc (int al);
     (buf, e) \<leftarrow> ccm_format_payload_data buf e payload (int n);
     f buf e } = format_all buf payload n assoc al nonce nl ml \<bind> (\<lambda>(buf, e). f buf e)"
  unfolding format_all_def by (simp add: split_def)

text \<open>The lengths as numbers.\<close>

lemma ccm_argsD:
  assumes "ccm_args key0 mac0 payload_len assoc assoc_len nonce nonce_len mac_len key_str keysize"
  shows "valid_mac_len mac_len" "7 \<le> nonce_len" "nonce_len \<le> 13" "assoc_len \<le> 32768"
    "unat nonce_len \<le> length nonce" "unat nonce_len \<le> 13" "unat assoc_len \<le> length assoc"
    "unat assoc_len \<le> 32768" "int (unat payload_len + unat assoc_len + 64) \<le> INT_MAX"
    "sint payload_len = int (unat payload_len)" "length mac0 = 16"
proof -
  note A = assms [unfolded ccm_args_def]
  show "unat nonce_len \<le> 13" "unat assoc_len \<le> 32768"
    using A by (simp_all add: word_le_nat_alt)
  then show "int (unat payload_len + unat assoc_len + 64) \<le> INT_MAX" using A by linarith
  have "uint payload_len \<le> INT_MAX" "- 2147483648 \<le> uint payload_len"
    using A by (simp, intro order_trans [OF _ uint_ge_0]) simp
  then show "sint payload_len = int (unat payload_len)"
    by (simp add: INT_MAX_def sint_uint signed_take_bit_int_eq_self_iff)
qed (use assms in \<open>simp_all add: ccm_args_def\<close>)

lemma ccm_buf_size:
  assumes "unat (a :: 16 word) \<le> 32768" "int (unat p + unat a + 64) \<le> INT_MAX"
  shows "unat (p + ucast a + 48 :: word32) = unat p + unat a + 48"
    "unat (ucast a + p + 48 :: word32) = unat p + unat a + 48"
proof -
  have a: "unat (ucast a :: word32) = unat a"
    using assms(1) by (simp add: unsigned_ucast_eq take_bit_nat_eq_self)
  have small: "unat p + unat a \<le> 2147483583" using assms(2) unfolding INT_MAX_def by linarith
  show "unat (p + ucast a + 48 :: word32) = unat p + unat a + 48"
    using small by (simp add: unat_word_ariths a)
  then show "unat (ucast a + p + 48 :: word32) = unat p + unat a + 48" by (simp add: add.commute)
qed

lemma encrypt_ccm_eq:
  assumes args: "ccm_args key0 mac0 payload_len assoc assoc_len nonce nonce_len mac_len key_str keysize"
    and M: "malloc_ok M"
    and pl: "unat payload_len \<le> length payload" "unat payload_len + unat mac_len \<le> length out"
    and key: "aes_key_setup key_str key0 keysize = Some key" "key_ok key keysize"
    and ctr: "ccm_prepare_first_ctr_blk nonce (uint nonce_len) (15 - uint nonce_len) = Some ctr" "length ctr = 16"
    and iv: "increment_iv ctr (sint (15 - mac_len)) = Some iv" "length iv = 16"
  defines "n \<equiv> unat payload_len" and "m \<equiv> unat mac_len"
    and "F \<equiv> formatted payload (unat payload_len) assoc (unat assoc_len) nonce (unat nonce_len) (unat mac_len)"
    and "E \<equiv> \<lambda>b. aes_encrypt b key keysize"
  shows "if unat assoc_len mod 16 = 14 \<and> n mod 16 = 1
    then aes_encrypt_ccm M key0 mac0 payload payload_len assoc assoc_len nonce nonce_len out out_len mac_len
      key_str keysize = None
    else \<exists>T cs ts. cbc_last E (replicate 16 0) (length F div 16) F = Some T \<and> length T = 16 \<and>
      ctr_crypt E iv (take n payload) = Some cs \<and> length cs = n \<and>
      ctr_crypt E ctr (take m T) = Some ts \<and> length ts = m \<and>
      aes_encrypt_ccm M key0 mac0 payload payload_len assoc assoc_len nonce nonce_len out out_len mac_len
        key_str keysize = Some (True, buf_write out 0 (cs @ ts), payload_len + mac_len)"
proof -
  note A = ccm_argsD [OF args] and V = valid_mac_unat [OF ccm_argsD(1) [OF args]]
  let ?al = "unat assoc_len" and ?nl = "unat nonce_len"
  let ?enc = "aes_encrypt_ccm M key0 mac0 payload payload_len assoc assoc_len nonce nonce_len out out_len
    mac_len key_str keysize"
  have nl: "?nl \<le> 15" using A(6) by simp
  have size: "unat (payload_len + ucast assoc_len + 48 :: word32) = n + ?al + 48"
    unfolding n_def using A(8,9) by (rule ccm_buf_size)
  obtain buf where buf: "M (n + ?al + 48) = Some buf" "length buf = n + ?al + 48"
    using M unfolding malloc_ok_def by blast
  have fmt: "format_all buf payload n assoc ?al nonce ?nl m =
      (if length F \<le> length buf then Some (F @ drop (length F) buf, length F) else None)"
    unfolding F_def n_def m_def using A pl(1) nl buf(2) by (intro format_all_eq) (auto simp: n_def)
  have fits: "length F \<le> length buf \<longleftrightarrow> \<not> (?al mod 16 = 14 \<and> n mod 16 = 1)"
    unfolding F_def buf(2) n_def using A(5,7) nl pl(1) by (intro formatted_fits)
  define rest where "rest = (\<lambda>buf e. do {
     counter \<leftarrow> ccm_prepare_first_ctr_blk nonce (uint nonce_len) (15 - uint nonce_len);
     (_, mac) \<leftarrow> aes_encrypt_cbc_mac buf e mac0 key keysize (replicate 16 0);
     x \<leftarrow> bget payload 0 n;
     out \<leftarrow> bput out 0 x;
     t \<leftarrow> bget mac 0 m;
     out \<leftarrow> bput out n t;
     temp_iv \<leftarrow> increment_iv counter (sint (15 - mac_len));
     out \<leftarrow> aes_encrypt_ctr None n out key keysize temp_iv;
     tail \<leftarrow> aes_encrypt_ctr None m (drop n out) key keysize counter;
     Some (True, take n out @ tail, payload_len + mac_len) })"
  have unf: "?enc = format_all buf payload n assoc ?al nonce ?nl m \<bind> (\<lambda>(buf, e). rest buf e)"
    unfolding format_all_bind [symmetric] rest_def using A(1-4) V(3) buf(1)
    by (simp add: aes_encrypt_ccm_def size key(1) A(10) n_def m_def Let_def not_less [symmetric])
  show ?thesis
  proof (cases "?al mod 16 = 14 \<and> n mod 16 = 1")
    case True
    then show ?thesis using fmt fits unf by simp
  next
    case False
    have bound: "int (n + ?al + 64) \<le> INT_MAX" using A(9) by (simp only: n_def)
    obtain T where T: "cbc_last E (replicate 16 0) (length F div 16) F = Some T" "length T = 16"
        "\<And>r. aes_encrypt_cbc_mac (F @ r) (length F) mac0 key keysize (replicate 16 0) = Some (True, T)"
      using ccm_mac_eq [OF key(2) A(11,5) nl A(7) pl(1) A(9), of m] unfolding F_def m_def E_def by blast
    let ?p = "take n payload" and ?t = "take m T"
    have len: "length ?p = n" "length ?t = m" "n + m \<le> length out"
      using pl T(2) V(2) by (auto simp: n_def m_def)
    define o1 where "o1 = ?p @ ?t @ drop (n + m) out"
    have put: "bput out 0 ?p = Some (?p @ drop n out)" "bput (?p @ drop n out) n ?t = Some o1"
      using len by (simp_all add: bput_def buf_write_def o1_def add.commute)
    obtain cs where cs: "ctr_crypt E iv ?p = Some cs" "length cs = n"
        "aes_encrypt_ctr None n o1 key keysize iv = Some (cs @ ?t @ drop (n + m) out)"
      using ctr_in_place [OF key(2) iv(2), of n o1] len unfolding o1_def E_def by auto
    have mt: "m \<le> length (?t @ drop (n + m) out)" using len(2) by simp
    obtain ts where ts: "ctr_crypt E ctr ?t = Some ts" "length ts = m"
        "aes_encrypt_ctr None m (?t @ drop (n + m) out) key keysize ctr = Some (ts @ drop (n + m) out)"
      using ctr_in_place [OF key(2) ctr(2) mt] len(2) unfolding E_def by auto
    have get: "bget payload 0 n = Some ?p" "bget T 0 m = Some ?t"
      using pl(1) T(2) V(2) by (auto simp: bget_def n_def m_def)
    have "rest (F @ drop (length F) buf) (length F) =
        Some (True, cs @ ts @ drop (n + m) out, payload_len + mac_len)"
      unfolding rest_def using cs ts by (simp add: ctr(1) T(3) get put iv(1))
    then have "?enc = Some (True, buf_write out 0 (cs @ ts), payload_len + mac_len)"
      unfolding unf using fmt fits False cs(2) ts(2) by (simp add: buf_write_def)
    then show ?thesis using False T(1,2) cs(1,2) ts(1,2) by auto
  qed
qed

lemma decrypt_ccm_eq:
  assumes args: "ccm_args key0 mac0 payload_len assoc assoc_len nonce nonce_len mac_len key_str keysize"
    and M: "malloc_ok M"
    and pl: "unat payload_len + unat mac_len \<le> length ciphertext" "unat payload_len \<le> length plaintext"
      "0 < payload_len" "length mac_buf0 = 16"
    and key: "aes_key_setup key_str key0 keysize = Some key" "key_ok key keysize"
    and ctr: "ccm_prepare_first_ctr_blk nonce (uint nonce_len) (15 - uint nonce_len) = Some ctr" "length ctr = 16"
    and iv: "increment_iv ctr (sint (15 - mac_len)) = Some iv" "length iv = 16"
  defines "n \<equiv> unat payload_len" and "m \<equiv> unat mac_len" and "E \<equiv> \<lambda>b. aes_encrypt b key keysize"
  assumes ps: "ctr_crypt E iv (take n ciphertext) = Some ps"
    and ts: "ctr_crypt E ctr (take m (drop n ciphertext)) = Some ts"
  defines "F \<equiv> formatted ps n assoc (unat assoc_len) nonce (unat nonce_len) m"
  assumes T: "cbc_last E (replicate 16 0) (length F div 16) F = Some T"
  shows "aes_decrypt_ccm M key0 mac0 mac_buf0 ciphertext (payload_len + mac_len) assoc assoc_len nonce nonce_len
      plaintext plaintext_len mac_len True key_str keysize =
    (if ts = take m T then Some (True, buf_write plaintext 0 ps, payload_len, Some True)
     else Some (True, buf_write plaintext 0 (replicate n 0), payload_len, Some False))"
proof -
  note A = ccm_argsD [OF args] and V = valid_mac_unat [OF ccm_argsD(1) [OF args]]
  let ?al = "unat assoc_len" and ?nl = "unat nonce_len"
  let ?dec = "aes_decrypt_ccm M key0 mac0 mac_buf0 ciphertext (payload_len + mac_len) assoc assoc_len nonce
    nonce_len plaintext plaintext_len mac_len True key_str keysize"
  have nl: "?nl \<le> 15" using A(6) by simp
  have m: "m \<le> 16" "4 \<le> m" using V(1,2) by (simp_all add: m_def)
  have small: "n \<le> 2147483583" using A(9) unfolding INT_MAX_def n_def by linarith
  have sum: "unat (payload_len + mac_len) = n + m"
    using small m(1) by (simp add: unat_word_ariths n_def m_def)
  have "0 < n" using pl(3) by (simp add: n_def word_less_nat_alt)
  then have big: "\<not> payload_len + mac_len \<le> mac_len" using sum by (simp add: word_le_nat_alt m_def)
  let ?c = "take n ciphertext" and ?t = "take m (drop n ciphertext)"
  have len: "length ?c = n" "length ?t = m" "n \<le> length plaintext" "n + m \<le> length ciphertext"
    using pl(1,2) by (auto simp: n_def m_def)
  have "int n + 40000 \<le> INT_MAX" using args unfolding ccm_args_def n_def by blast
  then have bound': "int (n + m + ?al + 64) \<le> INT_MAX" using A(8) m(1) by linarith
  have size: "unat (ucast assoc_len + (payload_len + mac_len) + 48 :: word32) = n + m + ?al + 48"
    using A(8) bound' by (rule ccm_buf_size(2) [of assoc_len "payload_len + mac_len", unfolded sum])
  obtain buf where buf: "M (n + m + ?al + 48) = Some buf" "length buf = n + m + ?al + 48"
    using M unfolding malloc_ok_def by blast
  define p0 where "p0 = ?c @ drop n plaintext"
  define p1 where "p1 = ps @ drop n plaintext"
  have pt: "length ps = n" "aes_encrypt_ctr None n p0 key keysize iv = Some p1"
    using ctr_in_place [OF key(2) iv(2), of n p0] len ps unfolding p0_def p1_def E_def by auto
  have tg: "length ts = m" "aes_encrypt_ctr None m (?t @ drop m mac0) key keysize ctr = Some (ts @ drop m mac0)"
    using ctr_in_place [OF key(2) ctr(2), of m "?t @ drop m mac0"] len ts unfolding E_def by auto
  have get: "bget ciphertext 0 n = Some ?c" "bget ciphertext n m = Some ?t" "bput plaintext 0 ?c = Some p0"
      "bput mac0 0 ?t = Some (?t @ drop m mac0)"
    using len m(1) A(11) by (simp_all add: bget_def bput_def buf_write_def p0_def)
  have F: "F = formatted p1 n assoc ?al nonce ?nl m"
    using pt(1) by (simp add: F_def formatted_def payload_blocks_def p1_def)
  have n1: "n \<le> length p1" using pt(1) by (simp add: p1_def)
  have bound: "int (n + ?al + 64) \<le> INT_MAX" using A(9) by (simp only: n_def)
  have "length F \<le> length buf"
    unfolding F using formatted_aligned(3) [OF A(5) nl A(7) n1, of m] m(2) buf(2) by simp
  then have fmt: "format_all buf p1 n assoc ?al nonce ?nl m = Some (F @ drop (length F) buf, length F)"
    unfolding F using format_all_eq [OF A(5) nl A(7) n1 bound, of buf m] buf(2) by simp
  have mac: "length T = 16" "aes_encrypt_cbc_mac (F @ r) (length F) mac_buf0 key keysize (replicate 16 0) = Some (True, T)"
    for r
    using ccm_mac_eq [OF key(2) pl(4) A(5) nl A(7) n1 bound, of m] T unfolding F E_def by auto
  have out: "buf_write plaintext 0 ps = p1"
      "bput p1 0 (replicate n 0) = Some (buf_write plaintext 0 (replicate n 0))"
    using pt(1) by (simp_all add: bput_def buf_write_def p1_def)
  have "?dec = do {
      mac \<leftarrow> aes_encrypt_ctr None m (?t @ drop m mac0) key keysize ctr;
      (buf, e) \<leftarrow> format_all buf p1 n assoc ?al nonce ?nl m;
      (_, mac_buf) \<leftarrow> aes_encrypt_cbc_mac buf e mac_buf0 key keysize (replicate 16 0);
      a \<leftarrow> bget mac 0 m;
      b \<leftarrow> bget mac_buf 0 m;
      if a = b then Some (True, p1, payload_len, Some True)
      else do { x \<leftarrow> bput p1 0 (replicate n 0); Some (True, x, payload_len, Some False) } }"
    unfolding format_all_bind [symmetric] using V(3) buf(1) size get pt(2)
    by (simp add: aes_decrypt_ccm_def aes_decrypt_ctr_def big key(1) ctr(1) iv(1) A(10) n_def m_def Let_def
        cong: if_cong)
  also have "\<dots> = (if ts = take m T then Some (True, buf_write plaintext 0 ps, payload_len, Some True)
     else Some (True, buf_write plaintext 0 (replicate n 0), payload_len, Some False))"
    using tg m(1) mac by (simp add: fmt bget_def out)
  finally show ?thesis .
qed

section \<open>Properties\<close>

lemma ccm_setup:
  assumes "ccm_args key0 mac0 payload_len assoc assoc_len nonce nonce_len mac_len key_str keysize"
  obtains key ctr iv where "aes_key_setup key_str key0 keysize = Some key" "key_ok key keysize"
    "ccm_prepare_first_ctr_blk nonce (uint nonce_len) (15 - uint nonce_len) = Some ctr" "length ctr = 16"
    "increment_iv ctr (sint (15 - mac_len)) = Some iv" "length iv = 16"
proof -
  note A = ccm_argsD [OF assms] and V = valid_mac_unat [OF ccm_argsD(1) [OF assms]]
  obtain key where key: "aes_key_setup key_str key0 keysize = Some key" "key_ok key keysize"
    using setup_key_ok [of keysize key_str key0] assms by (auto simp: ccm_args_def)
  obtain ctr where ctr: "ccm_prepare_first_ctr_blk nonce (uint nonce_len) (15 - uint nonce_len) = Some ctr"
      "length ctr = 16"
    using ctr_blk_eq [of "unat nonce_len" nonce "15 - uint nonce_len"] A(5,6) by auto
  have "sint (15 - mac_len) \<le> 16" using V(4) by linarith
  then obtain iv where "increment_iv ctr (sint (15 - mac_len)) = Some iv" "length iv = 16"
    using increment_total [OF ctr(2)] by blast
  then show ?thesis using that key ctr by blast
qed

text \<open>
  C1 (CCM round trip). For valid arguments, a non-empty payload and lengths whose formatted data
  fits the allocated buffer, \<open>aes_encrypt_ccm\<close> succeeds, and \<open>aes_decrypt_ccm\<close> on its output
  authenticates the message and returns the payload.
\<close>
theorem aes_ccm_round_trip:
  assumes "ccm_args key0 mac0 payload_len assoc assoc_len nonce nonce_len mac_len key_str keysize"
    "malloc_ok M" "unat payload_len \<le> length payload" "unat payload_len + unat mac_len \<le> length out"
    "unat payload_len \<le> length plaintext" "0 < payload_len" "length mac_buf0 = 16"
    "\<not> (unat assoc_len mod 16 = 14 \<and> unat payload_len mod 16 = 1)"
  shows "\<exists>c. aes_encrypt_ccm M key0 mac0 payload payload_len assoc assoc_len nonce nonce_len out out_len
      mac_len key_str keysize = Some (True, c, payload_len + mac_len) \<and>
    aes_decrypt_ccm M key0 mac0 mac_buf0 c (payload_len + mac_len) assoc assoc_len nonce nonce_len
      plaintext plaintext_len mac_len True key_str keysize =
      Some (True, buf_write plaintext 0 (take (unat payload_len) payload), payload_len, Some True)"
proof -
  let ?n = "unat payload_len" and ?m = "unat mac_len"
  obtain key ctr iv where S: "aes_key_setup key_str key0 keysize = Some key" "key_ok key keysize"
      "ccm_prepare_first_ctr_blk nonce (uint nonce_len) (15 - uint nonce_len) = Some ctr" "length ctr = 16"
      "increment_iv ctr (sint (15 - mac_len)) = Some iv" "length iv = 16"
    using ccm_setup [OF assms(1)] by blast
  let ?E = "\<lambda>b. aes_encrypt b key keysize"
  let ?F = "\<lambda>p. formatted p ?n assoc (unat assoc_len) nonce (unat nonce_len) ?m"
  obtain T cs ts where e: "cbc_last ?E (replicate 16 0) (length (?F payload) div 16) (?F payload) = Some T"
      "ctr_crypt ?E iv (take ?n payload) = Some cs" "length cs = ?n" "ctr_crypt ?E ctr (take ?m T) = Some ts"
      "length ts = ?m"
      "aes_encrypt_ccm M key0 mac0 payload payload_len assoc assoc_len nonce nonce_len out out_len mac_len
        key_str keysize = Some (True, buf_write out 0 (cs @ ts), payload_len + mac_len)"
    using encrypt_ccm_eq [OF assms(1-4) S, of out_len] assms(8) by auto
  let ?c = "buf_write out 0 (cs @ ts)"
  have inv: "ctr_crypt ?E v ys = Some xs" if "ctr_crypt ?E v xs = Some ys" for v xs ys
    using aes.ctr_involution [of "Abs_key_schedule (key, keysize)" v xs] that with_Abs [OF S(2)] by auto
  have c: "take ?n ?c = cs" "take ?m (drop ?n ?c) = ts" "?n + ?m \<le> length ?c"
    using e(3,5) assms(4) by (simp_all add: buf_write_def)
  have F: "?F (take ?n payload) = ?F payload" by (simp add: formatted_def payload_blocks_def)
  have "cbc_last ?E (replicate 16 0) (length (?F (take ?n payload)) div 16) (?F (take ?n payload)) = Some T"
    unfolding F by (rule e(1))
  then have "aes_decrypt_ccm M key0 mac0 mac_buf0 ?c (payload_len + mac_len) assoc assoc_len nonce nonce_len
      plaintext plaintext_len mac_len True key_str keysize =
      Some (True, buf_write plaintext 0 (take ?n payload), payload_len, Some True)"
    using decrypt_ccm_eq [OF assms(1,2) c(3) assms(5-7) S, of "take ?n payload" "take ?m T" T plaintext_len]
      inv [OF e(2)] inv [OF e(4)] c(1,2) by simp
  then show ?thesis using e(6) by blast
qed

text \<open>Arguments for the examples: a 16-byte key and nonce space, three bytes of associated data.\<close>

lemma ccm_args_example:
  "ccm_args (replicate 60 0) (replicate 16 0) payload_len (replicate 20 1) assoc_len (replicate 13 2) 13
     mac_len (replicate 16 3) 128 \<longleftrightarrow>
   valid_mac_len mac_len \<and> assoc_len \<le> 32768 \<and> unat assoc_len \<le> 20 \<and>
   int (unat payload_len) + 40000 \<le> INT_MAX"
  by (auto simp: ccm_args_def valid_keysize_def)

lemma malloc_ok_example: "malloc_ok (\<lambda>n. Some (replicate n 0))"
  by (simp add: malloc_ok_def)

theorem aes_ccm_round_trip_witness:
  "\<exists>c. aes_encrypt_ccm (\<lambda>n. Some (replicate n 0)) (replicate 60 0) (replicate 16 0) [10, 20, 30, 40] 4
      (replicate 20 1) 3 (replicate 13 2) 13 (replicate 20 0) 0 8 (replicate 16 3) 128 = Some (True, c, 12) \<and>
    aes_decrypt_ccm (\<lambda>n. Some (replicate n 0)) (replicate 60 0) (replicate 16 0) (replicate 16 0) c 12
      (replicate 20 1) 3 (replicate 13 2) 13 (replicate 4 0) 0 8 True (replicate 16 3) 128 =
      Some (True, [10, 20, 30, 40], 4, Some True)"
  using aes_ccm_round_trip [of "replicate 60 0" "replicate 16 0" 4 "replicate 20 1" 3 "replicate 13 2" 13 8
      "replicate 16 3" 128 "\<lambda>n. Some (replicate n 0)" "[10, 20, 30, 40]" "replicate 20 0" "replicate 4 0"
      "replicate 16 0" 0 0]
  by (simp add: ccm_args_example malloc_ok_example valid_mac_len_def INT_MAX_def buf_write_def)



text \<open>
  C35 (a write past the allocated buffer). When the associated data is 14 bytes more, and the payload
  1 byte more, than a multiple of 16, the formatted data is one byte longer than the block
  \<open>aes_encrypt_ccm\<close> allocates for it, and the call writes outside that block.
\<close>
theorem aes_ccm_buffer_overflow:
  assumes "ccm_args key0 mac0 payload_len assoc assoc_len nonce nonce_len mac_len key_str keysize"
    "malloc_ok M" "unat payload_len \<le> length payload" "unat payload_len + unat mac_len \<le> length out"
    "unat assoc_len mod 16 = 14" "unat payload_len mod 16 = 1"
  shows "aes_encrypt_ccm M key0 mac0 payload payload_len assoc assoc_len nonce nonce_len out out_len mac_len
    key_str keysize = None"
proof -
  obtain key ctr iv where S: "aes_key_setup key_str key0 keysize = Some key" "key_ok key keysize"
      "ccm_prepare_first_ctr_blk nonce (uint nonce_len) (15 - uint nonce_len) = Some ctr" "length ctr = 16"
      "increment_iv ctr (sint (15 - mac_len)) = Some iv" "length iv = 16"
    using ccm_setup [OF assms(1)] by blast
  then show ?thesis using encrypt_ccm_eq [OF assms(1-4) S, of out_len] assms(5,6) by simp
qed

theorem aes_ccm_buffer_overflow_witness:
  "aes_encrypt_ccm (\<lambda>n. Some (replicate n 0)) (replicate 60 0) (replicate 16 0) [10] 1
    (replicate 20 1) 14 (replicate 13 2) 13 (replicate 20 0) 0 8 (replicate 16 3) 128 = None"
  using aes_ccm_buffer_overflow [of "replicate 60 0" "replicate 16 0" 1 "replicate 20 1" 14 "replicate 13 2" 13 8
      "replicate 16 3" 128 "\<lambda>n. Some (replicate n 0)" "[10]" "replicate 20 0" 0]
  by (simp add: ccm_args_example malloc_ok_example valid_mac_len_def INT_MAX_def)

lemma ctr_crypt_first_block:
  assumes "ctr_crypt E iv xs = Some ys" "E (be_block 16 (be_val iv)) = Some k" "length k = 16" "16 \<le> length xs"
  shows "take 16 ys = xor_bytes k (take 16 xs)"
proof -
  obtain ks where "ys = xor_bytes (k @ ks) xs" using assms(1,2) by (auto simp: ctr_crypt_def bind_eq_Some_conv)
  then show ?thesis using assms(3,4) by (simp add: take_xor_bytes)
qed

lemma xor_bytes_shared:
  "length k = length a \<Longrightarrow> length a = length b \<Longrightarrow>
    xor_bytes (xor_bytes k a) (xor_bytes k b) = xor_bytes a b"
  by (auto simp: xor_bytes_def list_eq_iff_nth_eq xor.assoc xor.left_commute)

text \<open>
  C36 (keystream reuse with a 16-byte MAC). With \<open>mac_len = 16\<close> the counter is not advanced before
  the payload is encrypted, so payload and MAC are encrypted with the same key stream: the
  exclusive-or of the first ciphertext block with the encrypted MAC is that of the first payload
  block with the MAC, whatever the key.
\<close>
theorem aes_ccm_keystream_reuse:
  assumes "ccm_args key0 mac0 payload_len assoc assoc_len nonce nonce_len 16 key_str keysize"
    "malloc_ok M" "unat payload_len \<le> length payload" "unat payload_len + 16 \<le> length out"
    "16 \<le> unat payload_len" "\<not> (unat assoc_len mod 16 = 14 \<and> unat payload_len mod 16 = 1)"
  shows "\<exists>c key T. aes_key_setup key_str key0 keysize = Some key \<and>
    cbc_last (\<lambda>b. aes_encrypt b key keysize) (replicate 16 0)
      (length (formatted payload (unat payload_len) assoc (unat assoc_len) nonce (unat nonce_len) 16) div 16)
      (formatted payload (unat payload_len) assoc (unat assoc_len) nonce (unat nonce_len) 16) = Some T \<and>
    aes_encrypt_ccm M key0 mac0 payload payload_len assoc assoc_len nonce nonce_len out out_len 16
      key_str keysize = Some (True, c, payload_len + 16) \<and>
    xor_bytes (take 16 c) (take 16 (drop (unat payload_len) c)) = xor_bytes (take 16 payload) T"
proof -
  let ?n = "unat payload_len"
  obtain key ctr iv where S: "aes_key_setup key_str key0 keysize = Some key" "key_ok key keysize"
      "ccm_prepare_first_ctr_blk nonce (uint nonce_len) (15 - uint nonce_len) = Some ctr" "length ctr = 16"
      "increment_iv ctr (sint (15 - 16 :: word32)) = Some iv" "length iv = 16"
    using ccm_setup [OF assms(1)] by blast
  have iv: "iv = ctr" using S(5) by (simp add: increment_iv_none)
  let ?E = "\<lambda>b. aes_encrypt b key keysize"
  obtain T cs ts where e: "cbc_last ?E (replicate 16 0)
        (length (formatted payload ?n assoc (unat assoc_len) nonce (unat nonce_len) 16) div 16)
        (formatted payload ?n assoc (unat assoc_len) nonce (unat nonce_len) 16) = Some T" "length T = 16"
      "ctr_crypt ?E iv (take ?n payload) = Some cs" "length cs = ?n" "ctr_crypt ?E ctr T = Some ts" "length ts = 16"
      "aes_encrypt_ccm M key0 mac0 payload payload_len assoc assoc_len nonce nonce_len out out_len 16
        key_str keysize = Some (True, buf_write out 0 (cs @ ts), payload_len + 16)"
    using encrypt_ccm_eq [OF assms(1-3) _ S, of out out_len] assms(4,6) by auto
  obtain k where k: "?E (be_block 16 (be_val ctr)) = Some k" "length k = 16"
    using aes.invertible [of "be_block 16 (be_val ctr)" "Abs_key_schedule (key, keysize)"] with_Abs [OF S(2)]
    by auto
  let ?c = "buf_write out 0 (cs @ ts)"
  have c: "take 16 ?c = take 16 cs" "take 16 (drop ?n ?c) = ts"
    using e(4,6) assms(5) by (simp_all add: buf_write_def)
  have "take 16 cs = xor_bytes k (take 16 payload)"
    using ctr_crypt_first_block [OF e(3) _ k(2)] k(1) assms(3,5) by (simp add: iv min_def)
  moreover have "ts = xor_bytes k T"
    using ctr_crypt_first_block [OF e(5) k] e(2,6) by simp
  ultimately have "xor_bytes (take 16 ?c) (take 16 (drop ?n ?c)) = xor_bytes (take 16 payload) T"
    using k(2) e(2) assms(3,5) unfolding c by (simp add: xor_bytes_shared)
  then show ?thesis using S(1) e(1,7) by blast
qed

theorem aes_ccm_keystream_reuse_witness:
  "\<exists>c T. aes_encrypt_ccm (\<lambda>n. Some (replicate n 0)) (replicate 60 0) (replicate 16 0) (replicate 16 10) 16
      (replicate 20 1) 3 (replicate 13 2) 13 (replicate 40 0) 0 16 (replicate 16 3) 128 = Some (True, c, 32) \<and>
    xor_bytes (take 16 c) (take 16 (drop 16 c)) = xor_bytes (replicate 16 10) T"
  using aes_ccm_keystream_reuse [of "replicate 60 0" "replicate 16 0" 16 "replicate 20 1" 3 "replicate 13 2" 13
      "replicate 16 3" 128 "\<lambda>n. Some (replicate n 0)" "replicate 16 10" "replicate 40 0" 0]
  by (auto simp: ccm_args_example malloc_ok_example valid_mac_len_def INT_MAX_def)

end
