(* ===== verification/Rot13.thy ===== *)
theory Rot13
  imports Prelude
begin

text \<open>
  \<open>rot13\<close> of \<open>crypto-algorithms_learn/rot-13.c\<close>: the rotation of one character with the arithmetic of
  the source, and the loop over a NUL-terminated array of signed characters. \<open>None\<close> is an array
  with no terminator, which \<open>strlen\<close> runs past.
\<close>

section \<open>Definitions\<close>

type_synonym cchar = int

text \<open>The body of the loop, on the value of \<open>str[idx]\<close>.\<close>

definition rot13_char :: "cchar \<Rightarrow> cchar" where
  "rot13_char c =
     (if c < 65 \<or> (c > 90 \<and> c < 97) \<or> c > 122 then c
      else
        let case_type = (if c \<ge> 97 then 97 else 65);
            r = (c + 13) mod (case_type + 26)
        in if r < 26 then r + case_type else r)"

primrec strlen :: "cchar list \<Rightarrow> nat option" where
  "strlen [] = None"
| "strlen (c # cs) = (if c = 0 then Some 0 else map_option Suc (strlen cs))"

function rot13_loop :: "cchar list \<Rightarrow> int \<Rightarrow> nat \<Rightarrow> cchar list option" where
  "rot13_loop str len idx =
     (if int idx < len then do {
        c \<leftarrow> aget str idx;
        str \<leftarrow> aset str idx (rot13_char c);
        rot13_loop str len (idx + 1) }
      else Some str)"
  by pat_completeness auto
termination
  by (relation "measure (\<lambda>(str, len, idx). nat (len - int idx))") auto

definition rot13 :: "cchar list \<Rightarrow> cchar list option" where
  "rot13 str = do { n \<leftarrow> strlen str; rot13_loop str (c_int (int n)) 0 }"

declare rot13_loop.simps [simp del]

section \<open>The loop is a map\<close>

lemma rot13_loop_eq:
  "idx + n \<le> length str \<Longrightarrow> rot13_loop str (int (idx + n)) idx =
    Some (take idx str @ map rot13_char (take n (drop idx str)) @ drop (idx + n) str)"
proof (induction n arbitrary: idx str)
  case 0
  then show ?case by (subst rot13_loop.simps) simp
next
  case (Suc n)
  let ?s = "str[idx := rot13_char (str ! idx)]"
  have i: "idx < length str" using Suc.prems by simp
  then have "rot13_loop str (int (idx + Suc n)) idx = rot13_loop ?s (int (idx + 1 + n)) (idx + 1)"
    by (subst rot13_loop.simps) (simp add: array_simps)
  also have "\<dots> = Some (take (idx + 1) ?s @ map rot13_char (take n (drop (idx + 1) ?s)) @ drop (idx + 1 + n) ?s)"
    using Suc.prems by (intro Suc.IH) simp
  also have "take (idx + 1) ?s = take idx str @ [rot13_char (str ! idx)]"
    using i by (simp add: take_Suc_conv_app_nth)
  also have "drop (idx + 1) ?s = drop (idx + 1) str" by simp
  also have "drop (idx + 1 + n) ?s = drop (idx + Suc n) str" by simp
  finally have run: "rot13_loop str (int (idx + Suc n)) idx = Some ((take idx str @ [rot13_char (str ! idx)]) @
      map rot13_char (take n (drop (idx + 1) str)) @ drop (idx + Suc n) str)" .
  have "drop idx str = str ! idx # drop (idx + 1) str" using i by (simp add: Cons_nth_drop_Suc)
  then have "map rot13_char (take (Suc n) (drop idx str)) =
      rot13_char (str ! idx) # map rot13_char (take n (drop (idx + 1) str))" by simp
  then show ?case using run by simp
qed

lemma strlen_NUL: "0 \<notin> set s \<Longrightarrow> strlen (s @ 0 # t) = Some (length s)"
  by (induction s) auto

lemma rot13_eq:
  assumes "0 \<notin> set s" "int (length s) \<le> INT_MAX"
  shows "rot13 (s @ 0 # t) = Some (map rot13_char s @ 0 # t)"
proof -
  have "c_int (int (length s)) = int (0 + length s)"
    using assms(2) by (simp add: c_int_id INT_MAX_def)
  then show ?thesis
    using assms(1) rot13_loop_eq [of 0 "length s" "s @ 0 # t"] by (simp add: rot13_def strlen_NUL)
qed

section \<open>One character\<close>

lemma int_mod_once:
  assumes "0 < m" "m \<le> x" "x < 2 * m"
  shows "x mod m = x - (m :: int)"
proof -
  have "x mod m = (x - m) mod m" by (simp only: minus_mod_self2)
  also have "\<dots> = x - m" using assms by (intro mod_pos_pos_trivial) auto
  finally show ?thesis .
qed

text \<open>The value of the source's expression for one half of an alphabet that starts at \<open>b\<close>.\<close>

definition rot_half :: "int \<Rightarrow> int \<Rightarrow> int" where
  "rot_half b c = (let r = (c + 13) mod (b + 26) in if r < 26 then r + b else r)"

lemma rot_half_eq:
  assumes "65 \<le> b" "b \<le> c" "c \<le> b + 25"
  shows "rot_half b c = b + (c - b + 13) mod 26"
proof (cases "c < b + 13")
  case True
  have 1: "(c + 13) mod (b + 26) = c + 13" using True assms by (intro mod_pos_pos_trivial) auto
  have 2: "(c - b + 13) mod 26 = c - b + 13" using True assms by (intro mod_pos_pos_trivial) auto
  show ?thesis unfolding rot_half_def Let_def 1 2 using assms by simp
next
  case False
  have 1: "(c + 13) mod (b + 26) = c + 13 - (b + 26)" using assms False by (intro int_mod_once) auto
  have 2: "(c - b + 13) mod 26 = c - b + 13 - 26" using assms False by (intro int_mod_once) auto
  show ?thesis unfolding rot_half_def Let_def 1 2 using assms by simp
qed

lemma rot13_char_half:
  "rot13_char c = (if 65 \<le> c \<and> c \<le> 90 then rot_half 65 c else if 97 \<le> c \<and> c \<le> 122 then rot_half 97 c else c)"
  by (auto simp: rot13_char_def rot_half_def Let_def)

lemma rot13_char_cases:
  "rot13_char c =
     (if 65 \<le> c \<and> c \<le> 90 then 65 + (c - 65 + 13) mod 26
      else if 97 \<le> c \<and> c \<le> 122 then 97 + (c - 97 + 13) mod 26 else c)"
  unfolding rot13_char_half by (intro if_cong refl rot_half_eq) simp_all

lemma rot_twice:
  fixes b c :: int
  assumes "b \<le> c" "c \<le> b + 25"
  defines "y \<equiv> (c - b + 13) mod 26"
  shows "0 \<le> y" "y \<le> 25" "b + (b + y - b + 13) mod 26 = c"
proof -
  show "0 \<le> y" unfolding y_def by (rule pos_mod_sign) simp
  have "y < 26" unfolding y_def by (rule pos_mod_bound) simp
  then show "y \<le> 25" by simp
  have "(b + y - b + 13) mod 26 = (y + 13) mod 26" by (rule arg_cong [of _ _ "\<lambda>z. z mod 26"]) simp
  also have "\<dots> = (c - b + 13 + 13) mod 26" unfolding y_def by (rule mod_add_left_eq)
  also have "\<dots> = (c - b + 26) mod 26" by (rule arg_cong [of _ _ "\<lambda>z. z mod 26"]) simp
  also have "\<dots> = c - b" using assms(1,2) unfolding mod_add_self2 by (intro mod_pos_pos_trivial) auto
  finally show "b + (b + y - b + 13) mod 26 = c" by linarith
qed

lemma rot13_char_twice [simp]: "rot13_char (rot13_char c) = c"
proof -
  consider (up) "65 \<le> c" "c \<le> 90" | (lo) "97 \<le> c" "c \<le> 122"
    | (other) "\<not> (65 \<le> c \<and> c \<le> 90)" "\<not> (97 \<le> c \<and> c \<le> 122)" by blast
  then show ?thesis
  proof cases
    case up
    define y where "y = (c - 65 + 13) mod 26"
    have hi: "c \<le> 65 + 25" using up(2) by simp
    note y = rot_twice [OF up(1) hi, folded y_def]
    have 1: "rot13_char c = 65 + y" unfolding rot13_char_cases [of c] y_def using up by simp
    have 2: "rot13_char (65 + y) = 65 + (65 + y - 65 + 13) mod 26"
      unfolding rot13_char_cases [of "65 + y"] using y(1,2) by simp
    show ?thesis unfolding 1 2 by (rule y(3))
  next
    case lo
    define y where "y = (c - 97 + 13) mod 26"
    have hi: "c \<le> 97 + 25" using lo(2) by simp
    note y = rot_twice [OF lo(1) hi, folded y_def]
    have 1: "rot13_char c = 97 + y" unfolding rot13_char_cases [of c] y_def using lo by simp
    have 2: "rot13_char (97 + y) = 97 + (97 + y - 97 + 13) mod 26"
      unfolding rot13_char_cases [of "97 + y"] using y(1,2) by simp
    show ?thesis unfolding 1 2 by (rule y(3))
  next
    case other
    have "rot13_char c = c" unfolding rot13_char_cases using other by (simp only: if_False)
    then show ?thesis by simp
  qed
qed

lemma rot13_char_eq_0: "rot13_char c = 0 \<longleftrightarrow> c = 0"
proof -
  have "rot13_char 0 = 0" by (simp add: rot13_char_def)
  then show ?thesis by (metis rot13_char_twice)
qed

section \<open>Property\<close>

text \<open>
  Rot13. On a NUL-terminated string \<open>rot13\<close> stays inside it, leaves everything from the
  terminator on alone, turns each letter into the one 13 places on in the alphabet, and a second
  call restores the string.
\<close>
theorem rot13_involution:
  assumes "0 \<notin> set s" "int (length s) \<le> INT_MAX"
  shows "\<exists>r. rot13 (s @ 0 # t) = Some (r @ 0 # t) \<and> rot13 (r @ 0 # t) = Some (s @ 0 # t) \<and>
    r = map (\<lambda>c. if 65 \<le> c \<and> c \<le> 90 then 65 + (c - 65 + 13) mod 26
                 else if 97 \<le> c \<and> c \<le> 122 then 97 + (c - 97 + 13) mod 26 else c) s"
proof -
  have "0 \<notin> set (map rot13_char s)" using assms(1) rot13_char_eq_0 by (metis image_iff list.set_map)
  then have "rot13 (map rot13_char s @ 0 # t) = Some (s @ 0 # t)"
    using rot13_eq [of "map rot13_char s" t] assms(2) by (simp add: comp_def)
  then have "rot13 (s @ 0 # t) = Some (map rot13_char s @ 0 # t) \<and>
      rot13 (map rot13_char s @ 0 # t) = Some (s @ 0 # t) \<and> map rot13_char s = map rot13_char s"
    using rot13_eq [OF assms, of t] by blast
  then show ?thesis unfolding rot13_char_cases by blast
qed

theorem rot13_involution_witness:
  "\<exists>r. rot13 ([72, 105, 33] @ 0 # [5]) = Some (r @ 0 # [5]) \<and>
    rot13 (r @ 0 # [5]) = Some ([72, 105, 33] @ 0 # [5]) \<and> r = [85, 118, 33]"
  using rot13_involution [of "[72, 105, 33]" "[5]"] by (simp add: INT_MAX_def)

end
