(* ===== verification/Arcfour.thy ===== *)
theory Arcfour
  imports CBuffer
begin

text \<open>
  The ARCFOUR stream cipher of \<open>crypto-algorithms_learn/arcfour.c\<close>: key setup and stream generation
  on the 256-byte state array, the textbook algorithm on a permutation of the bytes, and the proof
  that the code implements it. \<open>None\<close> is an access outside an array or a division by zero.
\<close>

section \<open>Definitions\<close>

text \<open>\<open>t = state[i]; state[i] = state[j]; state[j] = t;\<close>\<close>

definition swap_bytes :: "byte list \<Rightarrow> nat \<Rightarrow> nat \<Rightarrow> byte list option" where
  "swap_bytes state i j = do {
     t \<leftarrow> aget state i;
     s \<leftarrow> aget state j;
     state \<leftarrow> aset state i s;
     aset state j t }"

text \<open>\<open>key[i % len]\<close>: the remainder of a non-negative \<open>i\<close>, undefined for \<open>len = 0\<close>.\<close>

definition key_at :: "byte list \<Rightarrow> int \<Rightarrow> nat \<Rightarrow> byte option" where
  "key_at key len i = (if len = 0 then None else aget key (nat (int i mod \<bar>len\<bar>)))"

function fill_loop :: "byte list \<Rightarrow> nat \<Rightarrow> byte list option" where
  "fill_loop state i =
     (if i < 256 then do {
        state \<leftarrow> aset state i (of_nat i);
        fill_loop state (i + 1) }
      else Some state)"
  by pat_completeness auto
termination
  by (relation "measure (\<lambda>(state, i). 256 - i)") auto

function mix_loop :: "byte list \<Rightarrow> int \<Rightarrow> byte list \<Rightarrow> nat \<Rightarrow> nat \<Rightarrow> byte list option" where
  "mix_loop key len state i j =
     (if i < 256 then do {
        s \<leftarrow> aget state i;
        k \<leftarrow> key_at key len i;
        let j = (j + unat s + unat k) mod 256;
        state \<leftarrow> swap_bytes state i j;
        mix_loop key len state (i + 1) j }
      else Some state)"
  by pat_completeness auto
termination
  by (relation "measure (\<lambda>(key, len, state, i, j). 256 - i)") auto

definition arcfour_key_setup :: "byte list \<Rightarrow> byte list \<Rightarrow> int \<Rightarrow> byte list option" where
  "arcfour_key_setup state key len = do {
     state \<leftarrow> fill_loop state 0;
     mix_loop key len state 0 0 }"

function stream_loop ::
  "nat \<Rightarrow> byte list \<Rightarrow> byte list \<Rightarrow> nat \<Rightarrow> nat \<Rightarrow> nat \<Rightarrow> (byte list \<times> byte list) option" where
  "stream_loop len state out idx i j =
     (if idx < len then do {
        let i = (i + 1) mod 256;
        s \<leftarrow> aget state i;
        let j = (j + unat s) mod 256;
        state \<leftarrow> swap_bytes state i j;
        a \<leftarrow> aget state i;
        b \<leftarrow> aget state j;
        c \<leftarrow> aget state ((unat a + unat b) mod 256);
        out \<leftarrow> aset out idx c;
        stream_loop len state out (idx + 1) i j }
      else Some (state, out))"
  by pat_completeness auto
termination
  by (relation "measure (\<lambda>(len, state, out, idx, i, j). len - idx)") auto

definition arcfour_generate_stream ::
  "byte list \<Rightarrow> byte list \<Rightarrow> nat \<Rightarrow> (byte list \<times> byte list) option" where
  "arcfour_generate_stream state out len = stream_loop len state out 0 0 0"

declare fill_loop.simps [simp del] mix_loop.simps [simp del] stream_loop.simps [simp del]

section \<open>The textbook algorithm\<close>

text \<open>The cipher on a permutation \<open>S\<close> of the bytes, with indices that wrap at 256.\<close>

definition swap_at :: "(byte \<Rightarrow> byte) \<Rightarrow> byte \<Rightarrow> byte \<Rightarrow> byte \<Rightarrow> byte" where
  "swap_at S i j = S(i := S j, j := S i)"

definition ksa_step :: "(byte \<Rightarrow> byte) \<Rightarrow> byte \<Rightarrow> (byte \<Rightarrow> byte) \<times> byte \<Rightarrow> (byte \<Rightarrow> byte) \<times> byte" where
  "ksa_step K i = (\<lambda>(S, j). (swap_at S i (j + S i + K i), j + S i + K i))"

definition ksa :: "(byte \<Rightarrow> byte) \<Rightarrow> byte \<Rightarrow> byte" where
  "ksa K = fst (fold (ksa_step K) (map of_nat [0..<256]) (id, 0))"

primrec prga :: "nat \<Rightarrow> (byte \<Rightarrow> byte) \<Rightarrow> byte \<Rightarrow> byte \<Rightarrow> byte list" where
  "prga 0 S i j = []"
| "prga (Suc n) S i j =
     (let i' = i + 1; j' = j + S i'; S' = swap_at S i' j' in S' (S' i' + S' j') # prga n S' i' j')"

text \<open>The permutation those \<open>n\<close> steps leave behind.\<close>

primrec prga_perm :: "nat \<Rightarrow> (byte \<Rightarrow> byte) \<Rightarrow> byte \<Rightarrow> byte \<Rightarrow> byte \<Rightarrow> byte" where
  "prga_perm 0 S i j = S"
| "prga_perm (Suc n) S i j =
     (let i' = i + 1; j' = j + S i' in prga_perm n (swap_at S i' j') i' j')"

lemma length_prga [simp]: "length (prga n S i j) = n"
  by (induction n arbitrary: S i j) (simp_all add: Let_def)

lemma bij_swap_at:
  assumes "bij S"
  shows "bij (swap_at S i j)"
proof -
  have S: "S x = S y \<longleftrightarrow> x = y" for x y using assms by (auto simp: bij_def inj_eq)
  have "inj (swap_at S i j)"
    by (rule injI) (simp add: swap_at_def fun_upd_def S split: if_splits)
  then show ?thesis by (simp add: bij_def finite_UNIV_inj_surj)
qed

lemma bij_prga_perm: "bij S \<Longrightarrow> bij (prga_perm n S i j)"
  by (induction n arbitrary: S i j) (simp_all add: Let_def bij_swap_at)

lemma bij_ksa_fold: "bij (fst Sj) \<Longrightarrow> bij (fst (fold (ksa_step K) is Sj))"
  by (induction "is" arbitrary: Sj) (auto simp: ksa_step_def bij_swap_at split: prod.splits)

lemma bij_ksa: "bij (ksa K)"
  unfolding ksa_def by (rule bij_ksa_fold) simp

section \<open>The state array as a permutation\<close>

definition perm_of :: "byte list \<Rightarrow> byte \<Rightarrow> byte" where
  "perm_of state b = state ! unat b"

declare unat_byte_less [simp]

lemma unat_of_nat_byte: "i < 256 \<Longrightarrow> unat (of_nat i :: byte) = i"
  by (simp add: unat_of_nat)

lemma perm_of_nat: "i < 256 \<Longrightarrow> perm_of state (of_nat i) = state ! i"
  by (simp add: perm_of_def unat_of_nat_byte)

lemma of_nat_mod_256: "(of_nat (n mod 256) :: byte) = of_nat n"
  by (simp add: word_of_nat_eq_iff take_bit_eq_mod)

lemma unat_add_byte: "(unat a + unat b) mod 256 = unat (a + b :: byte)"
  by (simp add: unat_word_ariths)

lemma perm_of_update:
  assumes "length state = 256" "i < 256"
  shows "perm_of (state[i := v]) = (perm_of state)(of_nat i := v)"
proof
  fix b :: byte
  have "unat b = i \<longleftrightarrow> b = of_nat i" using assms(2) unat_of_nat_byte by auto
  then show "perm_of (state[i := v]) b = ((perm_of state)(of_nat i := v)) b"
    using assms by (auto simp: perm_of_def nth_list_update)
qed

lemma swap_bytes_eq:
  assumes "length state = 256" "i < 256" "j < 256"
  obtains state' where "swap_bytes state i j = Some state'" "length state' = 256"
    "perm_of state' = swap_at (perm_of state) (of_nat i) (of_nat j)"
proof
  show "swap_bytes state i j = Some (state[i := state ! j, j := state ! i])"
    using assms by (simp add: swap_bytes_def array_simps)
  show "perm_of (state[i := state ! j, j := state ! i]) =
      swap_at (perm_of state) (of_nat i) (of_nat j)"
    using assms by (simp add: perm_of_update perm_of_nat swap_at_def)
qed (use assms in simp)

section \<open>The code implements the algorithm\<close>

lemma map_upt_step: "i < 256 \<Longrightarrow> map of_nat [i..<256] = (of_nat i :: byte) # map of_nat [i + 1..<256]"
  by (simp only: upt_conv_Cons list.map Suc_eq_plus1)

lemma fill_loop_eq:
  assumes "length state = 256" "i \<le> 256"
  shows "fill_loop state i = Some (take i state @ map of_nat [i..<256])"
  using assms
proof (induction "256 - i" arbitrary: i state)
  case 0
  then have "i = 256" by simp
  with 0 show ?case by (subst fill_loop.simps) (simp del: upt_rec_numeral)
next
  case (Suc n)
  then have i: "i < 256" by simp
  have "fill_loop state i = fill_loop (state[i := of_nat i]) (i + 1)"
    using i Suc.prems by (subst fill_loop.simps) (simp add: array_simps)
  also have "\<dots> = Some (take (i + 1) (state[i := of_nat i]) @ map of_nat [i + 1..<256])"
    using Suc.prems Suc.hyps(2) i by (intro Suc.hyps(1)) simp_all
  also have "take (i + 1) (state[i := of_nat i]) = take i state @ [of_nat i]"
    using i Suc.prems by (simp add: take_Suc_conv_app_nth)
  also have "\<dots> @ map of_nat [i + 1..<256] = take i state @ map of_nat [i..<256]"
    by (simp only: map_upt_step [OF i] append_assoc append_Cons append_Nil)
  finally show ?case .
qed

lemma perm_of_identity: "perm_of (map of_nat [0..<256]) = id"
  by (simp add: perm_of_def fun_eq_iff del: upt_rec_numeral)

lemma mix_loop_eq:
  assumes key: "\<And>i. i < 256 \<Longrightarrow> key_at key len i = Some (K (of_nat i))"
    and "length state = 256" "i \<le> 256" "j < 256"
  shows "\<exists>state'. mix_loop key len state i j = Some state' \<and> length state' = 256 \<and>
    perm_of state' = fst (fold (ksa_step K) (map of_nat [i..<256]) (perm_of state, of_nat j))"
  using assms(2-)
proof (induction "256 - i" arbitrary: i j state)
  case 0
  then have "i = 256" by simp
  with 0 show ?case by (subst mix_loop.simps) (simp del: upt_rec_numeral)
next
  case (Suc n)
  then have i: "i < 256" by simp
  define j' where "j' = (j + unat (state ! i) + unat (K (of_nat i))) mod 256"
  have j': "j' < 256" by (simp add: j'_def)
  have w: "(of_nat j' :: byte) = of_nat j + perm_of state (of_nat i) + K (of_nat i)"
    unfolding j'_def of_nat_mod_256 using i by (simp add: perm_of_nat)
  obtain st where st: "swap_bytes state i j' = Some st" "length st = 256"
      "perm_of st = swap_at (perm_of state) (of_nat i) (of_nat j')"
    using swap_bytes_eq [OF Suc.prems(1) i j'] .
  have "mix_loop key len state i j = mix_loop key len st (i + 1) j'"
    using i Suc.prems st(1) by (subst mix_loop.simps) (simp add: key array_simps j'_def [symmetric])
  moreover have "\<exists>state'. mix_loop key len st (i + 1) j' = Some state' \<and> length state' = 256 \<and>
      perm_of state' = fst (fold (ksa_step K) (map of_nat [i + 1..<256]) (perm_of st, of_nat j'))"
    using Suc.hyps(2) i st(2) j' by (intro Suc.hyps(1)) simp_all
  moreover note map_upt_step [OF i]
  ultimately show ?case by (simp add: ksa_step_def st(3) w del: upt_rec_numeral)
qed

lemma key_at_eq:
  assumes "0 < len" "len \<le> int (length key)" "i < 256"
  shows "key_at key len i = Some (key ! (unat (of_nat i :: byte) mod nat len))"
proof -
  have "nat (int i mod len) = i mod nat len" using assms(1) by (simp add: nat_mod_distrib)
  moreover have "i mod nat len < length key"
    using assms(1,2) by (intro less_le_trans [OF mod_less_divisor]) simp_all
  ultimately show ?thesis
    using assms(1,3) by (simp add: key_at_def unat_of_nat_byte array_simps)
qed

lemma stream_loop_eq:
  assumes "length state = 256" "idx + n \<le> length out" "i < 256" "j < 256"
  shows "\<exists>state'. length state' = 256 \<and>
    perm_of state' = prga_perm n (perm_of state) (of_nat i) (of_nat j) \<and>
    stream_loop (idx + n) state out idx i j =
      Some (state', take idx out @ prga n (perm_of state) (of_nat i) (of_nat j) @ drop (idx + n) out)"
  using assms
proof (induction n arbitrary: idx i j state out)
  case 0
  then show ?case by (subst stream_loop.simps) auto
next
  case (Suc n)
  define i' where "i' = Suc i mod 256"
  define j' where "j' = (j + unat (state ! i')) mod 256"
  have less: "i' < 256" "j' < 256" by (simp_all add: i'_def j'_def)
  have wi: "(of_nat i' :: byte) = of_nat i + 1" unfolding i'_def of_nat_mod_256 by simp
  have wj: "(of_nat j' :: byte) = of_nat j + perm_of state (of_nat i')"
    unfolding j'_def of_nat_mod_256 using less by (simp add: perm_of_nat)
  obtain st where st: "swap_bytes state i' j' = Some st" "length st = 256"
      "perm_of st = swap_at (perm_of state) (of_nat i') (of_nat j')"
    using swap_bytes_eq [OF Suc.prems(1) less] .
  define c where "c = perm_of st (perm_of st (of_nat i') + perm_of st (of_nat j'))"
  have c: "st ! ((unat (st ! i') + unat (st ! j')) mod 256) = c"
    using less by (simp add: c_def perm_of_nat unat_add_byte) (simp add: perm_of_def)
  have "stream_loop (idx + Suc n) state out idx i j =
      stream_loop (idx + 1 + n) st (out[idx := c]) (idx + 1) i' j'"
    using Suc.prems less st(1,2)
    by (subst stream_loop.simps)
      (simp add: Let_def array_simps c i'_def [symmetric] j'_def [symmetric])
  moreover obtain state' where "length state' = 256"
      "perm_of state' = prga_perm n (perm_of st) (of_nat i') (of_nat j')"
      "stream_loop (idx + 1 + n) st (out[idx := c]) (idx + 1) i' j' =
      Some (state', take (idx + 1) (out[idx := c]) @ prga n (perm_of st) (of_nat i') (of_nat j') @
        drop (idx + 1 + n) (out[idx := c]))"
    using Suc.IH [of st "idx + 1" "out[idx := c]" i' j'] Suc.prems less st by auto
  moreover have "take (idx + 1) (out[idx := c]) = take idx out @ [c]"
    using Suc.prems by (simp add: take_Suc_conv_app_nth)
  moreover have "prga (Suc n) (perm_of state) (of_nat i) (of_nat j) =
      c # prga n (perm_of st) (of_nat i') (of_nat j')"
    by (simp only: prga.simps Let_def c_def st(3) wi wj)
  moreover have "prga_perm (Suc n) (perm_of state) (of_nat i) (of_nat j) =
      prga_perm n (perm_of st) (of_nat i') (of_nat j')"
    by (simp only: prga_perm.simps Let_def st(3) wi wj)
  ultimately show ?case by (intro exI [of _ state']) simp
qed

section \<open>Properties\<close>

text \<open>
  C31 (key setup). For a key of at least \<open>len > 0\<close> bytes, whatever the array held, \<open>arcfour_key_setup\<close>
  stays in bounds and leaves the permutation of the key scheduling algorithm in the state: every
  byte value occurs exactly once.
\<close>
theorem arcfour_key_setup_ksa:
  assumes "length state = 256" "0 < len" "len \<le> int (length key)"
  shows "\<exists>state'. arcfour_key_setup state key len = Some state' \<and> length state' = 256 \<and>
    perm_of state' = ksa (\<lambda>b. key ! (unat b mod nat len)) \<and> bij (perm_of state')"
proof -
  have "fill_loop state 0 = Some (map of_nat [0..<256])" using fill_loop_eq [of state 0] assms(1) by (simp del: upt_rec_numeral)
  moreover have "\<exists>state'. mix_loop key len (map of_nat [0..<256]) 0 0 = Some state' \<and> length state' = 256 \<and>
      perm_of state' = fst (fold (ksa_step (\<lambda>b. key ! (unat b mod nat len))) (map of_nat [0..<256])
        (perm_of (map of_nat [0..<256]), of_nat 0))"
    by (rule mix_loop_eq) (simp_all add: key_at_eq [OF assms(2,3)] del: upt_rec_numeral)
  ultimately show ?thesis
    by (auto simp: arcfour_key_setup_def perm_of_identity ksa_def [symmetric] bij_ksa
        simp del: upt_rec_numeral)
qed

theorem arcfour_key_setup_ksa_witness:
  "\<exists>state'. arcfour_key_setup (replicate 256 7) [75, 101, 121] 3 = Some state' \<and> length state' = 256 \<and>
    perm_of state' = ksa (\<lambda>b. [75, 101, 121] ! (unat b mod nat 3)) \<and> bij (perm_of state')"
  by (rule arcfour_key_setup_ksa) simp_all

text \<open>
  C32 (stream generation). On a state that is a permutation, \<open>arcfour_generate_stream\<close> writes exactly
  the first \<open>len\<close> bytes of the ARCFOUR output of that permutation to the start of \<open>out\<close>, leaves the
  rest of \<open>out\<close> alone, and leaves the permutation the algorithm has reached in the state.
\<close>
theorem arcfour_generate_stream_prga:
  assumes "length state = 256" "bij (perm_of state)" "len \<le> length out"
  shows "\<exists>state'. arcfour_generate_stream state out len =
      Some (state', prga len (perm_of state) 0 0 @ drop len out) \<and>
    length state' = 256 \<and> perm_of state' = prga_perm len (perm_of state) 0 0 \<and> bij (perm_of state')"
  using stream_loop_eq [of state 0 len out 0 0] assms
  by (auto simp: arcfour_generate_stream_def bij_prga_perm)

theorem arcfour_generate_stream_prga_witness:
  "\<exists>state'. arcfour_generate_stream (map of_nat [0..<256]) [9, 9, 9] 2 =
      Some (state', prga 2 (perm_of (map of_nat [0..<256])) 0 0 @ drop 2 [9, 9, 9]) \<and>
    length state' = 256 \<and> perm_of state' = prga_perm 2 (perm_of (map of_nat [0..<256])) 0 0 \<and>
    bij (perm_of state')"
  by (rule arcfour_generate_stream_prga) (simp_all add: perm_of_identity del: upt_rec_numeral)

text \<open>
  Calls are not independent. The stream depends on the earlier calls: on the identity
  permutation a first call for two bytes produces 2, 5, and the same call repeated on the state it
  leaves starts with 3. The comment in the source says no state is held between calls.
\<close>
theorem arcfour_generate_stream_stateful:
  "(case arcfour_generate_stream (map of_nat [0..<256]) [0, 0] 2 of
      None \<Rightarrow> None
    | Some (state', out) \<Rightarrow> Some (out, map_option snd (arcfour_generate_stream state' [0] 1))) =
   Some ([2, 5], Some [3])"
proof -
  define I :: "byte list" where "I = map of_nat [0..<256]"
  have I: "length I = 256" "perm_of I = id"
    by (simp_all add: I_def perm_of_identity del: upt_rec_numeral)
  have "prga (Suc (Suc 0)) id 0 0 = [2, 5]" "prga 1 (prga_perm (Suc (Suc 0)) id 0 0) 0 0 = [3]"
    by (simp_all add: Let_def swap_at_def)
  note S = this [folded numeral_2_eq_2]
  obtain st where st: "stream_loop 2 I [0, 0] 0 0 0 = Some (st, [2, 5])" "length st = 256"
      "perm_of st = prga_perm 2 id 0 0"
    using stream_loop_eq [of I 0 2 "[0, 0]" 0 0] I S(1) by (auto simp: numeral_2_eq_2)
  obtain st' where "stream_loop 1 st [0] 0 0 0 = Some (st', [3])"
    using stream_loop_eq [of st 0 1 "[0]" 0 0] st(2,3) S(2) by auto
  then show ?thesis
    unfolding I_def [symmetric] arcfour_generate_stream_def st(1) by simp
qed

end
