(* ===== verification/Base64.thy ===== *)
theory Base64
  imports CBuffer
begin

text \<open>
  Base64 of \<open>crypto-algorithms_learn/base64.c\<close>: encoding and decoding over the caller's arrays, the
  size queries with \<open>out = NULL\<close> included, the text of the standard as the reference definition, and
  the round trip. \<open>None\<close> is an access outside an array; a \<open>NULL\<close> output array is \<open>None\<close> as an argument.
\<close>

section \<open>Definitions\<close>

definition charset :: "byte list" where
  "charset = map of_char ''ABCDEFGHIJKLMNOPQRSTUVWXYZabcdefghijklmnopqrstuvwxyz0123456789+/'' @ [0]"

definition NEWLINE_INVL :: nat where
  "NEWLINE_INVL = 76"

text \<open>The parameter is a signed \<open>char\<close>; the result is converted to a \<open>BYTE\<close>.\<close>

definition revchar :: "int \<Rightarrow> byte" where
  "revchar ch = word_of_int
     (if 65 \<le> ch \<and> ch \<le> 90 then ch - 65
      else if 97 \<le> ch \<and> ch \<le> 122 then ch - 97 + 26
      else if 48 \<le> ch \<and> ch \<le> 57 then ch - 48 + 52
      else if ch = 43 then 62
      else if ch = 47 then 63
      else ch)"

text \<open>A \<open>size_t\<close> result.\<close>

definition size_t :: "nat \<Rightarrow> nat" where
  "size_t n = n mod 2 ^ 64"

definition sym :: "byte \<Rightarrow> byte option" where
  "sym i = aget charset (unat i)"

function encode_loop :: "byte list \<Rightarrow> nat \<Rightarrow> int \<Rightarrow> byte list \<Rightarrow> nat \<Rightarrow> nat \<Rightarrow> nat \<Rightarrow>
    (byte list \<times> nat \<times> nat) option" where
  "encode_loop input blk_ceiling newline_flag out idx idx2 newline_count =
     (if idx < blk_ceiling then do {
        a \<leftarrow> aget input idx;
        b \<leftarrow> aget input (idx + 1);
        c \<leftarrow> aget input (idx + 2);
        v \<leftarrow> sym (drop_bit 2 a);
        out \<leftarrow> aset out idx2 v;
        v \<leftarrow> sym (push_bit 4 (a AND 0x03) OR drop_bit 4 b);
        out \<leftarrow> aset out (idx2 + 1) v;
        v \<leftarrow> sym (push_bit 2 (b AND 0x0f) OR drop_bit 6 c);
        out \<leftarrow> aset out (idx2 + 2) v;
        v \<leftarrow> sym (c AND 0x3F);
        out \<leftarrow> aset out (idx2 + 3) v;
        if (idx2 - newline_count + 4) mod NEWLINE_INVL = 0 \<and> newline_flag \<noteq> 0 then do {
          out \<leftarrow> aset out (idx2 + 4) 10;
          encode_loop input blk_ceiling newline_flag out (idx + 3) (idx2 + 1 + 4) (newline_count + 1) }
        else encode_loop input blk_ceiling newline_flag out (idx + 3) (idx2 + 4) newline_count }
      else Some (out, idx, idx2))"
  by pat_completeness auto
termination
  by (relation "measure (\<lambda>(input, blk_ceiling, newline_flag, out, idx, idx2, newline_count). blk_ceiling - idx)") auto

definition encode_rest :: "byte list \<Rightarrow> nat \<Rightarrow> byte list \<Rightarrow> nat \<Rightarrow> nat \<Rightarrow> (byte list \<times> nat) option" where
  "encode_rest input left_over out idx idx2 =
     (if left_over = 1 then do {
        a \<leftarrow> aget input idx;
        v \<leftarrow> sym (drop_bit 2 a);
        out \<leftarrow> aset out idx2 v;
        v \<leftarrow> sym (push_bit 4 (a AND 0x03));
        out \<leftarrow> aset out (idx2 + 1) v;
        out \<leftarrow> aset out (idx2 + 2) 61;
        out \<leftarrow> aset out (idx2 + 3) 61;
        Some (out, idx2 + 4) }
      else if left_over = 2 then do {
        a \<leftarrow> aget input idx;
        b \<leftarrow> aget input (idx + 1);
        v \<leftarrow> sym (drop_bit 2 a);
        out \<leftarrow> aset out idx2 v;
        v \<leftarrow> sym (push_bit 4 (a AND 0x03) OR drop_bit 4 b);
        out \<leftarrow> aset out (idx2 + 1) v;
        v \<leftarrow> sym (push_bit 2 (b AND 0x0F));
        out \<leftarrow> aset out (idx2 + 2) v;
        out \<leftarrow> aset out (idx2 + 3) 61;
        Some (out, idx2 + 4) }
      else Some (out, idx2))"

definition base64_encode ::
  "byte list \<Rightarrow> byte list option \<Rightarrow> nat \<Rightarrow> int \<Rightarrow> (byte list option \<times> nat) option" where
  "base64_encode input out len newline_flag =
     (let blks = len div 3; left_over = len mod 3
      in case out of
        None \<Rightarrow>
          let idx2 = size_t (blks * 4);
              idx2 = (if left_over \<noteq> 0 then size_t (idx2 + 4) else idx2);
              idx2 = (if newline_flag \<noteq> 0 then size_t (idx2 + len div 57) else idx2)
          in Some (None, idx2)
      | Some out \<Rightarrow> do {
          (out, idx, idx2) \<leftarrow> encode_loop input (blks * 3) newline_flag out 0 0 0;
          (out, idx2) \<leftarrow> encode_rest input left_over out idx idx2;
          Some (Some out, idx2) })"

text \<open>\<open>revchar(in[i])\<close>: the byte is converted to a signed character.\<close>

definition rev_at :: "byte list \<Rightarrow> nat \<Rightarrow> byte option" where
  "rev_at input i = map_option (\<lambda>b. revchar (sint b)) (aget input i)"

function decode_loop :: "byte list \<Rightarrow> nat \<Rightarrow> byte list \<Rightarrow> nat \<Rightarrow> nat \<Rightarrow> (byte list \<times> nat \<times> nat) option" where
  "decode_loop input blk_ceiling out idx idx2 =
     (if idx2 < blk_ceiling then do {
        ch \<leftarrow> aget input idx2;
        let idx2 = (if ch = 10 then idx2 + 1 else idx2);
        w \<leftarrow> rev_at input idx2;
        x \<leftarrow> rev_at input (idx2 + 1);
        y \<leftarrow> rev_at input (idx2 + 2);
        z \<leftarrow> rev_at input (idx2 + 3);
        out \<leftarrow> aset out idx (push_bit 2 w OR drop_bit 4 (x AND 0x30));
        out \<leftarrow> aset out (idx + 1) (push_bit 4 x OR drop_bit 2 y);
        out \<leftarrow> aset out (idx + 2) (push_bit 6 y OR z);
        decode_loop input blk_ceiling out (idx + 3) (idx2 + 4) }
      else Some (out, idx, idx2))"
  by pat_completeness auto
termination
  by (relation "measure (\<lambda>(input, blk_ceiling, out, idx, idx2). blk_ceiling - idx2)") (auto split: if_splits)

definition decode_rest :: "byte list \<Rightarrow> nat \<Rightarrow> byte list \<Rightarrow> nat \<Rightarrow> nat \<Rightarrow> (byte list \<times> nat) option" where
  "decode_rest input left_over out idx idx2 =
     (if left_over = 2 then do {
        w \<leftarrow> rev_at input idx2;
        x \<leftarrow> rev_at input (idx2 + 1);
        out \<leftarrow> aset out idx (push_bit 2 w OR drop_bit 4 (x AND 0x30));
        Some (out, idx + 1) }
      else if left_over = 3 then do {
        w \<leftarrow> rev_at input idx2;
        x \<leftarrow> rev_at input (idx2 + 1);
        y \<leftarrow> rev_at input (idx2 + 2);
        out \<leftarrow> aset out idx (push_bit 2 w OR drop_bit 4 (x AND 0x30));
        out \<leftarrow> aset out (idx + 1) (push_bit 4 x OR drop_bit 2 y);
        Some (out, idx + 2) }
      else Some (out, idx))"

text \<open>\<open>if (in[len - 1] == '=') len--;\<close>, where \<open>len = 0\<close> wraps to an index no array has.\<close>

definition strip_pad :: "byte list \<Rightarrow> nat \<Rightarrow> nat option" where
  "strip_pad input len = (if len = 0 then None else do {
     ch \<leftarrow> aget input (len - 1);
     Some (if ch = 61 then len - 1 else len) })"

definition decode_size :: "byte list \<Rightarrow> nat \<Rightarrow> nat option" where
  "decode_size input len = do {
     len \<leftarrow> (if len \<ge> 77 then do {
         ch \<leftarrow> aget input NEWLINE_INVL;
         Some (if ch = 10 then len - len div (NEWLINE_INVL + 1) else len) }
       else Some len);
     let blks = len div 4;
     let left_over = len mod 4;
     Some (if left_over = 2 then blks * 3 + 1
       else if left_over = 3 then blks * 3 + 2
       else blks * 3) }"

definition base64_decode ::
  "byte list \<Rightarrow> byte list option \<Rightarrow> nat \<Rightarrow> (byte list option \<times> nat) option" where
  "base64_decode input out len = do {
     len \<leftarrow> strip_pad input len;
     len \<leftarrow> strip_pad input len;
     let blks = len div 4;
     let left_over = len mod 4;
     case out of
       None \<Rightarrow> do { idx \<leftarrow> decode_size input len; Some (None, idx) }
     | Some out \<Rightarrow> do {
         (out, idx, idx2) \<leftarrow> decode_loop input (blks * 4) out 0 0;
         (out, idx) \<leftarrow> decode_rest input left_over out idx idx2;
         Some (Some out, idx) } }"

declare encode_loop.simps [simp del] decode_loop.simps [simp del]

section \<open>The reference text\<close>

definition b64_char :: "byte \<Rightarrow> byte" where
  "b64_char i = charset ! unat i"

definition quad :: "byte \<Rightarrow> byte \<Rightarrow> byte \<Rightarrow> byte list" where
  "quad a b c = map b64_char
     [drop_bit 2 a, push_bit 4 (a AND 0x03) OR drop_bit 4 b,
      push_bit 2 (b AND 0x0f) OR drop_bit 6 c, c AND 0x3F]"

text \<open>
  The groups of four characters for the whole triples of the data; with \<open>nl\<close> a newline follows
  every nineteenth group (76 characters). \<open>k\<close> counts the groups already written.
\<close>

fun b64_groups :: "bool \<Rightarrow> nat \<Rightarrow> byte list \<Rightarrow> byte list" where
  "b64_groups nl k (a # b # c # xs) =
     quad a b c @ (if nl \<and> Suc k mod 19 = 0 then [10] else []) @ b64_groups nl (Suc k) xs"
| "b64_groups nl k _ = []"

text \<open>The characters for the one or two bytes left over, without and with padding.\<close>

fun b64_last :: "byte list \<Rightarrow> byte list" where
  "b64_last [a] = take 2 (quad a 0 0)"
| "b64_last [a, b] = take 3 (quad a b 0)"
| "b64_last _ = []"

definition b64_tail :: "byte list \<Rightarrow> byte list" where
  "b64_tail xs = (if xs = [] then [] else b64_last xs @ replicate (4 - length (b64_last xs)) 61)"

definition b64 :: "bool \<Rightarrow> byte list \<Rightarrow> byte list" where
  "b64 nl xs = b64_groups nl 0 xs @ b64_tail (drop (length xs div 3 * 3) xs)"

section \<open>Characters and indices\<close>

lemma unat_less_64: "take_bit 6 (x :: byte) = x \<Longrightarrow> unat x < 64"
proof -
  assume "take_bit 6 x = x"
  then have "unat x = take_bit 6 (unat x)" by (metis unsigned_take_bit_eq)
  also have "\<dots> < 64" by (simp add: take_bit_eq_mod)
  finally show ?thesis .
qed

lemma low_bits: "a AND 3 = take_bit 2 a" "a AND 15 = take_bit 4 a" "a AND 63 = take_bit 6 (a :: byte)"
  by (simp_all add: take_bit_eq_mask mask_eq_exp_minus_1)

lemma index_bits:
  fixes a b :: byte
  shows "take_bit 6 (drop_bit 2 a) = drop_bit 2 a"
    and "take_bit 6 (push_bit 4 (a AND 3) OR drop_bit 4 b) = push_bit 4 (a AND 3) OR drop_bit 4 b"
    and "take_bit 6 (push_bit 2 (a AND 15) OR drop_bit 6 b) = push_bit 2 (a AND 15) OR drop_bit 6 b"
    and "take_bit 6 (a AND 63) = a AND 63"
    unfolding low_bits by (rule byte_eqI, auto simp: bit_simps bit_byte_high)+

lemma charset_eq: "charset = [65, 66, 67, 68, 69, 70, 71, 72, 73, 74, 75, 76, 77, 78, 79, 80, 81, 82, 83, 84, 85, 86, 87, 88, 89, 90, 97, 98, 99, 100, 101, 102, 103, 104, 105, 106, 107, 108, 109, 110, 111, 112, 113, 114, 115, 116, 117, 118, 119, 120, 121, 122, 48, 49, 50, 51, 52, 53, 54, 55, 56, 57, 43, 47, 0]"
  by (simp add: charset_def)

lemma revchar_charset: "map (\<lambda>b. revchar (sint b)) (take 64 charset) = map of_nat [0..<64]"
  by (simp add: charset_eq revchar_def upt_rec)

lemma charset_marks: "10 \<notin> set charset" "61 \<notin> set charset"
  by (simp_all add: charset_eq)

lemma length_charset [simp]: "length charset = 65"
  by (simp add: charset_eq)

lemma revchar_b64_char: "unat i < 64 \<Longrightarrow> revchar (sint (b64_char i)) = i"
  using arg_cong [OF revchar_charset, of "\<lambda>xs. xs ! unat i"] by (simp add: b64_char_def)

lemma b64_char_marks: "b64_char i \<noteq> 10 \<and> b64_char i \<noteq> 61" if "unat i < 64"
proof -
  have "b64_char i \<in> set charset" using that by (simp add: b64_char_def)
  then show ?thesis using charset_marks by metis
qed

lemma sym_eq: "unat i < 64 \<Longrightarrow> sym i = Some (b64_char i)"
  by (simp add: sym_def b64_char_def array_simps)

lemmas index_less = index_bits [THEN unat_less_64]

lemma index_less_last:
  "unat (push_bit 4 (a AND 3) :: byte) < 64" "unat (push_bit 2 (a AND 15) :: byte) < 64"
  using index_less(2) [of a 0] index_less(3) [of a 0] by simp_all

lemmas sym_index [simp] = index_less [THEN sym_eq] index_less_last [THEN sym_eq]

text \<open>The three bytes the decoder computes from the indices of a group.\<close>

lemma regroup:
  fixes a b c :: byte
  defines "w \<equiv> drop_bit 2 a" and "x \<equiv> push_bit 4 (a AND 3) OR drop_bit 4 b"
    and "y \<equiv> push_bit 2 (b AND 15) OR drop_bit 6 c" and "z \<equiv> c AND 63"
  shows "push_bit 2 w OR drop_bit 4 (x AND 48) = a" "push_bit 4 x OR drop_bit 2 y = b"
    "push_bit 6 y OR z = c"
proof -
  have m: "x AND 48 = push_bit 4 (take_bit 2 (drop_bit 4 x))"
    by (rule byte_eqI) (auto simp: bit_simps bit_byte_high)
  show "push_bit 2 w OR drop_bit 4 (x AND 48) = a" "push_bit 4 x OR drop_bit 2 y = b"
    "push_bit 6 y OR z = c"
    unfolding m unfolding w_def x_def y_def z_def low_bits
    by (rule byte_eqI, auto simp: bit_simps bit_byte_high simp flip: numeral_2_eq_2 numeral_3_eq_3)+
qed

section \<open>Encoding writes the reference text\<close>

lemma four_cells: "4 \<le> length xs \<Longrightarrow> \<exists>a b c d t. xs = a # b # c # d # t"
  by (auto simp: Suc_le_length_iff eval_nat_numeral)

lemma drop_4: "drop (4 + n) (a # b # c # d # t) = drop n t"
  by (simp add: eval_nat_numeral)

lemma length_quad [simp]: "length (quad a b c) = 4"
  by (simp add: quad_def)

lemma newline_due: "(4 * k + 4) mod 76 = 0 \<longleftrightarrow> Suc k mod 19 = 0" for k :: nat
proof -
  have "(4 + 4 * k) mod 76 = 4 * (Suc k mod 19)" using mult_mod_right [of 4 "Suc k" 19] by simp
  then show ?thesis by (simp only: add.commute [of "4 * k"] mult_eq_0_iff) simp
qed

lemma encode_loop_step:
  assumes "nl \<longleftrightarrow> flag \<noteq> 0" "idx2 = cnt + 4 * k" "length opre = idx2" "length ipre = idx"
    and "idx < ceil"
    and "s = (if nl \<and> Suc k mod 19 = 0 then [10] else [])" "length s \<le> length room"
  shows "encode_loop (ipre @ a # b # c # inp) ceil flag (opre @ r0 # r1 # r2 # r3 # room) idx idx2 cnt =
    encode_loop ((ipre @ [a, b, c]) @ inp) ceil flag ((opre @ quad a b c @ s) @ drop (length s) room)
      (idx + 3) (idx2 + 4 + length s) (cnt + length s)"
proof -
  have d: "(idx2 - cnt + 4) mod NEWLINE_INVL = 0 \<and> flag \<noteq> 0 \<longleftrightarrow> nl \<and> Suc k mod 19 = 0"
    using assms(1,2) newline_due [of k] by (auto simp: NEWLINE_INVL_def)
  show ?thesis
  proof (cases "nl \<and> Suc k mod 19 = 0")
    case True
    then obtain r room' where "room = r # room'" using assms(6,7) by (cases room) auto
    then show ?thesis
      unfolding encode_loop.simps [of _ ceil _ _ idx] d assms(6)
      using True assms(5) unfolding assms(3,4) [symmetric]
      by (simp only: aget_at aset_at sym_index Option.bind.simps if_True simp_thms) (simp add: quad_def)
  next
    case False
    then show ?thesis
      unfolding encode_loop.simps [of _ ceil _ _ idx] d assms(6)
      using assms(5) unfolding assms(3,4) [symmetric]
      by (simp only: aget_at aset_at sym_index Option.bind.simps if_True if_False simp_thms)
        (simp add: quad_def)
  qed
qed

lemma encode_loop_eq:
  assumes "length xs mod 3 = 0" "length ipre = idx" "length opre = idx2" "idx2 = cnt + 4 * k"
    and "length (b64_groups nl k xs) \<le> length room" "nl \<longleftrightarrow> flag \<noteq> 0"
  shows "encode_loop (ipre @ xs @ ipost) (idx + length xs) flag (opre @ room) idx idx2 cnt =
    Some (opre @ b64_groups nl k xs @ drop (length (b64_groups nl k xs)) room, idx + length xs,
      idx2 + length (b64_groups nl k xs))"
  using assms
proof (induction nl k xs arbitrary: ipre opre room idx idx2 cnt rule: b64_groups.induct)
  case (1 nl k a b c xs)
  define s :: "byte list" where "s = (if nl \<and> Suc k mod 19 = 0 then [10] else [])"
  obtain r0 r1 r2 r3 room' where room: "room = r0 # r1 # r2 # r3 # room'"
    using four_cells [of room] "1.prems"(5) by auto
  have g: "b64_groups nl k (a # b # c # xs) = quad a b c @ s @ b64_groups nl (Suc k) xs"
    by (simp add: s_def)
  have len: "length s + length (b64_groups nl (Suc k) xs) \<le> length room'"
    using "1.prems"(5) unfolding g room by simp
  have e: "idx + length (a # b # c # xs) = idx + 3 + length xs" by simp
  have "encode_loop (ipre @ (a # b # c # xs) @ ipost) (idx + length (a # b # c # xs)) flag (opre @ room) idx idx2 cnt =
      encode_loop ((ipre @ [a, b, c]) @ xs @ ipost) (idx + 3 + length xs) flag
        ((opre @ quad a b c @ s) @ drop (length s) room') (idx + 3) (idx2 + 4 + length s) (cnt + length s)"
    unfolding room e append_Cons by (rule encode_loop_step [OF "1.prems"(6,4,3,2) _ s_def]) (use len in simp_all)
  also have "\<dots> = Some ((opre @ quad a b c @ s) @ b64_groups nl (Suc k) xs @
      drop (length (b64_groups nl (Suc k) xs)) (drop (length s) room'), idx + 3 + length xs,
      idx2 + 4 + length s + length (b64_groups nl (Suc k) xs))"
    using "1.prems" len by (intro "1.IH") simp_all
  finally show ?case unfolding g room by (simp add: drop_4 add.commute [of "length s"])
qed (subst encode_loop.simps; simp)+

lemma encode_rest_eq:
  assumes "length zs < 3" "length (b64_tail zs) \<le> length room"
  shows "encode_rest (ipre @ zs @ ipost) (length zs) (opre @ room) (length ipre) (length opre) =
    Some (opre @ b64_tail zs @ drop (length (b64_tail zs)) room, length opre + length (b64_tail zs))"
proof (cases zs rule: b64_last.cases)
  case (1 a)
  with assms(2) obtain r0 r1 r2 r3 room' where room: "room = r0 # r1 # r2 # r3 # room'"
    using four_cells [of room] by (auto simp: b64_tail_def)
  show ?thesis unfolding 1 room encode_rest_def
    by (simp only: append_Cons append_Nil aget_at aset_at sym_index Option.bind.simps list.size
        simp_thms if_True add_0 One_nat_def [symmetric]) (simp add: b64_tail_def quad_def numeral_2_eq_2)
next
  case (2 a b)
  with assms(2) obtain r0 r1 r2 r3 room' where room: "room = r0 # r1 # r2 # r3 # room'"
    using four_cells [of room] by (auto simp: b64_tail_def)
  have l: "length [a, b] = 2" "(2 :: nat) \<noteq> 1" by simp_all
  show ?thesis unfolding 2 room encode_rest_def l(1)
    by (simp only: append_Cons append_Nil aget_at aset_at sym_index Option.bind.simps l(2)
        simp_thms if_True if_False) (simp add: b64_tail_def quad_def)
qed (use assms in \<open>simp_all add: encode_rest_def b64_tail_def\<close>)

lemma b64_groups_append:
  "length xs mod 3 = 0 \<Longrightarrow> length zs < 3 \<Longrightarrow> b64_groups nl k (xs @ zs) = b64_groups nl k xs"
  by (induction nl k xs rule: b64_groups.induct) (simp_all, cases zs rule: b64_last.cases, simp_all)

lemma split_triples:
  obtains ys zs where "xs = ys @ zs" "length ys = length xs div 3 * 3" "length zs = length xs mod 3"
    "length ys mod 3 = 0" "length zs < 3"
proof -
  define q where "q = length xs div 3 * 3"
  have q: "q \<le> length xs" "length xs - q = length xs mod 3" "q mod 3 = 0"
    unfolding q_def by (rule div_times_less_eq_dividend minus_div_mult_eq_mod mod_mult_self2_is_0)+
  have t: "length (take q xs) = q" using q(1) by simp
  have d: "length (drop q xs) = length xs mod 3" unfolding length_drop by (rule q(2))
  show thesis
    by (rule that [of "take q xs" "drop q xs"])
      (simp_all only: append_take_drop_id t d q(3) q_def [symmetric] mod_less_divisor zero_less_numeral)
qed

lemma b64_split:
  "length ys mod 3 = 0 \<Longrightarrow> length zs < 3 \<Longrightarrow> b64 nl (ys @ zs) = b64_groups nl 0 ys @ b64_tail zs"
proof -
  assume a: "length ys mod 3 = 0" "length zs < 3"
  then have "(length ys + length zs) div 3 * 3 = length ys" by (auto elim!: dvdE simp: mod_eq_0_iff_dvd)
  then show ?thesis using a by (simp add: b64_def b64_groups_append)
qed

lemma length_b64_groups:
  "length (b64_groups nl k xs) + (if nl then k div 19 else 0) =
    length xs div 3 * 4 + (if nl then (k + length xs div 3) div 19 else 0)"
proof (induction nl k xs rule: b64_groups.induct)
  case (1 nl k a b c xs)
  define e where "e = (if Suc k mod 19 = 0 then 1 else 0 :: nat)"
  have k: "Suc k div 19 = k div 19 + e" by (simp add: div_Suc e_def)
  have q: "length (a # b # c # xs) div 3 = Suc (length xs div 3)" by simp
  have l: "length (b64_groups nl k (a # b # c # xs)) =
      4 + (if nl then e else 0) + length (b64_groups nl (Suc k) xs)" by (simp add: e_def)
  show ?case using 1 unfolding l q k by (cases nl) simp_all
qed simp_all

lemma length_b64_tail: "length zs < 3 \<Longrightarrow> length (b64_tail zs) = (if zs = [] then 0 else 4)"
  by (cases zs rule: b64_last.cases) (auto simp: b64_tail_def)

lemma length_b64:
  "length (b64 nl xs) = length xs div 3 * 4 + (if length xs mod 3 \<noteq> 0 then 4 else 0) +
    (if nl then length xs div 57 else 0)"
proof -
  obtain ys zs where s: "xs = ys @ zs" "length ys = length xs div 3 * 3" "length zs = length xs mod 3"
    "length ys mod 3 = 0" "length zs < 3" using split_triples .
  have d: "length ys div 3 = length xs div 3" unfolding s(2) by (rule nonzero_mult_div_cancel_right) simp
  have h: "(0 + length xs div 3) div 19 = length xs div 57" by (simp add: div_mult2_eq [symmetric])
  have g: "length (b64_groups nl 0 ys) = length xs div 3 * 4 + (if nl then length xs div 57 else 0)"
    using length_b64_groups [of nl 0 ys] unfolding d h by (simp split: if_splits)
  have t: "length (b64_tail zs) = (if length xs mod 3 \<noteq> 0 then 4 else 0)"
    unfolding length_b64_tail [OF s(5)] s(3) [symmetric] by simp
  have b: "b64 nl xs = b64_groups nl 0 ys @ b64_tail zs"
    using b64_split [OF s(4,5)] s(1) by metis
  show ?thesis unfolding b length_append g t by (simp only: ac_simps)
qed

lemma base64_encode_eq:
  assumes "length (b64 (flag \<noteq> 0) xs) \<le> length out"
  shows "base64_encode (xs @ rest) (Some out) (length xs) flag =
    Some (Some (b64 (flag \<noteq> 0) xs @ drop (length (b64 (flag \<noteq> 0) xs)) out), length (b64 (flag \<noteq> 0) xs))"
proof -
  obtain ys zs where s: "xs = ys @ zs" "length ys = length xs div 3 * 3" "length zs = length xs mod 3"
    "length ys mod 3 = 0" "length zs < 3" using split_triples .
  let ?nl = "flag \<noteq> 0"
  let ?g = "b64_groups ?nl 0 ys" let ?t = "b64_tail zs"
  have b: "b64 ?nl xs = ?g @ ?t" using b64_split [OF s(4,5)] s(1) by metis
  have l: "length ?g + length ?t \<le> length out" using assms unfolding b by simp
  have x: "xs @ rest = ys @ zs @ rest" using s(1) by simp
  have 1: "encode_loop (xs @ rest) (length xs div 3 * 3) flag out 0 0 0 =
      Some (?g @ drop (length ?g) out, length ys, length ?g)"
    using encode_loop_eq [OF s(4), of "[]" 0 "[]" 0 0 0 ?nl out flag "zs @ rest"] l
    unfolding x s(2) [symmetric] by simp
  have 2: "encode_rest (xs @ rest) (length xs mod 3) (?g @ drop (length ?g) out) (length ys) (length ?g) =
      Some (b64 ?nl xs @ drop (length (b64 ?nl xs)) out, length (b64 ?nl xs))"
    using encode_rest_eq [OF s(5), of "drop (length ?g) out" ys rest ?g] l
    unfolding x s(3) [symmetric] b by (simp add: add.commute)
  show ?thesis unfolding base64_encode_def by (simp add: 1 2 Let_def)
qed


section \<open>Decoding inverts the reference text\<close>

lemma rev_at_quad:
  "rev_at (xs @ quad a b c @ t) (length xs) = Some (drop_bit 2 a)"
  "rev_at (xs @ quad a b c @ t) (length xs + 1) = Some (push_bit 4 (a AND 3) OR drop_bit 4 b)"
  "rev_at (xs @ quad a b c @ t) (length xs + 2) = Some (push_bit 2 (b AND 15) OR drop_bit 6 c)"
  "rev_at (xs @ quad a b c @ t) (length xs + 3) = Some (c AND 63)"
  by (simp_all only: rev_at_def quad_def list.map append_Cons append_Nil aget_at option.map
      index_less [THEN revchar_b64_char])

lemma decode_loop_step:
  assumes "length ipre < ceil"
  shows "decode_loop (ipre @ quad a b c @ inp) ceil (opre @ r0 # r1 # r2 # room) (length opre) (length ipre) =
    decode_loop ((ipre @ quad a b c) @ inp) ceil ((opre @ [a, b, c]) @ room) (length opre + 3) (length ipre + 4)"
proof -
  have "aget (ipre @ quad a b c @ inp) (length ipre) = Some (b64_char (drop_bit 2 a))"
    by (simp add: quad_def aget_at)
  moreover have "b64_char (drop_bit 2 a) \<noteq> 10"
    using b64_char_marks [OF index_less(1)] by blast
  ultimately show ?thesis
    unfolding decode_loop.simps [of _ ceil _ _ "length ipre"] using assms
    by (simp only: if_True if_False Option.bind.simps Let_def rev_at_quad aset_at regroup append_assoc
        append_Cons append_Nil)
qed

lemma decode_loop_eq:
  assumes "length xs mod 3 = 0" "length xs \<le> length room"
  shows "decode_loop (ipre @ b64_groups False k xs @ ipost) (length ipre + length (b64_groups False k xs))
      (opre @ room) (length opre) (length ipre) =
    Some (opre @ xs @ drop (length xs) room, length opre + length xs, length ipre + length (b64_groups False k xs))"
  using assms
proof (induction False k xs arbitrary: ipre opre room rule: b64_groups.induct)
  case (1 k a b c xs)
  define g where "g = b64_groups False (Suc k) xs"
  have g: "b64_groups False k (a # b # c # xs) = quad a b c @ g" by (simp add: g_def)
  have "3 \<le> length room" using "1.prems" by simp
  then obtain r0 r1 r2 room' where room: "room = r0 # r1 # r2 # room'"
    by (auto simp: Suc_le_length_iff eval_nat_numeral)
  have "decode_loop (ipre @ (quad a b c @ g) @ ipost) (length ipre + length (quad a b c @ g)) (opre @ room)
      (length opre) (length ipre) =
      decode_loop ((ipre @ quad a b c) @ g @ ipost) (length (ipre @ quad a b c) + length g)
        ((opre @ [a, b, c]) @ room') (length (opre @ [a, b, c])) (length (ipre @ quad a b c))"
    unfolding room using decode_loop_step [of ipre "length ipre + 4 + length g"] by (simp add: add.assoc numeral_3_eq_3)
  also have "\<dots> = Some ((opre @ [a, b, c]) @ xs @ drop (length xs) room', length (opre @ [a, b, c]) + length xs,
      length (ipre @ quad a b c) + length g)"
    unfolding g_def using "1.prems" room by (intro "1.hyps") simp_all
  finally show ?case unfolding g room by (simp add: add.assoc)
qed (subst decode_loop.simps; simp)+

lemma decode_rest_eq:
  assumes "length zs < 3" "length zs \<le> length room"
  shows "decode_rest (ipre @ b64_tail zs @ ipost) (length (b64_last zs)) (opre @ room) (length opre) (length ipre) =
    Some (opre @ zs @ drop (length zs) room, length opre + length zs)"
proof (cases zs rule: b64_last.cases)
  case (1 a)
  with assms(2) obtain r room' where room: "room = r # room'" by (cases room) auto
  have "\<exists>u v. b64_tail [a] = u # v # [61, 61] \<and> quad a 0 0 = u # v # drop 2 (quad a 0 0)"
    by (simp add: b64_tail_def quad_def numeral_2_eq_2)
  then obtain u v where t: "b64_tail [a] = u # v # [61, 61]" "quad a 0 0 = u # v # drop 2 (quad a 0 0)" by blast
  have r: "rev_at (ipre @ b64_tail [a] @ ipost) (length ipre) = Some (drop_bit 2 a)"
    "rev_at (ipre @ b64_tail [a] @ ipost) (length ipre + 1) = Some (push_bit 4 (a AND 3) OR drop_bit 4 0)"
    using rev_at_quad(1,2) [of ipre a 0 0 "[]"] t
    by (metis append_Cons rev_at_def aget_at(1,2))+
  have l: "length (b64_last [a]) = 2" by simp
  show ?thesis
    unfolding 1 room decode_rest_def l
    by (simp only: r Option.bind.simps regroup aset_at if_True append_Cons append_Nil) simp
next
  case (2 a b)
  with assms(2) obtain r0 r1 room' where room: "room = r0 # r1 # room'"
    by (auto simp: Suc_le_length_iff)
  have "\<exists>u v w. b64_tail [a, b] = u # v # w # [61] \<and> quad a b 0 = u # v # w # drop 3 (quad a b 0)"
    by (simp add: b64_tail_def quad_def numeral_3_eq_3)
  then obtain u v w where t: "b64_tail [a, b] = u # v # w # [61]" "quad a b 0 = u # v # w # drop 3 (quad a b 0)"
    by blast
  have r: "rev_at (ipre @ b64_tail [a, b] @ ipost) (length ipre) = Some (drop_bit 2 a)"
    "rev_at (ipre @ b64_tail [a, b] @ ipost) (length ipre + 1) = Some (push_bit 4 (a AND 3) OR drop_bit 4 b)"
    "rev_at (ipre @ b64_tail [a, b] @ ipost) (length ipre + 2) = Some (push_bit 2 (b AND 15) OR drop_bit 6 0)"
    using rev_at_quad(1,2,3) [of ipre a b 0 "[]"] t
    by (metis append_Cons rev_at_def aget_at(1,2,3))+
  have l: "length (b64_last [a, b]) = 3" "(3 :: nat) \<noteq> 2" by simp_all
  show ?thesis
    unfolding 2 room decode_rest_def l(1)
    by (simp only: r l(2) Option.bind.simps regroup aset_at if_True if_False append_Cons append_Nil) simp
qed (use assms in \<open>simp_all add: decode_rest_def b64_tail_def\<close>)

lemma strip_pad_last: "strip_pad (g @ c # t) (Suc (length g)) = Some (if c = 61 then length g else Suc (length g))"
  by (simp add: strip_pad_def aget_at)

lemma last_of_groups:
  "length xs mod 3 = 0 \<Longrightarrow> xs \<noteq> [] \<Longrightarrow> \<exists>g c. b64_groups False k xs = g @ [c] \<and> c \<noteq> 61"
proof (induction False k xs rule: b64_groups.induct)
  case (1 k a b c xs)
  show ?case
  proof (cases "xs = []")
    case True
    have "b64_char (c AND 63) \<noteq> 61" using b64_char_marks [OF index_less(4)] by blast
    then show ?thesis using True by (simp add: quad_def)
  next
    case False
    then obtain g d where "b64_groups False (Suc k) xs = g @ [d]" "d \<noteq> 61" using 1 by auto
    then show ?thesis by (auto intro: exI [of _ "quad a b c @ g"])
  qed
qed simp_all

lemma strip_padding:
  fixes k :: nat and ys :: "byte list"
  assumes "length ys mod 3 = 0" "length zs < 3" "ys @ zs \<noteq> []"
  defines "g \<equiv> b64_groups False k ys"
  shows "strip_pad (g @ b64_tail zs @ rest) (length (g @ b64_tail zs)) \<bind> strip_pad (g @ b64_tail zs @ rest) =
    Some (length g + length (b64_last zs))"
proof (cases zs rule: b64_last.cases)
  case (1 a)
  obtain u v where t: "b64_tail [a] = u # v # [61, 61]"
    by (simp add: b64_tail_def quad_def numeral_2_eq_2)
  show ?thesis
    using strip_pad_last [of "g @ [u, v, 61]" 61 rest] strip_pad_last [of "g @ [u, v]" 61 "61 # rest"]
    unfolding 1 t by simp
next
  case (2 a b)
  obtain u v w where t: "b64_tail [a, b] = u # v # w # [61]" "w = b64_char (push_bit 2 (b AND 15))"
    by (simp add: b64_tail_def quad_def numeral_3_eq_3)
  have "w \<noteq> 61" unfolding t(2) using b64_char_marks [OF index_less_last(2)] by blast
  then show ?thesis
    using strip_pad_last [of "g @ [u, v, w]" 61 rest] strip_pad_last [of "g @ [u, v]" w "61 # rest"]
    unfolding 2 t(1) by simp
next
  case "3_1"
  then obtain h c where g: "g = h @ [c]" "c \<noteq> 61" using last_of_groups [OF assms(1), of k] assms(3)
    unfolding g_def by auto
  show ?thesis using strip_pad_last [of h c rest] g(2) unfolding "3_1" g(1) by (simp add: b64_tail_def)
qed (use assms(2) in simp)

lemma no_newline_char:
  "c \<in> set (b64_groups False k xs @ b64_tail zs) \<Longrightarrow> c \<noteq> 10"
proof -
  have q: "10 \<notin> set (quad a b c)" for a b c
    using index_less [THEN b64_char_marks] unfolding quad_def by auto
  have "10 \<notin> set (b64_groups False k xs)"
    by (induction False k xs rule: b64_groups.induct) (auto simp: q)
  moreover have "10 \<notin> set (b64_tail zs)"
    using q by (cases zs rule: b64_last.cases) (auto simp: b64_tail_def dest!: in_set_takeD)
  ultimately show "c \<in> set (b64_groups False k xs @ b64_tail zs) \<Longrightarrow> c \<noteq> 10" by auto
qed


lemma length_b64_last: "length zs < 3 \<Longrightarrow> length (b64_last zs) = (if zs = [] then 0 else length zs + 1)"
  by (cases zs rule: b64_last.cases) auto

lemma group_count:
  assumes "length ys mod 3 = 0" "length zs < 3"
  defines "l \<equiv> length (b64_groups False 0 ys) + length (b64_last zs)"
  shows "l div 4 * 4 = length (b64_groups False 0 ys)" "l mod 4 = length (b64_last zs)" "l div 4 * 3 = length ys"
proof -
  obtain q where q: "length ys = 3 * q" using assms(1) by (auto simp: mod_eq_0_iff_dvd elim: dvdE)
  have g: "length (b64_groups False 0 ys) = 4 * q" using length_b64_groups [of False 0 ys] q by simp
  have "length (b64_last zs) < 4" using length_b64_last [OF assms(2)] assms(2) by simp
  then show "l div 4 * 4 = length (b64_groups False 0 ys)" "l mod 4 = length (b64_last zs)"
    "l div 4 * 3 = length ys" unfolding l_def g q by simp_all
qed

lemma decode_size_eq:
  assumes "length ys mod 3 = 0" "length zs < 3"
  shows "decode_size ((b64_groups False 0 ys @ b64_tail zs) @ rest)
    (length (b64_groups False 0 ys) + length (b64_last zs)) = Some (length ys + length zs)"
proof -
  define t where "t = b64_groups False 0 ys @ b64_tail zs"
  define l where "l = length (b64_groups False 0 ys) + length (b64_last zs)"
  note c = group_count [OF assms, folded l_def]
  have "length (b64_last zs) \<le> length (b64_tail zs)" by (simp add: b64_tail_def)
  then have "l \<le> length t" by (simp add: l_def t_def)
  then have "77 \<le> l \<Longrightarrow> aget (t @ rest) 76 = Some (t ! 76) \<and> t ! 76 \<noteq> 10"
    using no_newline_char [of "t ! 76" 0 ys zs, folded t_def] by (simp add: aget_def nth_append)
  then have "decode_size (t @ rest) l = Some (if l mod 4 = 2 then l div 4 * 3 + 1
      else if l mod 4 = 3 then l div 4 * 3 + 2 else l div 4 * 3)"
    by (simp add: decode_size_def NEWLINE_INVL_def Let_def)
  also have "\<dots> = Some (length ys + length zs)"
    unfolding c length_b64_last [OF assms(2)] using assms(2) by (cases zs rule: b64_last.cases) auto
  finally show ?thesis unfolding t_def l_def .
qed

lemma base64_decode_eq:
  assumes "xs \<noteq> []"
  shows "base64_decode (b64 False xs @ rest) None (length (b64 False xs)) = Some (None, length xs)"
    and "length xs \<le> length out \<Longrightarrow>
      base64_decode (b64 False xs @ rest) (Some out) (length (b64 False xs)) =
      Some (Some (xs @ drop (length xs) out), length xs)"
proof -
  obtain ys zs where s: "xs = ys @ zs" "length ys = length xs div 3 * 3" "length zs = length xs mod 3"
    "length ys mod 3 = 0" "length zs < 3" using split_triples .
  define g where "g = b64_groups False 0 ys"
  define l where "l = length g + length (b64_last zs)"
  have b: "b64 False xs = g @ b64_tail zs" using b64_split [OF s(4,5)] s(1) unfolding g_def by metis
  note c = group_count [OF s(4,5), folded g_def, folded l_def]
  have st: "strip_pad (b64 False xs @ rest) (length (b64 False xs)) \<bind> (\<lambda>l. strip_pad (b64 False xs @ rest) l \<bind> f) = f l"
    for f :: "nat \<Rightarrow> 'z option"
    using strip_padding [OF s(4,5), of 0 rest, folded g_def] assms s(1)
    unfolding b append_assoc bind_assoc [symmetric] by (simp add: l_def)
  show "base64_decode (b64 False xs @ rest) None (length (b64 False xs)) = Some (None, length xs)"
    using decode_size_eq [OF s(4,5), of rest, folded g_def, folded l_def b]
    unfolding base64_decode_def st by (simp add: s(1))
  assume len: "length xs \<le> length out"
  have 1: "decode_loop (b64 False xs @ rest) (l div 4 * 4) out 0 0 = Some (ys @ drop (length ys) out, length ys, length g)"
    using decode_loop_eq [OF s(4), of out "[]" 0 "b64_tail zs @ rest" "[]"] len s(1)
    unfolding c b g_def by simp
  have 2: "decode_rest (b64 False xs @ rest) (l mod 4) (ys @ drop (length ys) out) (length ys) (length g) =
      Some (xs @ drop (length xs) out, length xs)"
    using decode_rest_eq [OF s(5), of "drop (length ys) out" g rest ys] len s(1)
    unfolding c b by (simp add: add.commute)
  show "base64_decode (b64 False xs @ rest) (Some out) (length (b64 False xs)) =
      Some (Some (xs @ drop (length xs) out), length xs)"
    unfolding base64_decode_def st by (simp add: 1 2)
qed


section \<open>Line breaks\<close>

lemma first_line:
  "length xs mod 3 = 0 \<Longrightarrow> k < 19 \<Longrightarrow> k + length xs div 3 = 19 \<Longrightarrow>
    b64_groups True k xs = b64_groups False k xs @ [10]"
proof (induction True k xs rule: b64_groups.induct)
  case (1 k a b c xs)
  have q: "length (a # b # c # xs) div 3 = Suc (length xs div 3)" by simp
  show ?case
  proof (cases "Suc k = 19")
    case True
    then have "length xs div 3 = 0" using "1.prems"(3) unfolding q by simp
    then have "xs = []" using "1.prems"(1) by (auto simp: div_eq_0_iff)
    then show ?thesis using True by simp
  next
    case False
    then have "Suc k mod 19 \<noteq> 0" using "1.prems"(2) by simp
    then show ?thesis using "1.hyps" "1.prems" False unfolding q by simp
  qed
qed simp_all

text \<open>A text of 58 bytes: one full line of 76 characters, the newline, and two characters with padding.\<close>

lemma decode_second_line:
  fixes z :: byte
  assumes "length ys = 57"
  defines "e \<equiv> b64 True (ys @ [z])"
  shows "length e = 81" and "base64_decode e None 81 = Some (None, 58)"
    and "length out = 58 \<Longrightarrow> base64_decode e (Some out) 81 = None"
    and "59 \<le> length out \<Longrightarrow> \<exists>dec. base64_decode e (Some out) 81 = Some (Some dec, 59)"
proof -
  define g where "g = b64_groups False 0 ys"
  have m: "length ys mod 3 = 0" using assms(1) by simp
  have g: "length g = 76" unfolding g_def using length_b64_groups [of False 0 ys] assms(1) by simp
  obtain u v where t: "b64_tail [z] = u # v # [61, 61]"
    by (simp add: b64_tail_def quad_def numeral_2_eq_2)
  have e: "e = g @ [10, u, v, 61, 61]"
    unfolding e_def g_def using b64_split [OF m, of "[z]" True] first_line [OF m, of 0] assms(1) t by simp
  show "length e = 81" unfolding e using g by simp
  have st: "strip_pad e 81 = Some 80" "strip_pad e 80 = Some 79"
    using strip_pad_last [of "g @ [10, u, v, 61]" 61 "[]"] strip_pad_last [of "g @ [10, u, v]" 61 "[61]"] g
    unfolding e by simp_all
  have "aget e 76 = Some 10" using aget_at(1) [of g 10 "[u, v, 61, 61]"] g unfolding e by simp
  then have "decode_size e 79 = Some 58" by (simp add: decode_size_def NEWLINE_INVL_def Let_def)
  then show "base64_decode e None 81 = Some (None, 58)"
    unfolding base64_decode_def st Option.bind.simps Let_def by simp
  have d: "decode_loop e 76 out 0 0 = Some (ys @ drop 57 out, 57, 76)" if "57 \<le> length out"
    using decode_loop_eq [OF m, of out "[]" 0 "[10, u, v, 61, 61]" "[]"] that g assms(1)
    unfolding e g_def by simp
  have r: "rev_at e 76 = Some (revchar (sint (10 :: byte)))" "rev_at e 77 = Some (revchar (sint u))"
    "rev_at e 78 = Some (revchar (sint v))"
    using aget_at(1) [of g 10 "[u, v, 61, 61]"] aget_at(2) [of g 10 u "[v, 61, 61]"]
      aget_at(3) [of g 10 u v "[61, 61]"] g unfolding e rev_at_def by simp_all
  show "base64_decode e (Some out) 81 = None" if "length out = 58"
    using d r that assms(1) unfolding base64_decode_def
    by (simp add: st decode_rest_def aset_def)
  show "\<exists>dec. base64_decode e (Some out) 81 = Some (Some dec, 59)" if "59 \<le> length out"
    using d r that assms(1) unfolding base64_decode_def
    by (simp add: st decode_rest_def aset_def)
qed

section \<open>Properties\<close>

text \<open>
  Encoding. With an output array that is large enough, \<open>base64_encode\<close> writes the reference text
  of the first \<open>len\<close> input bytes to its start, with a newline after every 76 characters when
  \<open>newline_flag\<close> is set, leaves the rest alone and returns the length of the text; called with
  \<open>out = NULL\<close> it returns the same length.
\<close>
theorem base64_encode_text:
  assumes "len \<le> length input" "length (b64 (flag \<noteq> 0) (take len input)) \<le> length out" "length out < 2 ^ 64"
  shows "let text = b64 (flag \<noteq> 0) (take len input)
    in base64_encode input (Some out) len flag = Some (Some (text @ drop (length text) out), length text) \<and>
       base64_encode input None len flag = Some (None, length text)"
proof -
  define xs where "xs = take len input"
  have x: "input = xs @ drop len input" "length xs = len" using assms(1) by (simp_all add: xs_def)
  note l = length_b64 [of "flag \<noteq> 0" xs, unfolded x(2)]
  have s: "size_t n = n" if "n \<le> length (b64 (flag \<noteq> 0) xs)" for n
    unfolding size_t_def using that assms(2,3) unfolding xs_def [symmetric] by (intro mod_less) linarith
  have "base64_encode input None len flag = Some (None, length (b64 (flag \<noteq> 0) xs))"
    unfolding base64_encode_def Let_def option.case l
    by (cases "len mod 3 = 0"; cases "flag = 0") (simp_all add: s [unfolded l])
  moreover have "base64_encode input (Some out) len flag =
      Some (Some (b64 (flag \<noteq> 0) xs @ drop (length (b64 (flag \<noteq> 0) xs)) out), length (b64 (flag \<noteq> 0) xs))"
    using base64_encode_eq [of flag xs out "drop len input"] assms(2) x unfolding xs_def by simp
  ultimately show ?thesis unfolding xs_def Let_def by blast
qed

theorem base64_encode_text_witness:
  "let text = b64 True (take 2 [102, 111, 7])
   in base64_encode [102, 111, 7] (Some [0, 0, 0, 0, 9]) 2 1 = Some (Some (text @ drop (length text) [0, 0, 0, 0, 9]), length text) \<and>
      base64_encode [102, 111, 7] None 2 1 = Some (None, length text)"
  using base64_encode_text [of 2 "[102, 111, 7]" 1 "[0, 0, 0, 0, 9]"] by (simp add: length_b64)

text \<open>
  C30 (round trip). Without line breaks \<open>base64_decode\<close> inverts \<open>base64_encode\<close> on every non-empty
  input: the size query with \<open>out = NULL\<close> returns the original length, and the decoder writes the
  original bytes, no more and no less.
\<close>
theorem base64_round_trip:
  assumes "0 < len" "len \<le> length input" "length (b64 False (take len input)) \<le> length buf" "len \<le> length out"
  shows "\<exists>text n. base64_encode input (Some buf) len 0 = Some (Some text, n) \<and>
    base64_decode text None n = Some (None, len) \<and>
    base64_decode text (Some out) n = Some (Some (take len input @ drop len out), len)"
proof -
  define xs where "xs = take len input"
  have x: "input = xs @ drop len input" "length xs = len" "xs \<noteq> []" using assms(1,2) by (auto simp: xs_def)
  have "base64_encode input (Some buf) len 0 =
      Some (Some (b64 False xs @ drop (length (b64 False xs)) buf), length (b64 False xs))"
    using base64_encode_eq [of 0 xs buf "drop len input"] assms(3) x(1,2) unfolding xs_def by simp
  then show ?thesis
    using base64_decode_eq(1) [OF x(3), of "drop (length (b64 False xs)) buf"]
      base64_decode_eq(2) [OF x(3), of out "drop (length (b64 False xs)) buf"] assms(4) x(2)
    unfolding xs_def [symmetric] by auto
qed

theorem base64_round_trip_witness:
  "\<exists>text n. base64_encode [102, 111, 7] (Some [0, 0, 0, 0, 9]) 2 0 = Some (Some text, n) \<and>
    base64_decode text None n = Some (None, 2) \<and>
    base64_decode text (Some [1, 2, 3]) n = Some (Some (take 2 [102, 111, 7] @ drop 2 [1, 2, 3]), 2)"
  by (rule base64_round_trip) (simp_all add: length_b64)

text \<open>
  C40 (decoding line breaks). What \<open>base64_encode\<close> produces with \<open>newline_flag\<close> set for any 58 bytes
  is not decoded: the size query returns 58, but the decoder counts the newline as a character of
  the last group, writes 59 bytes, and so runs past an output array of 58 bytes.
\<close>
theorem base64_decode_newline:
  assumes "length xs = 58" "length out = 58" "59 \<le> length out'"
  shows "\<exists>text. base64_encode xs (Some (replicate 81 0)) 58 1 = Some (Some text, 81) \<and>
    base64_decode text None 81 = Some (None, 58) \<and>
    base64_decode text (Some out) 81 = None \<and>
    (\<exists>dec. base64_decode text (Some out') 81 = Some (Some dec, 59))"
proof -
  have "xs \<noteq> []" using assms(1) by auto
  then obtain ys z where xs: "xs = ys @ [z]" by (metis rev_exhaust)
  then have y: "length ys = 57" using assms(1) by simp
  have "base64_encode xs (Some (replicate 81 0)) 58 1 = Some (Some (b64 True xs), 81)"
    using base64_encode_eq [of 1 xs "replicate 81 0" "[]"] decode_second_line(1) [OF y, where z = z] assms(1)
    unfolding xs by simp
  then show ?thesis
    using decode_second_line(2-4) [OF y, where z = z] assms(2,3) unfolding xs by blast
qed

theorem base64_decode_newline_witness:
  "\<exists>text. base64_encode (replicate 58 65) (Some (replicate 81 0)) 58 1 = Some (Some text, 81) \<and>
    base64_decode text None 81 = Some (None, 58) \<and>
    base64_decode text (Some (replicate 58 0)) 81 = None \<and>
    (\<exists>dec. base64_decode text (Some (replicate 60 0)) 81 = Some (Some dec, 59))"
  by (rule base64_decode_newline) simp_all

end
