(* ===== verification/Feistel.thy ===== *)
theory Feistel
  imports Prelude
begin

text \<open>
  Feistel networks: a cipher that alternates a round function on one half of the block with an
  exchange of the halves. Running the rounds with the keys in reverse order undoes them, whatever
  the round function is. DES and Blowfish interpret the locale.
\<close>

abbreviation (input) exchange :: "'h \<times> 'h \<Rightarrow> 'h \<times> 'h" where
  "exchange \<equiv> prod.swap"

locale feistel =
  fixes rnd :: "'k \<Rightarrow> 'h \<times> 'h \<Rightarrow> 'h \<times> 'h"
  assumes round_involution: "exchange (rnd k (exchange (rnd k s))) = s"
begin

lemma round_cancel: "rnd k (exchange (rnd k s)) = exchange s"
  by (metis round_involution swap_swap)

text \<open>Running all rounds, exchanging, and running them backwards exchanges the original halves.\<close>

lemma rounds_cancel: "fold rnd (rev ks) (exchange (fold rnd ks s)) = exchange s"
  by (induction ks arbitrary: s) (simp_all add: round_cancel)

lemma rounds_cancel_rev: "fold rnd ks (exchange (fold rnd (rev ks) s)) = exchange s"
  using rounds_cancel [of "rev ks"] by simp

lemma inj_rounds: "inj (fold rnd ks)"
  by (rule injI) (metis rounds_cancel swap_swap)

end

end
