(* ===== verification/Des.thy ===== *)
theory Des
  imports Feistel CBuffer
begin

text \<open>
  DES and triple DES of \<open>crypto-algorithms_learn/des.c\<close>: the bit macros, the S-boxes, the initial
  permutation and its inverse, the round function, key setup and block encryption. Encryption and
  decryption are the same code run on two key schedules. Words are 32 bits wide; a left shift drops
  the bits that leave the word. \<open>None\<close> is an access outside an array.
\<close>

section \<open>Definitions\<close>

definition BITNUM :: "byte list \<Rightarrow> nat \<Rightarrow> nat \<Rightarrow> word32" where
  "BITNUM a b c = push_bit c (ucast (drop_bit (7 - b mod 8) (a ! (b div 8))) AND 0x01)"

definition BITNUMINTR :: "word32 \<Rightarrow> nat \<Rightarrow> nat \<Rightarrow> word32" where
  "BITNUMINTR a b c = push_bit c (drop_bit (31 - b) a AND 0x00000001)"

definition BITNUMINTL :: "word32 \<Rightarrow> nat \<Rightarrow> nat \<Rightarrow> word32" where
  "BITNUMINTL a b c = drop_bit c (push_bit b a AND 0x80000000)"

definition SBOXBIT :: "byte \<Rightarrow> byte" where
  "SBOXBIT a = (a AND 0x20) OR drop_bit 1 (a AND 0x1f) OR push_bit 4 (a AND 0x01)"

definition sbox1 :: "byte list" where
  "sbox1 =
    [14, 4, 13, 1, 2, 15, 11, 8, 3, 10, 6, 12, 5, 9, 0, 7,
     0, 15, 7, 4, 14, 2, 13, 1, 10, 6, 12, 11, 9, 5, 3, 8,
     4, 1, 14, 8, 13, 6, 2, 11, 15, 12, 9, 7, 3, 10, 5, 0,
     15, 12, 8, 2, 4, 9, 1, 7, 5, 11, 3, 14, 10, 0, 6, 13]"

definition sbox2 :: "byte list" where
  "sbox2 =
    [15, 1, 8, 14, 6, 11, 3, 4, 9, 7, 2, 13, 12, 0, 5, 10,
     3, 13, 4, 7, 15, 2, 8, 14, 12, 0, 1, 10, 6, 9, 11, 5,
     0, 14, 7, 11, 10, 4, 13, 1, 5, 8, 12, 6, 9, 3, 2, 15,
     13, 8, 10, 1, 3, 15, 4, 2, 11, 6, 7, 12, 0, 5, 14, 9]"

definition sbox3 :: "byte list" where
  "sbox3 =
    [10, 0, 9, 14, 6, 3, 15, 5, 1, 13, 12, 7, 11, 4, 2, 8,
     13, 7, 0, 9, 3, 4, 6, 10, 2, 8, 5, 14, 12, 11, 15, 1,
     13, 6, 4, 9, 8, 15, 3, 0, 11, 1, 2, 12, 5, 10, 14, 7,
     1, 10, 13, 0, 6, 9, 8, 7, 4, 15, 14, 3, 11, 5, 2, 12]"

definition sbox4 :: "byte list" where
  "sbox4 =
    [7, 13, 14, 3, 0, 6, 9, 10, 1, 2, 8, 5, 11, 12, 4, 15,
     13, 8, 11, 5, 6, 15, 0, 3, 4, 7, 2, 12, 1, 10, 14, 9,
     10, 6, 9, 0, 12, 11, 7, 13, 15, 1, 3, 14, 5, 2, 8, 4,
     3, 15, 0, 6, 10, 1, 13, 8, 9, 4, 5, 11, 12, 7, 2, 14]"

definition sbox5 :: "byte list" where
  "sbox5 =
    [2, 12, 4, 1, 7, 10, 11, 6, 8, 5, 3, 15, 13, 0, 14, 9,
     14, 11, 2, 12, 4, 7, 13, 1, 5, 0, 15, 10, 3, 9, 8, 6,
     4, 2, 1, 11, 10, 13, 7, 8, 15, 9, 12, 5, 6, 3, 0, 14,
     11, 8, 12, 7, 1, 14, 2, 13, 6, 15, 0, 9, 10, 4, 5, 3]"

definition sbox6 :: "byte list" where
  "sbox6 =
    [12, 1, 10, 15, 9, 2, 6, 8, 0, 13, 3, 4, 14, 7, 5, 11,
     10, 15, 4, 2, 7, 12, 9, 5, 6, 1, 13, 14, 0, 11, 3, 8,
     9, 14, 15, 5, 2, 8, 12, 3, 7, 0, 4, 10, 1, 13, 11, 6,
     4, 3, 2, 12, 9, 5, 15, 10, 11, 14, 1, 7, 6, 0, 8, 13]"

definition sbox7 :: "byte list" where
  "sbox7 =
    [4, 11, 2, 14, 15, 0, 8, 13, 3, 12, 9, 7, 5, 10, 6, 1,
     13, 0, 11, 7, 4, 9, 1, 10, 14, 3, 5, 12, 2, 15, 8, 6,
     1, 4, 11, 13, 12, 3, 7, 14, 10, 15, 6, 8, 0, 5, 9, 2,
     6, 11, 13, 8, 1, 4, 10, 7, 9, 5, 0, 15, 14, 2, 3, 12]"

definition sbox8 :: "byte list" where
  "sbox8 =
    [13, 2, 8, 4, 6, 15, 11, 1, 10, 9, 3, 14, 5, 0, 12, 7,
     1, 15, 13, 8, 10, 3, 7, 4, 12, 5, 6, 11, 0, 14, 9, 2,
     7, 11, 4, 1, 9, 12, 14, 2, 0, 6, 10, 13, 15, 3, 5, 8,
     2, 1, 14, 7, 4, 10, 8, 13, 15, 12, 9, 0, 3, 5, 6, 11]"

datatype DES_MODE = DES_ENCRYPT | DES_DECRYPT

text \<open>\<open>state[0]\<close> and \<open>state[1]\<close>, from the eight bytes of \<open>in\<close>.\<close>

definition IP :: "byte list \<Rightarrow> word32 \<times> word32" where
  "IP inp =
    (BITNUM inp 57 31 OR BITNUM inp 49 30 OR BITNUM inp 41 29 OR BITNUM inp 33 28 OR
     BITNUM inp 25 27 OR BITNUM inp 17 26 OR BITNUM inp 9 25 OR BITNUM inp 1 24 OR
     BITNUM inp 59 23 OR BITNUM inp 51 22 OR BITNUM inp 43 21 OR BITNUM inp 35 20 OR
     BITNUM inp 27 19 OR BITNUM inp 19 18 OR BITNUM inp 11 17 OR BITNUM inp 3 16 OR
     BITNUM inp 61 15 OR BITNUM inp 53 14 OR BITNUM inp 45 13 OR BITNUM inp 37 12 OR
     BITNUM inp 29 11 OR BITNUM inp 21 10 OR BITNUM inp 13 9 OR BITNUM inp 5 8 OR
     BITNUM inp 63 7 OR BITNUM inp 55 6 OR BITNUM inp 47 5 OR BITNUM inp 39 4 OR
     BITNUM inp 31 3 OR BITNUM inp 23 2 OR BITNUM inp 15 1 OR BITNUM inp 7 0,
     BITNUM inp 56 31 OR BITNUM inp 48 30 OR BITNUM inp 40 29 OR BITNUM inp 32 28 OR
     BITNUM inp 24 27 OR BITNUM inp 16 26 OR BITNUM inp 8 25 OR BITNUM inp 0 24 OR
     BITNUM inp 58 23 OR BITNUM inp 50 22 OR BITNUM inp 42 21 OR BITNUM inp 34 20 OR
     BITNUM inp 26 19 OR BITNUM inp 18 18 OR BITNUM inp 10 17 OR BITNUM inp 2 16 OR
     BITNUM inp 60 15 OR BITNUM inp 52 14 OR BITNUM inp 44 13 OR BITNUM inp 36 12 OR
     BITNUM inp 28 11 OR BITNUM inp 20 10 OR BITNUM inp 12 9 OR BITNUM inp 4 8 OR
     BITNUM inp 62 7 OR BITNUM inp 54 6 OR BITNUM inp 46 5 OR BITNUM inp 38 4 OR
     BITNUM inp 30 3 OR BITNUM inp 22 2 OR BITNUM inp 14 1 OR BITNUM inp 6 0)"

text \<open>The eight bytes of the output block.\<close>

definition InvIP :: "word32 \<times> word32 \<Rightarrow> byte list" where
  "InvIP = (\<lambda>(s0, s1).
    [byte_of (BITNUMINTR s1 7 7 OR BITNUMINTR s0 7 6 OR BITNUMINTR s1 15 5 OR BITNUMINTR s0 15 4 OR
       BITNUMINTR s1 23 3 OR BITNUMINTR s0 23 2 OR BITNUMINTR s1 31 1 OR BITNUMINTR s0 31 0),
     byte_of (BITNUMINTR s1 6 7 OR BITNUMINTR s0 6 6 OR BITNUMINTR s1 14 5 OR BITNUMINTR s0 14 4 OR
       BITNUMINTR s1 22 3 OR BITNUMINTR s0 22 2 OR BITNUMINTR s1 30 1 OR BITNUMINTR s0 30 0),
     byte_of (BITNUMINTR s1 5 7 OR BITNUMINTR s0 5 6 OR BITNUMINTR s1 13 5 OR BITNUMINTR s0 13 4 OR
       BITNUMINTR s1 21 3 OR BITNUMINTR s0 21 2 OR BITNUMINTR s1 29 1 OR BITNUMINTR s0 29 0),
     byte_of (BITNUMINTR s1 4 7 OR BITNUMINTR s0 4 6 OR BITNUMINTR s1 12 5 OR BITNUMINTR s0 12 4 OR
       BITNUMINTR s1 20 3 OR BITNUMINTR s0 20 2 OR BITNUMINTR s1 28 1 OR BITNUMINTR s0 28 0),
     byte_of (BITNUMINTR s1 3 7 OR BITNUMINTR s0 3 6 OR BITNUMINTR s1 11 5 OR BITNUMINTR s0 11 4 OR
       BITNUMINTR s1 19 3 OR BITNUMINTR s0 19 2 OR BITNUMINTR s1 27 1 OR BITNUMINTR s0 27 0),
     byte_of (BITNUMINTR s1 2 7 OR BITNUMINTR s0 2 6 OR BITNUMINTR s1 10 5 OR BITNUMINTR s0 10 4 OR
       BITNUMINTR s1 18 3 OR BITNUMINTR s0 18 2 OR BITNUMINTR s1 26 1 OR BITNUMINTR s0 26 0),
     byte_of (BITNUMINTR s1 1 7 OR BITNUMINTR s0 1 6 OR BITNUMINTR s1 9 5 OR BITNUMINTR s0 9 4 OR
       BITNUMINTR s1 17 3 OR BITNUMINTR s0 17 2 OR BITNUMINTR s1 25 1 OR BITNUMINTR s0 25 0),
     byte_of (BITNUMINTR s1 0 7 OR BITNUMINTR s0 0 6 OR BITNUMINTR s1 8 5 OR BITNUMINTR s0 8 4 OR
       BITNUMINTR s1 16 3 OR BITNUMINTR s0 16 2 OR BITNUMINTR s1 24 1 OR BITNUMINTR s0 24 0)])"

text \<open>The first word \<open>t1\<close> and the second word \<open>t2\<close> of the expansion.\<close>

definition expand1 :: "word32 \<Rightarrow> word32" where
  "expand1 state =
     BITNUMINTL state 31 0 OR drop_bit 1 (state AND 0xf0000000) OR BITNUMINTL state 4 5 OR
     BITNUMINTL state 3 6 OR drop_bit 3 (state AND 0x0f000000) OR BITNUMINTL state 8 11 OR
     BITNUMINTL state 7 12 OR drop_bit 5 (state AND 0x00f00000) OR BITNUMINTL state 12 17 OR
     BITNUMINTL state 11 18 OR drop_bit 7 (state AND 0x000f0000) OR BITNUMINTL state 16 23"

definition expand2 :: "word32 \<Rightarrow> word32" where
  "expand2 state =
     BITNUMINTL state 15 0 OR push_bit 15 (state AND 0x0000f000) OR BITNUMINTL state 20 5 OR
     BITNUMINTL state 19 6 OR push_bit 13 (state AND 0x00000f00) OR BITNUMINTL state 24 11 OR
     BITNUMINTL state 23 12 OR push_bit 11 (state AND 0x000000f0) OR BITNUMINTL state 28 17 OR
     BITNUMINTL state 27 18 OR push_bit 9 (state AND 0x0000000f) OR BITNUMINTL state 0 23"

text \<open>\<open>lrgstate\<close>, the expanded state exclusive-or the round key.\<close>

definition mix_key :: "word32 \<Rightarrow> byte list \<Rightarrow> byte list" where
  "mix_key state key =
    [byte_of (drop_bit 24 (expand1 state) AND 0x000000ff) XOR key ! 0,
     byte_of (drop_bit 16 (expand1 state) AND 0x000000ff) XOR key ! 1,
     byte_of (drop_bit 8 (expand1 state) AND 0x000000ff) XOR key ! 2,
     byte_of (drop_bit 24 (expand2 state) AND 0x000000ff) XOR key ! 3,
     byte_of (drop_bit 16 (expand2 state) AND 0x000000ff) XOR key ! 4,
     byte_of (drop_bit 8 (expand2 state) AND 0x000000ff) XOR key ! 5]"

definition sbox_out :: "byte list \<Rightarrow> byte \<Rightarrow> word32" where
  "sbox_out sbox i = ucast (sbox ! unat (SBOXBIT i))"

definition substitute :: "byte list \<Rightarrow> word32" where
  "substitute l =
     push_bit 28 (sbox_out sbox1 (drop_bit 2 (l ! 0))) OR
     push_bit 24 (sbox_out sbox2 (push_bit 4 (l ! 0 AND 0x03) OR drop_bit 4 (l ! 1))) OR
     push_bit 20 (sbox_out sbox3 (push_bit 2 (l ! 1 AND 0x0f) OR drop_bit 6 (l ! 2))) OR
     push_bit 16 (sbox_out sbox4 (l ! 2 AND 0x3f)) OR
     push_bit 12 (sbox_out sbox5 (drop_bit 2 (l ! 3))) OR
     push_bit 8 (sbox_out sbox6 (push_bit 4 (l ! 3 AND 0x03) OR drop_bit 4 (l ! 4))) OR
     push_bit 4 (sbox_out sbox7 (push_bit 2 (l ! 4 AND 0x0f) OR drop_bit 6 (l ! 5))) OR
     sbox_out sbox8 (l ! 5 AND 0x3f)"

definition permute :: "word32 \<Rightarrow> word32" where
  "permute state =
     BITNUMINTL state 15 0 OR BITNUMINTL state 6 1 OR BITNUMINTL state 19 2 OR BITNUMINTL state 20 3 OR
     BITNUMINTL state 28 4 OR BITNUMINTL state 11 5 OR BITNUMINTL state 27 6 OR BITNUMINTL state 16 7 OR
     BITNUMINTL state 0 8 OR BITNUMINTL state 14 9 OR BITNUMINTL state 22 10 OR BITNUMINTL state 25 11 OR
     BITNUMINTL state 4 12 OR BITNUMINTL state 17 13 OR BITNUMINTL state 30 14 OR BITNUMINTL state 9 15 OR
     BITNUMINTL state 1 16 OR BITNUMINTL state 7 17 OR BITNUMINTL state 23 18 OR BITNUMINTL state 13 19 OR
     BITNUMINTL state 31 20 OR BITNUMINTL state 26 21 OR BITNUMINTL state 2 22 OR BITNUMINTL state 8 23 OR
     BITNUMINTL state 18 24 OR BITNUMINTL state 12 25 OR BITNUMINTL state 29 26 OR BITNUMINTL state 5 27 OR
     BITNUMINTL state 21 28 OR BITNUMINTL state 10 29 OR BITNUMINTL state 3 30 OR BITNUMINTL state 24 31"

text \<open>\<open>f(state, key)\<close>.\<close>

definition des_f :: "word32 \<Rightarrow> byte list \<Rightarrow> word32" where
  "des_f state key = permute (substitute (mix_key state key))"

definition key_rnd_shift :: "nat list" where
  "key_rnd_shift = [1, 1, 2, 2, 2, 2, 2, 2, 1, 2, 2, 2, 2, 2, 2, 1]"

definition key_perm_c :: "nat list" where
  "key_perm_c =
    [56, 48, 40, 32, 24, 16, 8, 0, 57, 49, 41, 33, 25, 17,
     9, 1, 58, 50, 42, 34, 26, 18, 10, 2, 59, 51, 43, 35]"

definition key_perm_d :: "nat list" where
  "key_perm_d =
    [62, 54, 46, 38, 30, 22, 14, 6, 61, 53, 45, 37, 29, 21,
     13, 5, 60, 52, 44, 36, 28, 20, 12, 4, 27, 19, 11, 3]"

definition key_compression :: "nat list" where
  "key_compression =
    [13, 16, 10, 23, 0, 4, 2, 27, 14, 5, 20, 9, 22, 18, 11, 3,
     25, 7, 15, 6, 26, 19, 12, 1, 40, 51, 30, 36, 46, 54, 29, 39,
     50, 44, 32, 47, 43, 48, 38, 55, 33, 52, 45, 41, 49, 35, 28, 31]"

text \<open>\<open>for (i = 0, j = 31, C = 0; i < 28; ++i, --j) C |= BITNUM(key, perm[i], j);\<close>\<close>

definition choose_bits :: "byte list \<Rightarrow> nat list \<Rightarrow> word32" where
  "choose_bits key perm = fold (\<lambda>i C. C OR BITNUM key (perm ! i) (31 - i)) [0..<28] 0"

definition rotate_half :: "word32 \<Rightarrow> nat \<Rightarrow> word32" where
  "rotate_half C s = (push_bit s C OR drop_bit (28 - s) C) AND 0xfffffff0"

definition or_byte :: "byte list \<Rightarrow> nat \<Rightarrow> word32 \<Rightarrow> byte list" where
  "or_byte row i w = row[i := row ! i OR byte_of w]"

text \<open>The loops over \<open>j\<close> that fill the row \<open>schedule[to_gen]\<close>.\<close>

definition compress :: "word32 \<Rightarrow> word32 \<Rightarrow> byte list" where
  "compress C D =
     fold (\<lambda>j row. or_byte row (j div 8) (BITNUMINTR D (key_compression ! j - 28) (7 - j mod 8))) [24..<48]
       (fold (\<lambda>j row. or_byte row (j div 8) (BITNUMINTR C (key_compression ! j) (7 - j mod 8))) [0..<24]
         (replicate 6 0))"

function subkey_loop :: "DES_MODE \<Rightarrow> byte list list \<Rightarrow> word32 \<Rightarrow> word32 \<Rightarrow> nat \<Rightarrow> byte list list option" where
  "subkey_loop mode schedule C D i =
     (if i < 16 then do {
        let C = rotate_half C (key_rnd_shift ! i);
        let D = rotate_half D (key_rnd_shift ! i);
        let to_gen = (if mode = DES_DECRYPT then 15 - i else i);
        schedule \<leftarrow> aset schedule to_gen (compress C D);
        subkey_loop mode schedule C D (i + 1) }
      else Some schedule)"
  by pat_completeness auto
termination
  by (relation "measure (\<lambda>(mode, schedule, C, D, i). 16 - i)") auto

definition des_key_setup :: "byte list \<Rightarrow> byte list list \<Rightarrow> DES_MODE \<Rightarrow> byte list list option" where
  "des_key_setup key schedule mode =
     (if length key < 8 then None
      else subkey_loop mode schedule (choose_bits key key_perm_c) (choose_bits key key_perm_d) 0)"

function crypt_loop :: "byte list list \<Rightarrow> word32 \<times> word32 \<Rightarrow> nat \<Rightarrow> (word32 \<times> word32) option" where
  "crypt_loop key state idx =
     (if idx < 15 then do {
        k \<leftarrow> aget key idx;
        crypt_loop key (snd state, des_f (snd state) k XOR fst state) (idx + 1) }
      else Some state)"
  by pat_completeness auto
termination
  by (relation "measure (\<lambda>(key, state, idx). 15 - idx)") auto

text \<open>The eight bytes of the block are read before the output is written, so \<open>in\<close> and \<open>out\<close> may be the same.\<close>

definition des_crypt :: "byte list \<Rightarrow> byte list \<Rightarrow> byte list list \<Rightarrow> byte list option" where
  "des_crypt inp out key =
     (if length inp < 8 then None else do {
        state \<leftarrow> crypt_loop key (IP inp) 0;
        k \<leftarrow> aget key 15;
        let state = (des_f (snd state) k XOR fst state, snd state);
        bput out 0 (InvIP state) })"

definition other_mode :: "DES_MODE \<Rightarrow> DES_MODE" where
  "other_mode mode = (if mode = DES_ENCRYPT then DES_DECRYPT else DES_ENCRYPT)"

text \<open>\<open>des_key_setup(&key[off], schedule[n], mode)\<close> on the array of three schedules.\<close>

definition setup_at ::
  "byte list \<Rightarrow> nat \<Rightarrow> byte list list list \<Rightarrow> nat \<Rightarrow> DES_MODE \<Rightarrow> byte list list list option" where
  "setup_at key off schedule n mode = do {
     old \<leftarrow> aget schedule n;
     new \<leftarrow> des_key_setup (drop off key) old mode;
     aset schedule n new }"

definition three_des_key_setup :: "byte list \<Rightarrow> byte list list list \<Rightarrow> DES_MODE \<Rightarrow> byte list list list option" where
  "three_des_key_setup key schedule mode =
     (if mode = DES_ENCRYPT then do {
        schedule \<leftarrow> setup_at key 0 schedule 0 mode;
        schedule \<leftarrow> setup_at key 8 schedule 1 (other_mode mode);
        setup_at key 16 schedule 2 mode }
      else do {
        schedule \<leftarrow> setup_at key 16 schedule 0 mode;
        schedule \<leftarrow> setup_at key 8 schedule 1 (other_mode mode);
        setup_at key 0 schedule 2 mode })"

definition three_des_crypt :: "byte list \<Rightarrow> byte list \<Rightarrow> byte list list list \<Rightarrow> byte list option" where
  "three_des_crypt inp out key = do {
     k \<leftarrow> aget key 0;
     out \<leftarrow> des_crypt inp out k;
     k \<leftarrow> aget key 1;
     out \<leftarrow> des_crypt out out k;
     k \<leftarrow> aget key 2;
     des_crypt out out k }"

declare subkey_loop.simps [simp del] crypt_loop.simps [simp del]

section \<open>Bits\<close>

lemma bit_BITNUM:
  "c < 32 \<Longrightarrow> bit (BITNUM a b c) n \<longleftrightarrow> n = c \<and> bit (a ! (b div 8)) (7 - b mod 8)"
  by (auto simp: BITNUM_def bit_simps)

lemma bit_BITNUMINTR:
  "c < 32 \<Longrightarrow> bit (BITNUMINTR a b c) n \<longleftrightarrow> n = c \<and> bit a (31 - b)"
  by (auto simp: BITNUMINTR_def bit_simps)

lemma bit_high: "bit (0x80000000 :: int) n \<longleftrightarrow> n = 31"
proof -
  have "(0x80000000 :: int) = 2 ^ 31" by simp
  then show ?thesis by (simp only: bit_exp_iff) (auto simp: possible_bit_def)
qed

lemma bit_BITNUMINTL:
  "b < 32 \<Longrightarrow> c < 32 \<Longrightarrow> bit (BITNUMINTL a b c) n \<longleftrightarrow> n = 31 - c \<and> bit a (31 - b)"
  unfolding BITNUMINTL_def by (auto simp: bit_simps bit_high)

lemmas bit_macros = bit_BITNUM bit_BITNUMINTR bit_BITNUMINTL

lemma IP_InvIP: "IP (InvIP s) = s"
proof (cases s)
  case (Pair s0 s1)
  have "IP (InvIP (s0, s1)) = (s0, s1)"
    unfolding IP_def InvIP_def prod.case prod.inject
    by (intro conjI word32_eqI; elim insertE emptyE) 
      (simp_all add: bit_or_iff bit_macros bit_unsigned_iff nth_Cons_numeral)
  then show ?thesis using Pair by simp
qed

lemma length_InvIP [simp]: "length (InvIP s) = 8"
  by (simp add: InvIP_def split: prod.splits)

lemma BITNUM_take: "8 \<le> length inp \<Longrightarrow> b < 64 \<Longrightarrow> BITNUM (take 8 inp @ rest) b c = BITNUM inp b c"
  by (simp add: BITNUM_def nth_append)

lemma IP_take: "8 \<le> length inp \<Longrightarrow> IP (take 8 inp @ rest) = IP inp"
  unfolding IP_def by (simp only: BITNUM_take numeral_less_iff num.simps) (simp add: BITNUM_take)

text \<open>Both spaces have \<open>2 ^ 64\<close> elements, so the injective \<open>InvIP\<close> reaches every block.\<close>

lemma InvIP_onto: "range InvIP = {xs :: byte list. length xs = 8}"
proof (rule card_subset_eq)
  have set: "{xs :: byte list. length xs = 8} = {xs. set xs \<subseteq> UNIV \<and> length xs = 8}" by simp
  show "finite {xs :: byte list. length xs = 8}" unfolding set by (rule finite_lists_length_eq) simp
  have "inj InvIP" by (rule injI) (metis IP_InvIP)
  then have "card (range InvIP) = CARD(word32 \<times> word32)" by (rule card_image)
  also have "\<dots> = CARD(byte) ^ 8" by (simp add: card_word)
  also have "\<dots> = card {xs :: byte list. length xs = 8}"
    unfolding set by (rule card_lists_length_eq [symmetric]) simp
  finally show "card (range InvIP) = card {xs :: byte list. length xs = 8}" .
qed auto

lemma InvIP_IP:
  assumes "8 \<le> length inp"
  shows "InvIP (IP inp) = take 8 inp"
proof -
  have "take 8 inp \<in> range InvIP" using assms by (simp add: InvIP_onto)
  then obtain s where "take 8 inp = InvIP s" by blast
  then show ?thesis using IP_InvIP IP_take [OF assms, of "[]"] by (metis append_Nil2)
qed

section \<open>The cipher as a Feistel network\<close>

definition des_round :: "byte list \<Rightarrow> word32 \<times> word32 \<Rightarrow> word32 \<times> word32" where
  "des_round k = (\<lambda>(l, r). (r, des_f r k XOR l))"

interpretation des: feistel des_round
proof
  fix k s
  show "prod.swap (des_round k (prod.swap (des_round k s))) = s"
    by (cases s) (simp add: des_round_def xor.assoc [symmetric])
qed

definition des_block :: "byte list list \<Rightarrow> byte list \<Rightarrow> byte list" where
  "des_block ks inp = InvIP (prod.swap (fold des_round ks (IP inp)))"

lemma crypt_loop_eq:
  assumes "length key = 16" "idx \<le> 15"
  shows "crypt_loop key state idx = Some (fold des_round (take (15 - idx) (drop idx key)) state)"
  using assms(2)
proof (induction "15 - idx" arbitrary: idx state)
  case 0
  then show ?case by (subst crypt_loop.simps) simp
next
  case (Suc n)
  then have i: "idx < 15" by simp
  then have "crypt_loop key state idx = crypt_loop key (des_round (key ! idx) state) (idx + 1)"
    using assms(1) by (subst crypt_loop.simps) (simp add: array_simps des_round_def split: prod.splits)
  also have "\<dots> = Some (fold des_round (take (15 - (idx + 1)) (drop (idx + 1) key)) (des_round (key ! idx) state))"
    using Suc i by (intro Suc.hyps(1)) simp_all
  also have "take (15 - idx) (drop idx key) = key ! idx # take (15 - (idx + 1)) (drop (idx + 1) key)"
    using i assms(1) by (simp add: Cons_nth_drop_Suc [symmetric] Suc_diff_Suc [symmetric] take_Suc_Cons)
  ultimately show ?case by simp
qed

lemma des_crypt_eq:
  assumes "length key = 16" "8 \<le> length inp" "8 \<le> length out"
  shows "des_crypt inp out key = Some (des_block key inp @ drop 8 out)"
proof -
  define ks k15 where "ks = butlast key" and "k15 = last key"
  have "key \<noteq> []" using assms(1) by auto
  then have k: "key = ks @ [k15]" "length ks = 15" using assms(1) by (simp_all add: ks_def k15_def)
  have "des_block key inp = InvIP (case fold des_round ks (IP inp) of (l, r) \<Rightarrow> (des_f r k15 XOR l, r))"
    unfolding des_block_def k by (simp add: des_round_def split: prod.splits)
  moreover have "crypt_loop key (IP inp) 0 = Some (fold des_round ks (IP inp))"
    using crypt_loop_eq [OF assms(1), of 0 "IP inp"] k by simp
  moreover have "key ! 15 = k15" using k by (simp add: nth_append)
  ultimately show ?thesis
    using assms by (simp add: des_crypt_def array_simps buf_write_def split: prod.splits)
qed

lemma length_des_block [simp]: "length (des_block ks inp) = 8"
  by (simp add: des_block_def)

lemma des_block_cancel:
  assumes "8 \<le> length inp"
  shows "des_block (rev ks) (des_block ks inp) = take 8 inp"
    and "des_block ks (des_block (rev ks) inp) = take 8 inp"
  using InvIP_IP [OF assms]
  by (simp_all add: des_block_def IP_InvIP des.rounds_cancel des.rounds_cancel_rev)

lemma des_block_take: "8 \<le> length inp \<Longrightarrow> des_block ks (take 8 inp @ rest) = des_block ks inp"
  by (simp add: des_block_def IP_take)


section \<open>Key schedules\<close>

primrec subkeys :: "word32 \<Rightarrow> word32 \<Rightarrow> nat list \<Rightarrow> byte list list" where
  "subkeys C D [] = []"
| "subkeys C D (s # ss) =
     compress (rotate_half C s) (rotate_half D s) # subkeys (rotate_half C s) (rotate_half D s) ss"

definition des_keys :: "byte list \<Rightarrow> byte list list" where
  "des_keys key = subkeys (choose_bits key key_perm_c) (choose_bits key key_perm_d) key_rnd_shift"

lemma length_subkeys [simp]: "length (subkeys C D ss) = length ss"
  by (induction ss arbitrary: C D) simp_all

lemma length_key_rnd_shift [simp]: "length key_rnd_shift = 16"
  by (simp add: key_rnd_shift_def)

lemma length_des_keys [simp]: "length (des_keys key) = 16"
  by (simp add: des_keys_def)

lemma subkey_loop_eq:
  assumes "length schedule = 16" "i \<le> 16"
  shows "subkey_loop DES_ENCRYPT schedule C D i = Some (take i schedule @ subkeys C D (drop i key_rnd_shift))"
    and "subkey_loop DES_DECRYPT schedule C D i =
      Some (rev (subkeys C D (drop i key_rnd_shift)) @ drop (16 - i) schedule)"
  using assms
proof (induction "16 - i" arbitrary: i C D schedule)
  case 0
  { case 1 show ?case using 0 1 by (subst subkey_loop.simps) simp }
  { case 2 show ?case using 0 2 by (subst subkey_loop.simps) simp }
next
  case (Suc n)
  define s where "s = key_rnd_shift ! i"
  have h: "n = 16 - (i + 1)" "i < 16" using Suc.hyps(3) by simp_all
  have d: "drop i key_rnd_shift = s # drop (i + 1) key_rnd_shift"
    unfolding s_def using h(2) by (simp add: Cons_nth_drop_Suc)
  { case 1
    let ?r = "compress (rotate_half C s) (rotate_half D s)"
    have "subkey_loop DES_ENCRYPT schedule C D i =
        subkey_loop DES_ENCRYPT (schedule[i := ?r]) (rotate_half C s) (rotate_half D s) (i + 1)"
      using h(2) 1(1) by (subst subkey_loop.simps) (simp add: array_simps s_def Let_def)
    then show ?case
      using Suc.hyps(1) [OF h(1), of "schedule[i := ?r]" "rotate_half C s" "rotate_half D s"] 1 h(2) d
      by (simp add: take_Suc_conv_app_nth) }
  { case 2
    let ?r = "compress (rotate_half C s) (rotate_half D s)"
    have "subkey_loop DES_DECRYPT schedule C D i =
        subkey_loop DES_DECRYPT (schedule[15 - i := ?r]) (rotate_half C s) (rotate_half D s) (i + 1)"
      using h(2) 2(1) by (subst subkey_loop.simps) (simp add: array_simps s_def Let_def)
    moreover have "drop (15 - i) (schedule[15 - i := ?r]) = ?r # drop (16 - i) schedule"
      using h(2) 2(1) by (simp add: Cons_nth_drop_Suc [symmetric] Suc_diff_le [symmetric])
    ultimately show ?case
      using Suc.hyps(2) [OF h(1), of "schedule[15 - i := ?r]" "rotate_half C s" "rotate_half D s"] 2 h(2) d
      by simp }
qed

lemma des_key_setup_eq:
  assumes "8 \<le> length key" "length schedule = 16"
  shows "des_key_setup key schedule DES_ENCRYPT = Some (des_keys key)"
    and "des_key_setup key schedule DES_DECRYPT = Some (rev (des_keys key))"
  using assms subkey_loop_eq [of schedule 0] by (simp_all add: des_key_setup_def des_keys_def)


lemma three_schedules: "length s = 3 \<Longrightarrow> \<exists>a b c. s = [a, b, c]"
  by (auto simp: length_Suc_conv eval_nat_numeral)

lemma setup_at_eq:
  assumes "off + 8 \<le> length key" "n < length schedule" "length (schedule ! n) = 16"
  shows "setup_at key off schedule n mode =
    Some (schedule[n := (if mode = DES_ENCRYPT then des_keys (drop off key) else rev (des_keys (drop off key)))])"
  using assms des_key_setup_eq [of "drop off key" "schedule ! n"]
  by (cases mode) (simp_all add: setup_at_def array_simps)

lemma three_des_key_setup_eq:
  assumes "24 \<le> length key" "length schedule = 3" "\<And>s. s \<in> set schedule \<Longrightarrow> length s = 16"
  defines "k0 \<equiv> des_keys key" and "k1 \<equiv> des_keys (drop 8 key)" and "k2 \<equiv> des_keys (drop 16 key)"
  shows "three_des_key_setup key schedule DES_ENCRYPT = Some [k0, rev k1, k2]"
    and "three_des_key_setup key schedule DES_DECRYPT = Some [rev k2, k1, rev k0]"
proof -
  obtain a b c where s: "schedule = [a, b, c]" using three_schedules [OF assms(2)] by blast
  then have l: "length a = 16" "length b = 16" "length c = 16" using assms(3) by auto
  show "three_des_key_setup key schedule DES_ENCRYPT = Some [k0, rev k1, k2]"
    "three_des_key_setup key schedule DES_DECRYPT = Some [rev k2, k1, rev k0]"
    unfolding three_des_key_setup_def s k0_def k1_def k2_def
    using assms(1) l by (simp_all add: setup_at_eq other_mode_def numeral_2_eq_2)
qed

lemma three_des_crypt_eq:
  assumes "length a = 16" "length b = 16" "length c = 16" "8 \<le> length inp" "8 \<le> length out"
  shows "three_des_crypt inp out [a, b, c] = Some (des_block c (des_block b (des_block a inp)) @ drop 8 out)"
proof -
  have t: "des_block k (des_block k' x @ y) = des_block k (des_block k' x)" for k k' x y
    using des_block_take [of "des_block k' x" k y] by simp
  show ?thesis
    unfolding three_des_crypt_def using assms by (simp add: array_simps des_crypt_eq t numeral_2_eq_2)
qed

section \<open>Properties\<close>

text \<open>
  C12 (DES round trip). For any key of eight bytes and whatever the schedule arrays held, decrypting
  with the decryption schedule restores every block that was encrypted with the encryption
  schedule, and the other way round; the decryption schedule is the encryption schedule reversed.
\<close>
theorem des_round_trip:
  assumes "8 \<le> length key" "length schedule = 16" "8 \<le> length inp" "8 \<le> length out"
  shows "\<exists>ek dk ct pt. des_key_setup key schedule DES_ENCRYPT = Some ek \<and>
    des_key_setup key schedule DES_DECRYPT = Some dk \<and> dk = rev ek \<and>
    des_crypt inp out ek = Some ct \<and> des_crypt ct out dk = Some (take 8 inp @ drop 8 out) \<and>
    des_crypt inp out dk = Some pt \<and> des_crypt pt out ek = Some (take 8 inp @ drop 8 out)"
proof -
  let ?k = "des_keys key"
  have t: "des_block k (des_block k' inp @ y) = des_block k (des_block k' inp)" for k k' y
    using des_block_take [of "des_block k' inp" k y] by simp
  have "des_crypt inp out ?k = Some (des_block ?k inp @ drop 8 out)"
    "des_crypt (des_block ?k inp @ drop 8 out) out (rev ?k) = Some (take 8 inp @ drop 8 out)"
    "des_crypt inp out (rev ?k) = Some (des_block (rev ?k) inp @ drop 8 out)"
    "des_crypt (des_block (rev ?k) inp @ drop 8 out) out ?k = Some (take 8 inp @ drop 8 out)"
    using assms(3,4) by (simp_all add: des_crypt_eq t des_block_cancel)
  then show ?thesis using des_key_setup_eq [OF assms(1,2)] by blast
qed

theorem des_round_trip_witness:
  "\<exists>ek dk ct pt. des_key_setup [1, 2, 3, 4, 5, 6, 7, 8] (replicate 16 (replicate 6 0)) DES_ENCRYPT = Some ek \<and>
    des_key_setup [1, 2, 3, 4, 5, 6, 7, 8] (replicate 16 (replicate 6 0)) DES_DECRYPT = Some dk \<and> dk = rev ek \<and>
    des_crypt [8, 7, 6, 5, 4, 3, 2, 1] (replicate 9 0) ek = Some ct \<and>
    des_crypt ct (replicate 9 0) dk = Some (take 8 [8, 7, 6, 5, 4, 3, 2, 1] @ drop 8 (replicate 9 0)) \<and>
    des_crypt [8, 7, 6, 5, 4, 3, 2, 1] (replicate 9 0) dk = Some pt \<and>
    des_crypt pt (replicate 9 0) ek = Some (take 8 [8, 7, 6, 5, 4, 3, 2, 1] @ drop 8 (replicate 9 0))"
  by (rule des_round_trip) simp_all

text \<open>
  Triple DES round trip. For a key of 24 bytes, \<open>three_des_crypt\<close> with the schedule made for
  decryption restores every block encrypted with the schedule made for encryption, and encryption is
  encrypt, decrypt, encrypt under the three key parts.
\<close>
theorem three_des_round_trip:
  assumes "24 \<le> length key" "length schedule = 3" "\<forall>s\<in>set schedule. length s = 16"
    and "8 \<le> length inp" "8 \<le> length out"
  shows "\<exists>ek dk ct c1 c2. three_des_key_setup key schedule DES_ENCRYPT = Some ek \<and>
    three_des_key_setup key schedule DES_DECRYPT = Some dk \<and>
    three_des_crypt inp out ek = Some ct \<and> three_des_crypt ct out dk = Some (take 8 inp @ drop 8 out) \<and>
    des_crypt inp out (des_keys key) = Some c1 \<and> des_crypt c1 out (rev (des_keys (drop 8 key))) = Some c2 \<and>
    des_crypt c2 out (des_keys (drop 16 key)) = Some ct"
proof -
  define k0 k1 k2 where "k0 = des_keys key" and "k1 = des_keys (drop 8 key)" and "k2 = des_keys (drop 16 key)"
  have l: "length k0 = 16" "length k1 = 16" "length k2 = 16" by (simp_all add: k0_def k1_def k2_def)
  have t: "des_block k (des_block k' x @ y) = des_block k (des_block k' x)" for k k' x y
    using des_block_take [of "des_block k' x" k y] by simp
  have s: "three_des_key_setup key schedule DES_ENCRYPT = Some [k0, rev k1, k2]"
    "three_des_key_setup key schedule DES_DECRYPT = Some [rev k2, k1, rev k0]"
    unfolding k0_def k1_def k2_def by (rule three_des_key_setup_eq; use assms in simp)+
  have "three_des_crypt (des_block k2 (des_block (rev k1) (des_block k0 inp)) @ drop 8 out) out [rev k2, k1, rev k0] =
      Some (take 8 inp @ drop 8 out)"
    using assms(4,5) l by (simp add: three_des_crypt_eq t des_block_cancel)
  then show ?thesis
    unfolding s k0_def [symmetric] k1_def [symmetric] k2_def [symmetric] using assms(4,5) l
    by (simp add: three_des_crypt_eq des_crypt_eq t)
qed

theorem three_des_round_trip_witness:
  "\<exists>ek dk ct c1 c2.
    three_des_key_setup (replicate 8 1 @ replicate 8 2 @ replicate 8 3) (replicate 3 (replicate 16 (replicate 6 0))) DES_ENCRYPT = Some ek \<and>
    three_des_key_setup (replicate 8 1 @ replicate 8 2 @ replicate 8 3) (replicate 3 (replicate 16 (replicate 6 0))) DES_DECRYPT = Some dk \<and>
    three_des_crypt (replicate 8 7) (replicate 8 0) ek = Some ct \<and>
    three_des_crypt ct (replicate 8 0) dk = Some (take 8 (replicate 8 7) @ drop 8 (replicate 8 0)) \<and>
    des_crypt (replicate 8 7) (replicate 8 0) (des_keys (replicate 8 1 @ replicate 8 2 @ replicate 8 3)) = Some c1 \<and>
    des_crypt c1 (replicate 8 0) (rev (des_keys (drop 8 (replicate 8 1 @ replicate 8 2 @ replicate 8 3)))) = Some c2 \<and>
    des_crypt c2 (replicate 8 0) (des_keys (drop 16 (replicate 8 1 @ replicate 8 2 @ replicate 8 3))) = Some ct"
  by (rule three_des_round_trip) simp_all

end
