(* ===== verification/DesFips.thy ===== *)
theory DesFips
  imports Des
begin

text \<open>
  The Data Encryption Standard as FIPS 46-3 states it, on lists of bits numbered from 1 on the left,
  with the tables of the standard; and the proof that \<open>des.c\<close> computes it. Only the contents of the
  S-boxes are shared with the program: the standard addresses them by row and column, the program by
  a rearranged six-bit index.
\<close>

section \<open>The standard\<close>

type_synonym bits = "bool list"

definition byte_bits :: "byte \<Rightarrow> bits" where
  "byte_bits b = [bit b 7, bit b 6, bit b 5, bit b 4, bit b 3, bit b 2, bit b 1, bit b 0]"

definition block_bits :: "byte list \<Rightarrow> bits" where
  "block_bits bs = concat (map byte_bits bs)"

definition word_bits :: "word32 \<Rightarrow> bits" where
  "word_bits w = map (bit w) [31, 30, 29, 28, 27, 26, 25, 24, 23, 22, 21, 20, 19, 18, 17, 16,
     15, 14, 13, 12, 11, 10, 9, 8, 7, 6, 5, 4, 3, 2, 1, 0]"

definition select :: "nat list \<Rightarrow> bits \<Rightarrow> bits" where
  "select table b = map (\<lambda>i. b ! (i - 1)) table"

definition IP_table :: "nat list" where
  "IP_table =
    [58, 50, 42, 34, 26, 18, 10, 2, 60, 52, 44, 36, 28, 20, 12, 4,
     62, 54, 46, 38, 30, 22, 14, 6, 64, 56, 48, 40, 32, 24, 16, 8,
     57, 49, 41, 33, 25, 17, 9, 1, 59, 51, 43, 35, 27, 19, 11, 3,
     61, 53, 45, 37, 29, 21, 13, 5, 63, 55, 47, 39, 31, 23, 15, 7]"

definition FP_table :: "nat list" where
  "FP_table =
    [40, 8, 48, 16, 56, 24, 64, 32, 39, 7, 47, 15, 55, 23, 63, 31,
     38, 6, 46, 14, 54, 22, 62, 30, 37, 5, 45, 13, 53, 21, 61, 29,
     36, 4, 44, 12, 52, 20, 60, 28, 35, 3, 43, 11, 51, 19, 59, 27,
     34, 2, 42, 10, 50, 18, 58, 26, 33, 1, 41, 9, 49, 17, 57, 25]"

definition E_table :: "nat list" where
  "E_table =
    [32, 1, 2, 3, 4, 5, 4, 5, 6, 7, 8, 9,
     8, 9, 10, 11, 12, 13, 12, 13, 14, 15, 16, 17,
     16, 17, 18, 19, 20, 21, 20, 21, 22, 23, 24, 25,
     24, 25, 26, 27, 28, 29, 28, 29, 30, 31, 32, 1]"

definition P_table :: "nat list" where
  "P_table =
    [16, 7, 20, 21, 29, 12, 28, 17, 1, 15, 23, 26, 5, 18, 31, 10,
     2, 8, 24, 14, 32, 27, 3, 9, 19, 13, 30, 6, 22, 11, 4, 25]"

definition PC1_C :: "nat list" where
  "PC1_C =
    [57, 49, 41, 33, 25, 17, 9, 1, 58, 50, 42, 34, 26, 18,
     10, 2, 59, 51, 43, 35, 27, 19, 11, 3, 60, 52, 44, 36]"

definition PC1_D :: "nat list" where
  "PC1_D =
    [63, 55, 47, 39, 31, 23, 15, 7, 62, 54, 46, 38, 30, 22,
     14, 6, 61, 53, 45, 37, 29, 21, 13, 5, 28, 20, 12, 4]"

definition PC2 :: "nat list" where
  "PC2 =
    [14, 17, 11, 24, 1, 5, 3, 28, 15, 6, 21, 10, 23, 19, 12, 4,
     26, 8, 16, 7, 27, 20, 13, 2, 41, 52, 31, 37, 47, 55, 30, 40,
     51, 45, 33, 48, 44, 49, 39, 56, 34, 53, 46, 42, 50, 36, 29, 32]"

text \<open>A six-bit group selects row \<open>b1 b6\<close> and column \<open>b2 b3 b4 b5\<close> of its S-box.\<close>

fun S_bits :: "byte list \<Rightarrow> bits \<Rightarrow> bits" where
  "S_bits sbox [b1, b2, b3, b4, b5, b6] =
     (let v = sbox ! (16 * (2 * of_bool b1 + of_bool b6) + (8 * of_bool b2 + 4 * of_bool b3 + 2 * of_bool b4 + of_bool b5))
      in [bit v 3, bit v 2, bit v 1, bit v 0])"
| "S_bits sbox _ = []"

fun S_all :: "byte list list \<Rightarrow> bits \<Rightarrow> bits" where
  "S_all (sbox # sboxes) b = S_bits sbox (take 6 b) @ S_all sboxes (drop 6 b)"
| "S_all [] b = []"

definition fips_f :: "bits \<Rightarrow> bits \<Rightarrow> bits" where
  "fips_f R K = select P_table
     (S_all [sbox1, sbox2, sbox3, sbox4, sbox5, sbox6, sbox7, sbox8] (map2 (\<noteq>) (select E_table R) K))"

definition fips_round :: "bits \<Rightarrow> bits \<times> bits \<Rightarrow> bits \<times> bits" where
  "fips_round K = (\<lambda>(L, R). (R, map2 (\<noteq>) L (fips_f R K)))"

definition fips_des :: "bits list \<Rightarrow> bits \<Rightarrow> bits" where
  "fips_des Ks block = (let b = select IP_table block in
     case fold fips_round Ks (take 32 b, drop 32 b) of (L, R) \<Rightarrow> select FP_table (R @ L))"

primrec fips_subkeys :: "bits \<Rightarrow> bits \<Rightarrow> nat list \<Rightarrow> bits list" where
  "fips_subkeys C D [] = []"
| "fips_subkeys C D (s # ss) = select PC2 (rotate s C @ rotate s D) # fips_subkeys (rotate s C) (rotate s D) ss"

definition fips_keys :: "bits \<Rightarrow> bits list" where
  "fips_keys key = fips_subkeys (select PC1_C key) (select PC1_D key)
     [1, 1, 2, 2, 2, 2, 2, 2, 1, 2, 2, 2, 2, 2, 2, 1]"

section \<open>Permutations and the round function\<close>

lemma length_word_bits [simp]: "length (word_bits w) = 32"
  by (simp add: word_bits_def)

lemma eight_bytes: "length xs = 8 \<Longrightarrow> \<exists>a b c d e f g h. xs = [a, b, c, d, e, f, g, h]"
  by (auto simp: length_Suc_conv eval_nat_numeral)

lemma block_bits_8:
  "block_bits [a, b, c, d, e, f, g, h] = byte_bits a @ byte_bits b @ byte_bits c @ byte_bits d @
     byte_bits e @ byte_bits f @ byte_bits g @ byte_bits h"
  by (simp add: block_bits_def)

lemma IP_bits:
  assumes "length inp = 8"
  shows "word_bits (fst (IP inp)) @ word_bits (snd (IP inp)) = select IP_table (block_bits inp)"
proof -
  obtain a b c d e f g h where i: "inp = [a, b, c, d, e, f, g, h]" using eight_bytes [OF assms] by blast
  show ?thesis
    unfolding i block_bits_8
    by (simp add: IP_def word_bits_def select_def IP_table_def byte_bits_def bit_or_iff bit_macros)
qed

lemma InvIP_bits: "block_bits (InvIP (s0, s1)) = select FP_table (word_bits s0 @ word_bits s1)"
  by (simp add: InvIP_def block_bits_def word_bits_def select_def FP_table_def byte_bits_def bit_or_iff
      bit_macros bit_unsigned_iff)

lemma permute_bits: "word_bits (permute w) = select P_table (word_bits w)"
  by (simp add: permute_def word_bits_def select_def P_table_def bit_or_iff bit_macros)

lemma expand_bits:
  "block_bits [byte_of (drop_bit 24 (expand1 w) AND 255), byte_of (drop_bit 16 (expand1 w) AND 255),
     byte_of (drop_bit 8 (expand1 w) AND 255), byte_of (drop_bit 24 (expand2 w) AND 255),
     byte_of (drop_bit 16 (expand2 w) AND 255), byte_of (drop_bit 8 (expand2 w) AND 255)] =
   select E_table (word_bits w)"
  by (simp add: block_bits_def byte_bits_def expand1_def expand2_def word_bits_def select_def E_table_def
      bit_or_iff bit_and_iff bit_drop_bit_eq bit_push_bit_iff bit_macros bit_unsigned_iff)


lemma byte_bits_xor: "byte_bits (a XOR b) = map2 (\<noteq>) (byte_bits a) (byte_bits b)"
  by (simp add: byte_bits_def bit_xor_iff)

lemma length_byte_bits [simp]: "length (byte_bits b) = 8"
  by (simp add: byte_bits_def)

lemma six_bytes: "length xs = 6 \<Longrightarrow> \<exists>a b c d e f. xs = [a, b, c, d, e, f]"
  by (auto simp: length_Suc_conv eval_nat_numeral)

lemma mix_key_bits:
  assumes "length k = 6"
  shows "block_bits (mix_key w k) = map2 (\<noteq>) (select E_table (word_bits w)) (block_bits k)"
proof -
  obtain a b c d e f where k: "k = [a, b, c, d, e, f]" using six_bytes [OF assms] by blast
  show ?thesis
    unfolding expand_bits [symmetric] k mix_key_def
    by (simp add: block_bits_def byte_bits_xor)
qed

definition row_column :: "byte \<Rightarrow> nat" where
  "row_column x = 16 * (2 * of_bool (bit x 5) + of_bool (bit x 0)) +
     (8 * of_bool (bit x 4) + 4 * of_bool (bit x 3) + 2 * of_bool (bit x 2) + of_bool (bit x 1))"

lemma SBOXBIT_table: "list_all (\<lambda>n. unat (SBOXBIT (of_nat n)) = row_column (of_nat n)) [0..<64]"
  by code_simp

lemma SBOXBIT_index:
  assumes "take_bit 6 x = x"
  shows "unat (SBOXBIT x) = row_column x"
proof -
  have "unat x = take_bit 6 (unat x)" using assms by (metis unsigned_take_bit_eq)
  also have "\<dots> < 64" by (simp add: take_bit_eq_mod)
  finally have "unat x \<in> set [0..<64]" by simp
  then have "unat (SBOXBIT (of_nat (unat x))) = row_column (of_nat (unat x))"
    using SBOXBIT_table unfolding list_all_iff by blast
  then show ?thesis by simp
qed

lemma row_column_less: "row_column x < 64"
  by (simp add: row_column_def of_bool_def)

lemma sbox_small:
  "\<forall>sbox\<in>{sbox1, sbox2, sbox3, sbox4, sbox5, sbox6, sbox7, sbox8}. length sbox = 64 \<and> (\<forall>v\<in>set sbox. take_bit 4 v = v)"
  by (simp add: sbox1_def sbox2_def sbox3_def sbox4_def sbox5_def sbox6_def sbox7_def sbox8_def)

lemma sbox_out_high:
  assumes "sbox \<in> {sbox1, sbox2, sbox3, sbox4, sbox5, sbox6, sbox7, sbox8}" "take_bit 6 x = x" "4 \<le> n"
  shows "\<not> bit (sbox_out sbox x) n"
proof -
  have "sbox ! unat (SBOXBIT x) \<in> set sbox"
    using sbox_small assms(1) row_column_less [of x] SBOXBIT_index [OF assms(2)] by (metis nth_mem)
  then have "take_bit 4 (sbox ! unat (SBOXBIT x)) = sbox ! unat (SBOXBIT x)"
    using sbox_small assms(1) by blast
  then have "\<not> bit (sbox ! unat (SBOXBIT x)) n" using assms(3) by (metis bit_take_bit_iff not_less)
  then show ?thesis by (simp add: sbox_out_def bit_unsigned_iff)
qed

lemma S_bits_eq:
  assumes "take_bit 6 x = x"
  shows "S_bits sbox [bit x 5, bit x 4, bit x 3, bit x 2, bit x 1, bit x 0] =
    map (bit (sbox_out sbox x)) [3, 2, 1, 0]"
  unfolding sbox_out_def SBOXBIT_index [OF assms] row_column_def by (simp add: Let_def bit_unsigned_iff)

lemma nibble_bits:
  assumes "\<And>w n. w \<in> {w1, w2, w3, w4, w5, w6, w7, w8} \<Longrightarrow> 4 \<le> n \<Longrightarrow> \<not> bit (w :: word32) n"
  shows "word_bits (push_bit 28 w1 OR push_bit 24 w2 OR push_bit 20 w3 OR push_bit 16 w4 OR
      push_bit 12 w5 OR push_bit 8 w6 OR push_bit 4 w7 OR w8) =
    concat (map (\<lambda>w. map (bit w) [3, 2, 1, 0]) [w1, w2, w3, w4, w5, w6, w7, w8])"
  by (simp add: word_bits_def bit_or_iff bit_push_bit_iff assms)

lemma substitute_bits:
  "word_bits (substitute [l0, l1, l2, l3, l4, l5]) =
    S_all [sbox1, sbox2, sbox3, sbox4, sbox5, sbox6, sbox7, sbox8] (block_bits [l0, l1, l2, l3, l4, l5])"
proof -
  define x1 x2 x3 x4 where "x1 = drop_bit 2 l0" and "x2 = push_bit 4 (l0 AND 3) OR drop_bit 4 l1"
    and "x3 = push_bit 2 (l1 AND 15) OR drop_bit 6 l2" and "x4 = l2 AND 63"
  define x5 x6 x7 x8 where "x5 = drop_bit 2 l3" and "x6 = push_bit 4 (l3 AND 3) OR drop_bit 4 l4"
    and "x7 = push_bit 2 (l4 AND 15) OR drop_bit 6 l5" and "x8 = l5 AND 63"
  note x = x1_def x2_def x3_def x4_def x5_def x6_def x7_def x8_def
  have m: "a AND 3 = take_bit 2 a" "a AND 15 = take_bit 4 a" "a AND 63 = take_bit 6 a" for a :: byte
    by (simp_all add: take_bit_eq_mask mask_eq_exp_minus_1)
  have t: "take_bit 6 x1 = x1" "take_bit 6 x2 = x2" "take_bit 6 x3 = x3" "take_bit 6 x4 = x4"
    "take_bit 6 x5 = x5" "take_bit 6 x6 = x6" "take_bit 6 x7 = x7" "take_bit 6 x8 = x8"
    unfolding x m by (rule byte_eqI; auto simp: bit_simps bit_byte_high)+
  have g: "block_bits [l0, l1, l2, l3, l4, l5] =
      concat (map (\<lambda>x. [bit x 5, bit x 4, bit x 3, bit x 2, bit x 1, bit x 0]) [x1, x2, x3, x4, x5, x6, x7, x8])"
    unfolding x m by (simp add: block_bits_def byte_bits_def bit_simps bit_byte_high)
  have n: "[l0, l1, l2, l3, l4, l5] ! 0 = l0" "[l0, l1, l2, l3, l4, l5] ! 1 = l1" "[l0, l1, l2, l3, l4, l5] ! 2 = l2"
    "[l0, l1, l2, l3, l4, l5] ! 3 = l3" "[l0, l1, l2, l3, l4, l5] ! 4 = l4" "[l0, l1, l2, l3, l4, l5] ! 5 = l5"
    by simp_all
  have "word_bits (substitute [l0, l1, l2, l3, l4, l5]) =
      concat (map (\<lambda>w. map (bit w) [3, 2, 1, 0])
        [sbox_out sbox1 x1, sbox_out sbox2 x2, sbox_out sbox3 x3, sbox_out sbox4 x4,
         sbox_out sbox5 x5, sbox_out sbox6 x6, sbox_out sbox7 x7, sbox_out sbox8 x8])"
    unfolding substitute_def n x [symmetric] by (rule nibble_bits) (use t in \<open>auto simp: sbox_out_high\<close>)
  also have "\<dots> = S_all [sbox1, sbox2, sbox3, sbox4, sbox5, sbox6, sbox7, sbox8] (block_bits [l0, l1, l2, l3, l4, l5])"
    unfolding g by (simp add: S_bits_eq t del: S_bits.simps One_nat_def)
  finally show ?thesis .
qed

lemma des_f_bits:
  assumes "length k = 6"
  shows "word_bits (des_f w k) = fips_f (word_bits w) (block_bits k)"
proof -
  obtain l0 l1 l2 l3 l4 l5 where l: "mix_key w k = [l0, l1, l2, l3, l4, l5]"
    unfolding mix_key_def by blast
  show ?thesis
    unfolding des_f_def permute_bits l substitute_bits fips_f_def mix_key_bits [OF assms, symmetric] ..
qed

lemma word_bits_xor: "word_bits (a XOR b) = map2 (\<noteq>) (word_bits a) (word_bits b)"
  by (simp add: word_bits_def bit_xor_iff)

definition half_bits :: "word32 \<times> word32 \<Rightarrow> bits \<times> bits" where
  "half_bits = map_prod word_bits word_bits"

lemma xor_list_commute: "map2 (\<noteq>) xs ys = map2 (\<noteq>) ys (xs :: bits)"
  by (auto simp: list_eq_iff_nth_eq)

lemma rounds_bits:
  "(\<And>k. k \<in> set ks \<Longrightarrow> length k = 6) \<Longrightarrow>
    half_bits (fold des_round ks s) = fold fips_round (map block_bits ks) (half_bits s)"
proof (induction ks arbitrary: s)
  case (Cons k ks)
  have "half_bits (des_round k s) = fips_round (block_bits k) (half_bits s)"
    using Cons.prems [of k] xor_list_commute
    by (simp add: half_bits_def des_round_def fips_round_def word_bits_xor des_f_bits split: prod.splits)
  then show ?case using Cons by simp
qed simp

lemma des_block_bits:
  assumes "length inp = 8" "\<And>k. k \<in> set ks \<Longrightarrow> length k = 6"
  shows "block_bits (des_block ks inp) = fips_des (map block_bits ks) (block_bits inp)"
proof -
  obtain l r where lr: "fold des_round ks (IP inp) = (l, r)" by fastforce
  have "half_bits (IP inp) = (take 32 (select IP_table (block_bits inp)), drop 32 (select IP_table (block_bits inp)))"
    unfolding IP_bits [OF assms(1), symmetric] by (cases "IP inp") (simp add: half_bits_def)
  then show ?thesis
    using rounds_bits [OF assms(2), of ks "IP inp", symmetric] lr InvIP_bits [of r l]
    by (simp add: fips_des_def des_block_def half_bits_def Let_def)
qed

section \<open>The key schedule\<close>

definition half28 :: "word32 \<Rightarrow> bits" where
  "half28 w = map (bit w) [31, 30, 29, 28, 27, 26, 25, 24, 23, 22, 21, 20, 19, 18, 17, 16,
     15, 14, 13, 12, 11, 10, 9, 8, 7, 6, 5, 4]"

definition low_clear :: "word32 \<Rightarrow> bool" where
  "low_clear w \<longleftrightarrow> \<not> bit w 0 \<and> \<not> bit w 1 \<and> \<not> bit w 2 \<and> \<not> bit w 3"

lemma upt_28: "[0..<28] = [0, 1, 2, 3, 4, 5, 6, 7, 8, 9, 10, 11, 12, 13, 14, 15, 16, 17, 18, 19, 20, 21, 22, 23, 24, 25, 26, 27]"
  by (simp add: upt_rec)

lemma choose_bits_PC1:
  assumes "length key = 8"
  shows "half28 (choose_bits key key_perm_c) = select PC1_C (block_bits key)" (is ?c)
    and "half28 (choose_bits key key_perm_d) = select PC1_D (block_bits key)" (is ?d)
    and "low_clear (choose_bits key key_perm_c)" (is ?lc)
    and "low_clear (choose_bits key key_perm_d)" (is ?ld)
proof -
  obtain a b c d e f g h where k: "key = [a, b, c, d, e, f, g, h]" using eight_bytes [OF assms] by blast
  note [simp] = choose_bits_def upt_28 key_perm_c_def key_perm_d_def bit_or_iff bit_macros
  show ?c ?d unfolding k block_bits_8
    by (simp_all add: half28_def select_def PC1_C_def PC1_D_def byte_bits_def)
  show ?lc ?ld unfolding low_clear_def by simp_all
qed

lemma bit_word_high: "32 \<le> n \<Longrightarrow> \<not> bit (a :: word32) n"
  using bit_imp_le_length [of a n] by auto

lemma rotate_half_bits:
  assumes "s = 1 \<or> s = 2" "low_clear C"
  shows "half28 (rotate_half C s) = rotate s (half28 C)" and "low_clear (rotate_half C s)"
  using assms
  by (auto simp: rotate_half_def half28_def low_clear_def bit_and_iff bit_or_iff bit_push_bit_iff
      bit_drop_bit_eq bit_word_high numeral_2_eq_2)

lemma upt_24: "[0..<24] = [0, 1, 2, 3, 4, 5, 6, 7, 8, 9, 10, 11, 12, 13, 14, 15, 16, 17, 18, 19, 20, 21, 22, 23]"
  "[24..<48] = [24, 25, 26, 27, 28, 29, 30, 31, 32, 33, 34, 35, 36, 37, 38, 39, 40, 41, 42, 43, 44, 45, 46, 47]"
  by (simp_all add: upt_rec)

lemma compress_bits: "block_bits (compress C D) = select PC2 (half28 C @ half28 D)"
  and length_compress: "length (compress C D) = 6"
proof -
  have r: "replicate 6 (0 :: byte) = [0, 0, 0, 0, 0, 0]" by (simp add: eval_nat_numeral)
  show "block_bits (compress C D) = select PC2 (half28 C @ half28 D)"
    unfolding compress_def r upt_24 key_compression_def or_byte_def
    by (simp add: block_bits_def byte_bits_def half28_def select_def PC2_def bit_or_iff bit_macros bit_unsigned_iff)
  show "length (compress C D) = 6"
    unfolding compress_def r upt_24 or_byte_def by simp
qed


lemma subkeys_bits:
  "set ss \<subseteq> {1, 2} \<Longrightarrow> low_clear C \<Longrightarrow> low_clear D \<Longrightarrow>
    map block_bits (subkeys C D ss) = fips_subkeys (half28 C) (half28 D) ss"
  by (induction ss arbitrary: C D) (simp_all add: compress_bits rotate_half_bits)

lemma length_subkey: "k \<in> set (subkeys C D ss) \<Longrightarrow> length k = 6"
  by (induction ss arbitrary: C D) (auto simp: length_compress)

lemma des_keys_bits:
  assumes "length key = 8"
  shows "map block_bits (des_keys key) = fips_keys (block_bits key)"
  unfolding des_keys_def fips_keys_def choose_bits_PC1(1,2) [OF assms, symmetric] key_rnd_shift_def [symmetric]
  by (rule subkeys_bits [OF _ choose_bits_PC1(3,4) [OF assms]]) (simp add: key_rnd_shift_def)

text \<open>The block cipher depends on the first eight bytes of the key only.\<close>

lemma des_keys_take:
  assumes "8 \<le> length key"
  shows "des_keys (take 8 key) = des_keys key"
proof -
  have t: "BITNUM (take 8 key) b c = BITNUM key b c" if "b < 64" for b c
    using BITNUM_take [OF assms that, of "[]"] by simp
  have "choose_bits (take 8 key) key_perm_c = choose_bits key key_perm_c"
    "choose_bits (take 8 key) key_perm_d = choose_bits key key_perm_d"
    unfolding choose_bits_def upt_28 key_perm_c_def key_perm_d_def by (simp_all add: t)
  then show ?thesis by (simp add: des_keys_def)
qed

section \<open>Property\<close>

text \<open>
  C4 (DES is the standard). Bit by bit, \<open>des_crypt\<close> with the schedule of \<open>des_key_setup\<close> computes the
  cipher of FIPS 46-3: the initial permutation, sixteen rounds with the expansion, the S-boxes
  addressed by row and column and the permutation P, the final permutation, and the key schedule
  with permuted choices 1 and 2 and the rotations; in decryption mode the round keys are used in
  reverse order.
\<close>
theorem des_crypt_fips:
  assumes "8 \<le> length key" "length schedule = 16" "8 \<le> length inp" "8 \<le> length out"
  shows "\<exists>ks ct. des_key_setup key schedule mode = Some ks \<and>
    des_crypt inp out ks = Some (ct @ drop 8 out) \<and>
    block_bits ct = fips_des (let Ks = fips_keys (block_bits (take 8 key)) in if mode = DES_ENCRYPT then Ks else rev Ks)
      (block_bits (take 8 inp))"
proof -
  have l: "length k = 6" if "k \<in> set (des_keys key)" for k
    using that length_subkey unfolding des_keys_def by blast
  have k: "map block_bits (des_keys key) = fips_keys (block_bits (take 8 key))"
    using des_keys_bits [of "take 8 key"] des_keys_take [OF assms(1)] assms(1) by simp
  have b: "des_block ks inp = des_block ks (take 8 inp)" for ks
    using des_block_take [OF assms(3), of ks "[]"] by simp
  have i: "length (take 8 inp) = 8" using assms(3) by simp
  show ?thesis
  proof (cases mode)
    case DES_ENCRYPT
    show ?thesis
      using des_key_setup_eq(1) [OF assms(1,2)] des_crypt_eq [OF _ assms(3,4), of "des_keys key"]
        des_block_bits [OF i l, of "des_keys key"] unfolding DES_ENCRYPT k b by auto
  next
    case DES_DECRYPT
    show ?thesis
      using des_key_setup_eq(2) [OF assms(1,2)] des_crypt_eq [OF _ assms(3,4), of "rev (des_keys key)"]
        des_block_bits [OF i l, of "rev (des_keys key)"] unfolding DES_DECRYPT k [symmetric] b
      by (auto simp: rev_map)
  qed
qed

theorem des_crypt_fips_witness:
  "\<exists>ks ct. des_key_setup [1, 2, 3, 4, 5, 6, 7, 8] (replicate 16 (replicate 6 0)) DES_DECRYPT = Some ks \<and>
    des_crypt (replicate 8 9) (replicate 8 0) ks = Some (ct @ drop 8 (replicate 8 0)) \<and>
    block_bits ct = fips_des
      (let Ks = fips_keys (block_bits (take 8 [1, 2, 3, 4, 5, 6, 7, 8])) in if DES_DECRYPT = DES_ENCRYPT then Ks else rev Ks)
      (block_bits (take 8 (replicate 8 9)))"
  by (rule des_crypt_fips) simp_all

end
