(* ===== verification/Blowfish.thy ===== *)
theory Blowfish
  imports Feistel BlowfishTables
begin

text \<open>
  Blowfish of \<open>crypto-algorithms_learn/blowfish.c\<close>: the round macros, block encryption and decryption,
  and the key setup that encrypts its way through the P-array and the S-boxes. The arrays inside
  \<open>BLOWFISH_KEY\<close> have fixed sizes and are indexed by constants and by bytes; the caller's arrays are
  bounds-checked, and \<open>None\<close> is an access outside one of them or a division by zero.
\<close>

section \<open>Definitions\<close>

record BLOWFISH_KEY =
  bf_p :: "word32 list"
  bf_s :: "word32 list list"

definition bf_F :: "word32 list list \<Rightarrow> word32 \<Rightarrow> word32" where
  "bf_F s x =
     (let t = s ! 0 ! unat (drop_bit 24 x);
          t = t + s ! 1 ! unat (drop_bit 16 x AND 0xff);
          t = t XOR s ! 2 ! unat (drop_bit 8 x AND 0xff)
      in t + s ! 3 ! unat (x AND 0xff))"

definition ITERATION :: "BLOWFISH_KEY \<Rightarrow> nat \<Rightarrow> word32 \<times> word32 \<Rightarrow> word32 \<times> word32" where
  "ITERATION keystruct pval = (\<lambda>(l, r).
     let l = l XOR bf_p keystruct ! pval;
         r = r XOR bf_F (bf_s keystruct) l
     in (r, l))"

text \<open>
  The rounds of \<open>blowfish_encrypt\<close> and \<open>blowfish_decrypt\<close>: fifteen iterations, a last one without the
  exchange, and the two remaining entries of the P-array.
\<close>

definition bf_rounds :: "BLOWFISH_KEY \<Rightarrow> nat list \<Rightarrow> nat \<Rightarrow> nat \<Rightarrow> nat \<Rightarrow> word32 \<times> word32 \<Rightarrow> word32 \<times> word32" where
  "bf_rounds keystruct pvals p15 p16 p17 lr =
     (let (l, r) = fold (ITERATION keystruct) pvals lr;
          l = l XOR bf_p keystruct ! p15;
          r = r XOR bf_F (bf_s keystruct) l;
          r = r XOR bf_p keystruct ! p16;
          l = l XOR bf_p keystruct ! p17
      in (l, r))"

text \<open>The two words of the block, and the eight bytes written at the end.\<close>

definition load_words :: "byte list \<Rightarrow> word32 \<times> word32" where
  "load_words b = (be_word (b ! 0) (b ! 1) (b ! 2) (b ! 3), be_word (b ! 4) (b ! 5) (b ! 6) (b ! 7))"

definition store_words :: "word32 \<times> word32 \<Rightarrow> byte list" where
  "store_words = (\<lambda>(l, r). be_bytes l @ be_bytes r)"

definition blowfish_encrypt :: "byte list \<Rightarrow> byte list \<Rightarrow> BLOWFISH_KEY \<Rightarrow> byte list option" where
  "blowfish_encrypt inp out keystruct =
     (if length inp < 8 then None
      else bput out 0 (store_words
        (bf_rounds keystruct [0, 1, 2, 3, 4, 5, 6, 7, 8, 9, 10, 11, 12, 13, 14] 15 16 17 (load_words inp))))"

definition blowfish_decrypt :: "byte list \<Rightarrow> byte list \<Rightarrow> BLOWFISH_KEY \<Rightarrow> byte list option" where
  "blowfish_decrypt inp out keystruct =
     (if length inp < 8 then None
      else bput out 0 (store_words
        (bf_rounds keystruct [17, 16, 15, 14, 13, 12, 11, 10, 9, 8, 7, 6, 5, 4, 3] 2 1 0 (load_words inp))))"

text \<open>\<open>user_key[i % len]\<close>.\<close>

definition cyclic_at :: "byte list \<Rightarrow> nat \<Rightarrow> nat \<Rightarrow> byte option" where
  "cyclic_at user_key len i = (if len = 0 then None else aget user_key (i mod len))"

function mix_key_loop :: "byte list \<Rightarrow> nat \<Rightarrow> BLOWFISH_KEY \<Rightarrow> nat \<Rightarrow> nat \<Rightarrow> BLOWFISH_KEY option" where
  "mix_key_loop user_key len keystruct idx idx2 =
     (if idx < 18 then do {
        a \<leftarrow> cyclic_at user_key len idx2;
        b \<leftarrow> cyclic_at user_key len (idx2 + 1);
        c \<leftarrow> cyclic_at user_key len (idx2 + 2);
        d \<leftarrow> cyclic_at user_key len (idx2 + 3);
        let p = bf_p keystruct;
        mix_key_loop user_key len (keystruct\<lparr>bf_p := p[idx := p ! idx XOR be_word a b c d]\<rparr>) (idx + 1) (idx2 + 4) }
      else Some keystruct)"
  by pat_completeness auto
termination
  by (relation "measure (\<lambda>(user_key, len, keystruct, idx, idx2). 18 - idx)") auto

function p_box_loop :: "BLOWFISH_KEY \<Rightarrow> byte list \<Rightarrow> nat \<Rightarrow> (BLOWFISH_KEY \<times> byte list) option" where
  "p_box_loop keystruct block idx =
     (if idx < 18 then do {
        block \<leftarrow> blowfish_encrypt block block keystruct;
        let (l, r) = load_words block;
        p_box_loop (keystruct\<lparr>bf_p := (bf_p keystruct)[idx := l, idx + 1 := r]\<rparr>) block (idx + 2) }
      else Some (keystruct, block))"
  by pat_completeness auto
termination
  by (relation "measure (\<lambda>(keystruct, block, idx). 18 - idx)") auto

function s_row_loop :: "BLOWFISH_KEY \<Rightarrow> byte list \<Rightarrow> nat \<Rightarrow> nat \<Rightarrow> (BLOWFISH_KEY \<times> byte list) option" where
  "s_row_loop keystruct block idx idx2 =
     (if idx2 < 256 then do {
        block \<leftarrow> blowfish_encrypt block block keystruct;
        let (l, r) = load_words block;
        let s = bf_s keystruct;
        s_row_loop (keystruct\<lparr>bf_s := s[idx := (s ! idx)[idx2 := l, idx2 + 1 := r]]\<rparr>) block idx (idx2 + 2) }
      else Some (keystruct, block))"
  by pat_completeness auto
termination
  by (relation "measure (\<lambda>(keystruct, block, idx, idx2). 256 - idx2)") auto

declare mix_key_loop.simps [simp del] p_box_loop.simps [simp del] s_row_loop.simps [simp del]

function s_box_loop :: "BLOWFISH_KEY \<Rightarrow> byte list \<Rightarrow> nat \<Rightarrow> (BLOWFISH_KEY \<times> byte list) option" where
  "s_box_loop keystruct block idx =
     (if idx < 4 then do {
        (keystruct, block) \<leftarrow> s_row_loop keystruct block idx 0;
        s_box_loop keystruct block (idx + 1) }
      else Some (keystruct, block))"
  by pat_completeness auto
termination
  by (relation "measure (\<lambda>(keystruct, block, idx). 4 - idx)") auto

definition blowfish_key_setup :: "byte list \<Rightarrow> BLOWFISH_KEY \<Rightarrow> nat \<Rightarrow> BLOWFISH_KEY option" where
  "blowfish_key_setup user_key keystruct len = do {
     let keystruct = keystruct\<lparr>bf_p := p_perm, bf_s := s_perm\<rparr>;
     keystruct \<leftarrow> mix_key_loop user_key len keystruct 0 0;
     let block = replicate 8 0;
     (keystruct, block) \<leftarrow> p_box_loop keystruct block 0;
     (keystruct, block) \<leftarrow> s_box_loop keystruct block 0;
     Some keystruct }"

declare s_box_loop.simps [simp del]

section \<open>The cipher as a Feistel network\<close>

text \<open>
  The additions of the P-array entries are regrouped: a round is the S-box function followed by the
  addition of the next entry, with one addition before the first round and one after the last.
\<close>

definition bf_round :: "word32 list list \<Rightarrow> word32 \<Rightarrow> word32 \<times> word32 \<Rightarrow> word32 \<times> word32" where
  "bf_round s k = (\<lambda>(l, r). (r XOR bf_F s l XOR k, l))"

definition add_left :: "word32 \<Rightarrow> word32 \<times> word32 \<Rightarrow> word32 \<times> word32" where
  "add_left k = (\<lambda>(l, r). (l XOR k, r))"

interpretation bf: feistel "bf_round s" for s
proof
  fix k lr
  show "prod.swap (bf_round s k (prod.swap (bf_round s k lr))) = lr"
    by (cases lr) (simp add: bf_round_def xor.assoc xor.left_commute)
qed

lemma add_left_twice [simp]: "add_left k (add_left k lr) = lr"
  by (cases lr) (simp add: add_left_def xor.assoc)

lemma iterations_eq:
  "add_left (bf_p ks ! k) (fold (ITERATION ks) (v # vs) lr) =
    fold (bf_round (bf_s ks)) (map ((!) (bf_p ks)) (vs @ [k])) (add_left (bf_p ks ! v) lr)"
proof (induction vs arbitrary: v lr)
  case Nil
  then show ?case by (cases lr) (simp add: add_left_def ITERATION_def bf_round_def Let_def xor.assoc)
next
  case (Cons w ws)
  have "add_left (bf_p ks ! w) (ITERATION ks v lr) = bf_round (bf_s ks) (bf_p ks ! w) (add_left (bf_p ks ! v) lr)"
    by (cases lr) (simp add: add_left_def ITERATION_def bf_round_def Let_def xor.assoc)
  then show ?case using Cons [of w "ITERATION ks v lr"] by simp
qed

lemma bf_rounds_eq:
  "bf_rounds ks (v # vs) a b c lr =
    add_left (bf_p ks ! c) (prod.swap (fold (bf_round (bf_s ks)) (map ((!) (bf_p ks)) (vs @ [a, b])) (add_left (bf_p ks ! v) lr)))"
proof -
  have "bf_rounds ks (v # vs) a b c lr = add_left (bf_p ks ! c) (prod.swap
      (bf_round (bf_s ks) (bf_p ks ! b) (add_left (bf_p ks ! a) (fold (ITERATION ks) (v # vs) lr))))"
    unfolding bf_rounds_def by (simp add: add_left_def bf_round_def Let_def xor.assoc split: prod.splits)
  then show ?thesis unfolding iterations_eq by simp
qed

text \<open>Encryption and decryption of the two words.\<close>

definition bf_enc :: "BLOWFISH_KEY \<Rightarrow> word32 \<times> word32 \<Rightarrow> word32 \<times> word32" where
  "bf_enc ks = bf_rounds ks [0, 1, 2, 3, 4, 5, 6, 7, 8, 9, 10, 11, 12, 13, 14] 15 16 17"

definition bf_dec :: "BLOWFISH_KEY \<Rightarrow> word32 \<times> word32 \<Rightarrow> word32 \<times> word32" where
  "bf_dec ks = bf_rounds ks [17, 16, 15, 14, 13, 12, 11, 10, 9, 8, 7, 6, 5, 4, 3] 2 1 0"

lemma bf_cancel: "bf_dec ks (bf_enc ks lr) = lr" "bf_enc ks (bf_dec ks lr) = lr"
proof -
  define K where "K = map ((!) (bf_p ks)) [1, 2, 3, 4, 5, 6, 7, 8, 9, 10, 11, 12, 13, 14, 15, 16]"
  have e: "bf_enc ks lr = add_left (bf_p ks ! 17) (prod.swap (fold (bf_round (bf_s ks)) K (add_left (bf_p ks ! 0) lr)))"
    and d: "bf_dec ks lr = add_left (bf_p ks ! 0) (prod.swap (fold (bf_round (bf_s ks)) (rev K) (add_left (bf_p ks ! 17) lr)))"
    for lr
    unfolding bf_enc_def bf_dec_def bf_rounds_eq K_def rev_map
    by (simp_all only: append.simps rev.simps append_assoc)
  show "bf_dec ks (bf_enc ks lr) = lr" "bf_enc ks (bf_dec ks lr) = lr"
    unfolding e d by (simp_all add: bf.rounds_cancel bf.rounds_cancel_rev)
qed

section \<open>Blocks\<close>

lemma be_word_be_bytes: "be_word (byte_of (drop_bit 24 w)) (byte_of (drop_bit 16 w)) (byte_of (drop_bit 8 w)) (byte_of w) = w"
  unfolding be_word_def by (rule word32_eqI) (elim insertE emptyE; simp add: bit_simps)

lemma length_store_words [simp]: "length (store_words lr) = 8"
  by (simp add: store_words_def be_bytes_def split: prod.splits)

lemma load_store: "load_words (store_words lr @ rest) = lr"
  by (cases lr) (simp add: load_words_def store_words_def be_bytes_def be_word_be_bytes)

lemma store_load:
  assumes "8 \<le> length b"
  shows "store_words (load_words b) = take 8 b"
proof -
  have "take 8 b = [b ! 0, b ! 1, b ! 2, b ! 3, b ! 4, b ! 5, b ! 6, b ! 7]"
    using assms by (intro nth_equalityI) (auto simp: less_Suc_eq numeral_eq_Suc)
  then show ?thesis by (simp add: store_words_def load_words_def be_bytes_be_word)
qed

lemma blowfish_encrypt_eq:
  "8 \<le> length inp \<Longrightarrow> 8 \<le> length out \<Longrightarrow>
    blowfish_encrypt inp out ks = Some (store_words (bf_enc ks (load_words inp)) @ drop 8 out)"
  by (simp add: blowfish_encrypt_def bf_enc_def array_simps buf_write_def)

lemma blowfish_decrypt_eq:
  "8 \<le> length inp \<Longrightarrow> 8 \<le> length out \<Longrightarrow>
    blowfish_decrypt inp out ks = Some (store_words (bf_dec ks (load_words inp)) @ drop 8 out)"
  by (simp add: blowfish_decrypt_def bf_dec_def array_simps buf_write_def)

section \<open>Key setup\<close>

definition wf_key :: "BLOWFISH_KEY \<Rightarrow> bool" where
  "wf_key ks \<longleftrightarrow> length (bf_p ks) = 18 \<and> length (bf_s ks) = 4 \<and> (\<forall>row\<in>set (bf_s ks). length row = 256)"

definition mixed :: "(nat \<Rightarrow> byte) \<Rightarrow> BLOWFISH_KEY \<Rightarrow> nat \<Rightarrow> nat \<Rightarrow> BLOWFISH_KEY" where
  "mixed K ks idx idx2 = ks\<lparr>bf_p := (bf_p ks)[idx := bf_p ks ! idx XOR
     be_word (K idx2) (K (idx2 + 1)) (K (idx2 + 2)) (K (idx2 + 3))]\<rparr>"

lemma wf_mixed: "wf_key ks \<Longrightarrow> wf_key (mixed K ks idx idx2)"
  by (simp add: wf_key_def mixed_def)

lemma mix_key_loop_step:
  assumes "idx < 18" "\<And>j. j \<in> {idx2, idx2 + 1, idx2 + 2, idx2 + 3} \<Longrightarrow> cyclic_at user_key len j = Some (K j)"
  shows "mix_key_loop user_key len ks idx idx2 =
    mix_key_loop user_key len (mixed K ks idx idx2) (idx + 1) (idx2 + 4)"
  using assms by (subst mix_key_loop.simps) (simp add: mixed_def Let_def)

lemma cyclic_at_in:
  assumes "0 < len" "len \<le> length user_key"
  shows "cyclic_at user_key len j = Some (user_key ! (j mod len))"
proof -
  have "j mod len < length user_key" using assms by (intro less_le_trans [OF mod_less_divisor])
  then show ?thesis using assms by (simp add: cyclic_at_def aget_def)
qed

lemma mix_key_loop_ret:
  assumes "0 < len" "len \<le> length user_key"
  shows "wf_key ks \<Longrightarrow> \<exists>ks'. mix_key_loop user_key len ks idx idx2 = Some ks' \<and> wf_key ks'"
proof (induction "18 - idx" arbitrary: ks idx idx2)
  case 0
  then show ?case by (subst mix_key_loop.simps) simp
next
  case (Suc n)
  have i: "idx < 18" "n = 18 - (idx + 1)" using Suc.hyps(2) by simp_all
  show ?case
    unfolding mix_key_loop_step [OF i(1) cyclic_at_in [OF assms]]
    by (rule Suc.hyps(1) [OF i(2) wf_mixed [OF Suc.prems]])
qed

text \<open>Only the first 72 bytes of the repeated key enter the P-array.\<close>

lemma mix_key_loop_cyclic:
  fixes user_key :: "byte list"
  assumes "0 < len" "len \<le> length user_key"
  defines "rk \<equiv> map (\<lambda>i. user_key ! (i mod len)) [0..<72]"
  shows "mix_key_loop user_key len ks idx (4 * idx) = mix_key_loop rk 72 ks idx (4 * idx)"
proof (induction "18 - idx" arbitrary: ks idx)
  case 0
  then show ?case by (simp add: mix_key_loop.simps)
next
  case (Suc n)
  have i: "idx < 18" "n = 18 - (idx + 1)" "4 * idx + 4 = 4 * (idx + 1)" using Suc.hyps(2) by simp_all
  have "cyclic_at rk 72 j = Some (user_key ! (j mod len))" if "j \<in> {4 * idx, 4 * idx + 1, 4 * idx + 2, 4 * idx + 3}" for j
  proof -
    have "j < 72" using that i(1) by auto
    then show ?thesis by (simp add: cyclic_at_def aget_def rk_def)
  qed
  then have r: "mix_key_loop rk 72 ks idx (4 * idx) = mix_key_loop rk 72 (mixed (\<lambda>j. user_key ! (j mod len)) ks idx (4 * idx)) (idx + 1) (4 * idx + 4)"
    by (rule mix_key_loop_step [OF i(1)])
  show ?case
    unfolding r mix_key_loop_step [OF i(1) cyclic_at_in [OF assms(1,2)]] i(3) by (rule Suc.hyps(1) [OF i(2)])
qed

lemma wf_key_update_p: "wf_key ks \<Longrightarrow> wf_key (ks\<lparr>bf_p := (bf_p ks)[i := a, j := b]\<rparr>)"
  by (simp add: wf_key_def)

lemma wf_key_update_s:
  "wf_key ks \<Longrightarrow> idx < 4 \<Longrightarrow> wf_key (ks\<lparr>bf_s := (bf_s ks)[idx := (bf_s ks ! idx)[i := a, j := b]]\<rparr>)"
  using set_update_subset_insert [of "bf_s ks" idx] by (fastforce simp: wf_key_def)

lemma p_box_loop_ret:
  "wf_key ks \<Longrightarrow> length block = 8 \<Longrightarrow>
    \<exists>ks' block'. p_box_loop ks block idx = Some (ks', block') \<and> wf_key ks' \<and> length block' = 8"
proof (induction "18 - idx" arbitrary: ks block idx rule: less_induct)
  case less
  define b where "b = store_words (bf_enc ks (load_words block))"
  have "blowfish_encrypt block block ks = Some b"
    using less.prems(2) by (simp add: blowfish_encrypt_eq b_def)
  then show ?case
    using less.prems less.hyps [of "idx + 2"] wf_key_update_p
    by (subst p_box_loop.simps) (auto simp: b_def split: prod.splits)
qed

lemma s_row_loop_ret:
  "wf_key ks \<Longrightarrow> length block = 8 \<Longrightarrow> idx < 4 \<Longrightarrow>
    \<exists>ks' block'. s_row_loop ks block idx idx2 = Some (ks', block') \<and> wf_key ks' \<and> length block' = 8"
proof (induction "256 - idx2" arbitrary: ks block idx2 rule: less_induct)
  case less
  define b where "b = store_words (bf_enc ks (load_words block))"
  have "blowfish_encrypt block block ks = Some b"
    using less.prems(2) by (simp add: blowfish_encrypt_eq b_def)
  then show ?case
    using less.prems less.hyps [of "idx2 + 2"] wf_key_update_s
    by (subst s_row_loop.simps) (auto simp: b_def Let_def split: prod.splits)
qed

lemma s_box_loop_ret:
  "wf_key ks \<Longrightarrow> length block = 8 \<Longrightarrow>
    \<exists>ks' block'. s_box_loop ks block idx = Some (ks', block') \<and> wf_key ks'"
proof (induction "4 - idx" arbitrary: ks block idx)
  case 0
  then show ?case by (subst s_box_loop.simps) simp
next
  case (Suc n)
  have "idx < 4" using Suc.hyps(2) by simp
  then obtain ks' block' where "s_row_loop ks block idx 0 = Some (ks', block')" "wf_key ks'" "length block' = 8"
    using s_row_loop_ret [of ks block idx 0] Suc.prems by auto
  then show ?case using Suc.hyps(1) [of "idx + 1" ks' block'] Suc.hyps(2)
    by (subst s_box_loop.simps) auto
qed


section \<open>Properties\<close>

text \<open>
  C13 (Blowfish round trip). Whatever is in the key structure, \<open>blowfish_decrypt\<close> restores every block
  that \<open>blowfish_encrypt\<close> produced and the other way round, and neither touches the bytes behind the
  block.
\<close>
theorem blowfish_round_trip:
  assumes "8 \<le> length inp" "8 \<le> length out"
  shows "\<exists>ct pt. blowfish_encrypt inp out ks = Some ct \<and> blowfish_decrypt ct out ks = Some (take 8 inp @ drop 8 out) \<and>
    blowfish_decrypt inp out ks = Some pt \<and> blowfish_encrypt pt out ks = Some (take 8 inp @ drop 8 out)"
  using assms
  by (simp add: blowfish_encrypt_eq blowfish_decrypt_eq load_store bf_cancel store_load)

theorem blowfish_round_trip_witness:
  "\<exists>ct pt. blowfish_encrypt (replicate 8 1) (replicate 9 0) \<lparr>bf_p = p_perm, bf_s = s_perm\<rparr> = Some ct \<and>
    blowfish_decrypt ct (replicate 9 0) \<lparr>bf_p = p_perm, bf_s = s_perm\<rparr> = Some (take 8 (replicate 8 1) @ drop 8 (replicate 9 0)) \<and>
    blowfish_decrypt (replicate 8 1) (replicate 9 0) \<lparr>bf_p = p_perm, bf_s = s_perm\<rparr> = Some pt \<and>
    blowfish_encrypt pt (replicate 9 0) \<lparr>bf_p = p_perm, bf_s = s_perm\<rparr> = Some (take 8 (replicate 8 1) @ drop 8 (replicate 9 0))"
  by (rule blowfish_round_trip) simp_all

text \<open>
  Blowfish key setup. For a key of at least \<open>len > 0\<close> bytes the setup returns, whatever the
  structure held before, with a P-array of 18 words and four S-boxes of 256 words; the result is the
  one for the key repeated to 72 bytes, so bytes beyond the 72nd have no effect.
\<close>
theorem blowfish_key_setup_total:
  assumes "0 < len" "len \<le> length user_key"
  shows "\<exists>ks. blowfish_key_setup user_key old len = Some ks \<and> wf_key ks \<and>
    blowfish_key_setup (map (\<lambda>i. user_key ! (i mod len)) [0..<72]) old' 72 = Some ks"
proof -
  define ks0 where "ks0 = \<lparr>bf_p = p_perm, bf_s = s_perm\<rparr>"
  have e: "old\<lparr>bf_p := p_perm, bf_s := s_perm\<rparr> = ks0" for old :: BLOWFISH_KEY by (simp add: ks0_def)
  have "wf_key ks0" using length_s_perm_row by (simp add: wf_key_def ks0_def)
  then obtain ks1 where 1: "mix_key_loop user_key len ks0 0 0 = Some ks1" "wf_key ks1"
    using mix_key_loop_ret [OF assms] by blast
  have 2: "mix_key_loop (map (\<lambda>i. user_key ! (i mod len)) [0..<72]) 72 ks0 0 0 = Some ks1"
    using mix_key_loop_cyclic [OF assms, of ks0 0] 1(1) by (simp only: mult_0_right)
  obtain ks2 b2 where 3: "p_box_loop ks1 (replicate 8 0) 0 = Some (ks2, b2)" "wf_key ks2" "length b2 = 8"
    using p_box_loop_ret [OF 1(2), of "replicate 8 0" 0] by auto
  obtain ks3 b3 where 4: "s_box_loop ks2 b2 0 = Some (ks3, b3)" "wf_key ks3"
    using s_box_loop_ret [OF 3(2,3)] by blast
  show ?thesis
    unfolding blowfish_key_setup_def e Let_def 1(1) 2 Option.bind.simps 3(1) using 4 by simp
qed

theorem blowfish_key_setup_total_witness:
  "\<exists>ks. blowfish_key_setup [1, 2, 3] \<lparr>bf_p = [], bf_s = []\<rparr> 3 = Some ks \<and> wf_key ks \<and>
    blowfish_key_setup (map (\<lambda>i. [1, 2, 3] ! (i mod 3)) [0..<72]) \<lparr>bf_p = [], bf_s = []\<rparr> 72 = Some ks"
  by (rule blowfish_key_setup_total) simp_all

end
