(* ===== verification/MdHash.thy ===== *)
theory MdHash
  imports CBuffer Complex_Main
begin

text \<open>
  What \<open>sha256.c\<close>, \<open>sha1.c\<close> and \<open>md5.c\<close> of \<open>crypto-algorithms_learn\<close> have in common: a context with a
  64-byte buffer, its fill level, the number of bits processed and the chaining state; the loop that
  feeds bytes to the buffer; the padding of the last block; and the copy of the state to the output.
  The locale states what a hash function has to provide, and its lemmas show that feeding a message
  in any pieces and finishing computes the Merkle-Damgard hash of the whole message.
\<close>

section \<open>Definitions\<close>

text \<open>The fields the three context structures share.\<close>

record md_ctx =
  ctx_data :: "byte list"
  datalen :: word32
  bitlen :: word64
  ctx_state :: "word32 list"

text \<open>The body of the loop in \<open>sha1_update\<close>, \<open>md5_update\<close> and \<open>sha256_update\<close>.\<close>

definition absorb ::
  "('a md_ctx_scheme \<Rightarrow> byte list \<Rightarrow> 'a md_ctx_scheme) \<Rightarrow> 'a md_ctx_scheme \<Rightarrow> byte \<Rightarrow> 'a md_ctx_scheme option" where
  "absorb transform ctx b = do {
     d \<leftarrow> aset (ctx_data ctx) (unat (datalen ctx)) b;
     let ctx = ctx\<lparr>ctx_data := d, datalen := datalen ctx + 1\<rparr>;
     if datalen ctx = 64 then
       let ctx = transform ctx (ctx_data ctx)
       in Some (ctx\<lparr>bitlen := bitlen ctx + 512, datalen := 0\<rparr>)
     else Some ctx }"

text \<open>The loop with an index of type \<open>size_t\<close>.\<close>

function update_loop ::
  "('a md_ctx_scheme \<Rightarrow> byte list \<Rightarrow> 'a md_ctx_scheme) \<Rightarrow> 'a md_ctx_scheme \<Rightarrow> byte list \<Rightarrow> nat \<Rightarrow> nat \<Rightarrow>
    'a md_ctx_scheme option" where
  "update_loop transform ctx data len i =
     (if i < len then do {
        b \<leftarrow> aget data i;
        ctx \<leftarrow> absorb transform ctx b;
        update_loop transform ctx data len (i + 1) }
      else Some ctx)"
  by pat_completeness auto
termination
  by (relation "measure (\<lambda>(transform, ctx, data, len, i). len - i)") auto

text \<open>\<open>while (i < n) ctx->data[i++] = 0x00;\<close>\<close>

function zero_loop :: "byte list \<Rightarrow> nat \<Rightarrow> nat \<Rightarrow> byte list option" where
  "zero_loop d i n =
     (if i < n then do { d \<leftarrow> aset d i 0; zero_loop d (i + 1) n } else Some d)"
  by pat_completeness auto
termination
  by (relation "measure (\<lambda>(d, i, n). n - i)") auto

declare update_loop.simps [simp del] zero_loop.simps [simp del]

definition pad_buffer ::
  "('a md_ctx_scheme \<Rightarrow> byte list \<Rightarrow> 'a md_ctx_scheme) \<Rightarrow> 'a md_ctx_scheme \<Rightarrow> 'a md_ctx_scheme option" where
  "pad_buffer transform ctx =
     (let i = unat (datalen ctx)
      in if datalen ctx < 56 then do {
           d \<leftarrow> aset (ctx_data ctx) i 0x80;
           d \<leftarrow> zero_loop d (i + 1) 56;
           Some (ctx\<lparr>ctx_data := d\<rparr>) }
         else do {
           d \<leftarrow> aset (ctx_data ctx) i 0x80;
           d \<leftarrow> zero_loop d (i + 1) 64;
           let ctx = ctx\<lparr>ctx_data := d\<rparr>;
           let ctx = transform ctx (ctx_data ctx);
           d \<leftarrow> bput (ctx_data ctx) 0 (replicate 56 0);
           Some (ctx\<lparr>ctx_data := d\<rparr>) })"

text \<open>The part of the \<open>final\<close> functions up to the last transformation; \<open>put_len\<close> stores the bit count.\<close>

definition md_finish ::
  "('a md_ctx_scheme \<Rightarrow> byte list \<Rightarrow> 'a md_ctx_scheme) \<Rightarrow> (byte list \<Rightarrow> word64 \<Rightarrow> byte list) \<Rightarrow>
    'a md_ctx_scheme \<Rightarrow> 'a md_ctx_scheme option" where
  "md_finish transform put_len ctx = do {
     ctx \<leftarrow> pad_buffer transform ctx;
     let ctx = ctx\<lparr>bitlen := bitlen ctx + ucast (datalen ctx * 8)\<rparr>;
     let ctx = ctx\<lparr>ctx_data := put_len (ctx_data ctx) (bitlen ctx)\<rparr>;
     Some (transform ctx (ctx_data ctx)) }"

definition put_len_be :: "byte list \<Rightarrow> word64 \<Rightarrow> byte list" where
  "put_len_be d n =
     d[63 := ucast n, 62 := ucast (drop_bit 8 n), 61 := ucast (drop_bit 16 n), 60 := ucast (drop_bit 24 n),
       59 := ucast (drop_bit 32 n), 58 := ucast (drop_bit 40 n), 57 := ucast (drop_bit 48 n),
       56 := ucast (drop_bit 56 n)]"

definition put_len_le :: "byte list \<Rightarrow> word64 \<Rightarrow> byte list" where
  "put_len_le d n =
     d[56 := ucast n, 57 := ucast (drop_bit 8 n), 58 := ucast (drop_bit 16 n), 59 := ucast (drop_bit 24 n),
       60 := ucast (drop_bit 32 n), 61 := ucast (drop_bit 40 n), 62 := ucast (drop_bit 48 n),
       63 := ucast (drop_bit 56 n)]"

text \<open>
  The output loop: for \<open>i\<close> from 0 to 3 it stores one byte of every state word, shifted by \<open>sh i\<close>;
  \<open>ws\<close> lists the word indices of one iteration.
\<close>

primrec out_words :: "nat \<Rightarrow> nat \<Rightarrow> word32 list \<Rightarrow> nat list \<Rightarrow> byte list \<Rightarrow> byte list option" where
  "out_words i s st [] hash = Some hash"
| "out_words i s st (w # ws) hash = do {
     hash \<leftarrow> aset hash (i + 4 * w) (byte_of (drop_bit s (st ! w) AND 0x000000ff));
     out_words i s st ws hash }"

primrec out_loop :: "(nat \<Rightarrow> nat) \<Rightarrow> word32 list \<Rightarrow> nat list \<Rightarrow> nat list \<Rightarrow> byte list \<Rightarrow> byte list option" where
  "out_loop sh st ws [] hash = Some hash"
| "out_loop sh st ws (i # is) hash = do {
     hash \<leftarrow> out_words i (sh i) st ws hash;
     out_loop sh st ws is hash }"

text \<open>A sequence of update calls, one for each piece of the message.\<close>

primrec run_updates :: "('c \<Rightarrow> byte list \<Rightarrow> nat \<Rightarrow> 'c option) \<Rightarrow> 'c \<Rightarrow> byte list list \<Rightarrow> 'c option" where
  "run_updates update ctx [] = Some ctx"
| "run_updates update ctx (p # ps) = do { ctx \<leftarrow> update ctx p (length p); run_updates update ctx ps }"

section \<open>The reference: padding and iteration\<close>

text \<open>The whole blocks of \<open>n\<close> bytes at the start of a list.\<close>

function blocks :: "nat \<Rightarrow> 'a list \<Rightarrow> 'a list list" where
  "blocks n xs = (if n = 0 \<or> length xs < n then [] else take n xs # blocks n (drop n xs))"
  by pat_completeness auto
termination
  by (relation "measure (\<lambda>(n, xs). length xs)") auto

declare blocks.simps [simp del]

definition pad_zeros :: "nat \<Rightarrow> nat" where
  "pad_zeros n = (if n mod 64 < 56 then 55 - n mod 64 else 119 - n mod 64)"

text \<open>The message, a one bit, zeros up to 8 bytes short of a block, and the length in bits.\<close>

definition md_pad :: "(word64 \<Rightarrow> byte list) \<Rightarrow> byte list \<Rightarrow> byte list" where
  "md_pad len_bytes msg =
     msg @ 0x80 # replicate (pad_zeros (length msg)) 0 @ len_bytes (of_nat (8 * length msg))"

definition md_iterate :: "('h \<Rightarrow> byte list \<Rightarrow> 'h) \<Rightarrow> 'h \<Rightarrow> byte list \<Rightarrow> 'h" where
  "md_iterate compress h msg = foldl compress h (blocks 64 msg)"

definition len_be :: "word64 \<Rightarrow> byte list" where
  "len_be n = map (\<lambda>s. ucast (drop_bit s n)) [56, 48, 40, 32, 24, 16, 8, 0]"

definition len_le :: "word64 \<Rightarrow> byte list" where
  "len_le n = map (\<lambda>s. ucast (drop_bit s n)) [0, 8, 16, 24, 32, 40, 48, 56]"

section \<open>Blocks and padding\<close>

lemma blocks_short: "length xs < n \<Longrightarrow> blocks n xs = []"
  by (subst blocks.simps) simp

lemma blocks_one: "0 < n \<Longrightarrow> length xs = n \<Longrightarrow> blocks n (xs @ ys) = xs # blocks n ys"
  by (subst blocks.simps) simp

lemma blocks_append: "0 < n \<Longrightarrow> length xs = n * q \<Longrightarrow> blocks n (xs @ ys) = blocks n xs @ blocks n ys"
proof (induction q arbitrary: xs)
  case 0
  then show ?case by (simp add: blocks_short)
next
  case (Suc q)
  define a b where "a = take n xs" and "b = drop n xs"
  have l: "length a = n" "length b = n * q" "xs = a @ b" using Suc.prems by (simp_all add: a_def b_def)
  show ?case
    unfolding l(3) append_assoc blocks_one [OF Suc.prems(1) l(1)] Suc.IH [OF Suc.prems(1) l(2)] by simp
qed

lemma md_iterate_append: "length xs = 64 * q \<Longrightarrow> md_iterate f h (xs @ ys) = md_iterate f (md_iterate f h xs) ys"
  by (simp add: md_iterate_def blocks_append)

lemma md_iterate_one: "length xs = 64 \<Longrightarrow> md_iterate f h xs = f h xs"
  using blocks_one [of 64 xs "[]"] by (simp add: md_iterate_def blocks_short)

lemma md_iterate_short: "length xs < 64 \<Longrightarrow> md_iterate f h xs = h"
  by (simp add: md_iterate_def blocks_short)

lemma length_md_iterate: "(\<And>h d. length (f h d) = n) \<Longrightarrow> length h = n \<Longrightarrow> length (md_iterate f h msg) = n"
proof -
  assume f: "\<And>h d. length (f h d) = n"
  have "length h = n \<Longrightarrow> length (foldl f h bs) = n" for bs by (induction bs arbitrary: h) (simp_all add: f)
  then show "length h = n \<Longrightarrow> length (md_iterate f h msg) = n" by (simp add: md_iterate_def)
qed

lemma run_updates_append:
  "run_updates update ctx (ps @ qs) = run_updates update ctx ps \<bind> (\<lambda>ctx. run_updates update ctx qs)"
  by (induction ps arbitrary: ctx) (simp_all add: bind_assoc)

lemma zero_loop_eq:
  assumes "i \<le> n" "n \<le> length d"
  shows "zero_loop d i n = Some (take i d @ replicate (n - i) 0 @ drop n d)"
  using assms
proof (induction "n - i" arbitrary: i d)
  case 0
  then show ?case by (subst zero_loop.simps) simp
next
  case (Suc k)
  then have i: "i < n" "k = n - (i + 1)" by simp_all
  have "zero_loop d i n = zero_loop (d[i := 0]) (i + 1) n"
    using i(1) Suc.prems by (subst zero_loop.simps) (simp add: array_simps)
  also have "\<dots> = Some (take (i + 1) (d[i := 0]) @ replicate (n - (i + 1)) 0 @ drop n (d[i := 0]))"
    using i Suc.prems by (intro Suc.hyps(1)) simp_all
  also have "take (i + 1) (d[i := 0]) = take i d @ [0]" using i(1) Suc.prems by (simp add: take_Suc_conv_app_nth)
  also have "replicate (n - i) (0 :: byte) = 0 # replicate (n - (i + 1)) 0"
    using i(1) by (simp add: Suc_diff_Suc [symmetric])
  ultimately show ?case using i(1) by simp
qed

lemma put_len_be_eq: "length d = 64 \<Longrightarrow> put_len_be d n = take 56 d @ len_be n"
  and put_len_le_eq: "length d = 64 \<Longrightarrow> put_len_le d n = take 56 d @ len_le n"
proof -
  assume "length d = 64"
  then obtain a b where d: "d = a @ b" "length a = 56" "length b = 8"
    by (intro that [of "take 56 d" "drop 56 d"]) simp_all
  then obtain b0 b1 b2 b3 b4 b5 b6 b7 where b: "b = [b0, b1, b2, b3, b4, b5, b6, b7]"
    by (auto simp: length_Suc_conv eval_nat_numeral)
  show "put_len_be d n = take 56 d @ len_be n" "put_len_le d n = take 56 d @ len_le n"
    unfolding put_len_be_def put_len_le_def len_be_def len_le_def d(1) b
    by (simp_all add: list_update_append d(2))
qed

lemma length_len [simp]: "length (len_be n) = 8" "length (len_le n) = 8"
  by (simp_all add: len_be_def len_le_def)

lemma unat_of_nat_small: "n < 128 \<Longrightarrow> unat (of_nat n :: word32) = n"
  by (simp add: unat_of_nat)

section \<open>The interface of a hash function\<close>

locale md_hash =
  fixes transform :: "'a md_ctx_scheme \<Rightarrow> byte list \<Rightarrow> 'a md_ctx_scheme"
    and compress :: "word32 list \<Rightarrow> byte list \<Rightarrow> word32 list"
    and more_ok :: "'a \<Rightarrow> bool"
    and put_len :: "byte list \<Rightarrow> word64 \<Rightarrow> byte list"
    and len_bytes :: "word64 \<Rightarrow> byte list"
  assumes transform: "more_ok (md_ctx.more c) \<Longrightarrow> length d = 64 \<Longrightarrow>
      transform c d = c\<lparr>ctx_state := compress (ctx_state c) d\<rparr>"
    and put_len: "length d = 64 \<Longrightarrow> put_len d n = take 56 d @ len_bytes n"
    and length_len_bytes: "length (len_bytes n) = 8"
begin

text \<open>The context after the bytes \<open>msg\<close>, started with the chaining value \<open>h\<close>.\<close>

definition holds :: "'a md_ctx_scheme \<Rightarrow> word32 list \<Rightarrow> byte list \<Rightarrow> bool" where
  "holds c h msg \<longleftrightarrow> more_ok (md_ctx.more c) \<and> length (ctx_data c) = 64 \<and>
     (\<exists>full tail q. msg = full @ tail \<and> length full = 64 * q \<and> length tail < 64 \<and>
        datalen c = of_nat (length tail) \<and> take (length tail) (ctx_data c) = tail \<and>
        bitlen c = of_nat (512 * q) \<and> ctx_state c = md_iterate compress h full)"

lemma holdsI:
  assumes "more_ok (md_ctx.more c)" "length (ctx_data c) = 64" "msg = full @ tail" "length full = 64 * q"
    "length tail < 64" "datalen c = of_nat (length tail)" "take (length tail) (ctx_data c) = tail"
    "bitlen c = of_nat (512 * q)" "ctx_state c = md_iterate compress h full"
  shows "holds c h msg"
  unfolding holds_def using assms by blast

lemma holds_start:
  "more_ok (md_ctx.more c) \<Longrightarrow> length (ctx_data c) = 64 \<Longrightarrow> datalen c = 0 \<Longrightarrow> bitlen c = 0 \<Longrightarrow> holds c (ctx_state c) []"
  by (simp add: holds_def md_iterate_short)

lemma holdsE:
  assumes "holds c h msg"
  obtains full tail q where "msg = full @ tail" "length full = 64 * q" "length tail < 64"
    "datalen c = of_nat (length tail)" "unat (datalen c) = length tail" "take (length tail) (ctx_data c) = tail"
    "bitlen c = of_nat (512 * q)" "ctx_state c = md_iterate compress h full"
    "more_ok (md_ctx.more c)" "length (ctx_data c) = 64"
proof -
  obtain full tail q where f: "msg = full @ tail" "length full = 64 * q" "length tail < 64"
    "datalen c = of_nat (length tail)" "take (length tail) (ctx_data c) = tail"
    "bitlen c = of_nat (512 * q)" "ctx_state c = md_iterate compress h full"
    "more_ok (md_ctx.more c)" "length (ctx_data c) = 64"
    using assms unfolding holds_def by blast
  have "unat (datalen c) = length tail" unfolding f(4) using f(3) by (simp add: unat_of_nat)
  then show thesis using that f by blast
qed

lemma absorb_holds:
  assumes "holds c h msg"
  shows "\<exists>c'. absorb transform c b = Some c' \<and> holds c' h (msg @ [b])"
proof (rule holdsE [OF assms])
  fix full tail q
  assume f: "msg = full @ tail" "length full = 64 * q" "length tail < 64" "datalen c = of_nat (length tail)"
    "unat (datalen c) = length tail" "take (length tail) (ctx_data c) = tail"
    "bitlen c = of_nat (512 * q)" "ctx_state c = md_iterate compress h full"
    "more_ok (md_ctx.more c)" "length (ctx_data c) = 64"
  define d where "d = (ctx_data c)[length tail := b]"
  have d: "length d = 64" "take (length tail + 1) d = tail @ [b]"
    using f(3,6,10) by (simp_all add: d_def take_Suc_conv_app_nth)
  have s: "aset (ctx_data c) (unat (datalen c)) b = Some d"
    using f(3,5,10) by (simp add: array_simps d_def)
  define c1 where "c1 = c\<lparr>ctx_data := d, datalen := datalen c + 1\<rparr>"
  have n: "datalen c1 = of_nat (length tail + 1)" by (simp add: c1_def f(4))
  have u: "datalen c1 = 64 \<longleftrightarrow> length tail + 1 = 64"
  proof -
    have "unat (datalen c1) = length tail + 1" unfolding n by (rule unat_of_nat_small) (use f(3) in simp)
    then show ?thesis by (simp add: word_unat_eq_iff)
  qed
  show "\<exists>c'. absorb transform c b = Some c' \<and> holds c' h (msg @ [b])"
  proof (cases "length tail + 1 = 64")
    case True
    then have t: "tail @ [b] = d" using d by (metis take_all_iff order_refl)
    define c2 where "c2 = c1\<lparr>ctx_state := compress (ctx_state c) d, bitlen := bitlen c + 512, datalen := 0\<rparr>"
    have "absorb transform c b = Some c2"
      using True u f(9) d(1) unfolding absorb_def s
      by (simp add: c1_def [symmetric] c2_def Let_def transform) (simp add: c1_def transform d(1) f(9))
    moreover have "holds c2 h (msg @ [b])"
      by (rule holdsI [of _ _ "full @ d" "[]" "q + 1"])
        (simp_all add: c2_def c1_def f(1,2,7,8,9) d(1) t [symmetric] md_iterate_append [OF f(2)] md_iterate_one
          True [simplified] distrib_left add.commute)
    ultimately show ?thesis by blast
  next
    case False
    have "absorb transform c b = Some c1"
      using False u unfolding absorb_def s by (simp add: c1_def [symmetric] Let_def) (simp add: c1_def)
    moreover have "holds c1 h (msg @ [b])"
      by (rule holdsI [of _ _ full "tail @ [b]" q]) (use f d n False in \<open>simp_all add: c1_def\<close>)
    ultimately show ?thesis by blast
  qed
qed

lemma update_holds:
  "holds c h msg \<Longrightarrow> \<exists>c'. update_loop transform c (pre @ xs @ post) (length pre + length xs) (length pre) = Some c' \<and>
    holds c' h (msg @ xs)"
proof (induction xs arbitrary: c msg pre)
  case Nil
  then show ?case by (subst update_loop.simps) simp
next
  case (Cons x xs)
  obtain c1 where c1: "absorb transform c x = Some c1" "holds c1 h (msg @ [x])"
    using absorb_holds [OF Cons.prems] by blast
  have "update_loop transform c (pre @ (x # xs) @ post) (length pre + length (x # xs)) (length pre) =
      update_loop transform c1 ((pre @ [x]) @ xs @ post) (length (pre @ [x]) + length xs) (length (pre @ [x]))"
    by (subst update_loop.simps) (simp add: c1(1) aget_at)
  then show ?case using Cons.IH [OF c1(2), of "pre @ [x]"] by simp
qed

lemma update_loop_holds:
  assumes "holds c h msg" "len \<le> length xs"
  shows "\<exists>c'. update_loop transform c xs len 0 = Some c' \<and> holds c' h (msg @ take len xs)"
  using update_holds [OF assms(1), of "[]" "take len xs" "drop len xs"] assms(2) by simp

lemma run_updates_holds:
  assumes "\<And>c msg p. holds c h msg \<Longrightarrow> p \<in> set ps \<Longrightarrow> \<exists>c'. update c p (length p) = Some c' \<and> holds c' h (msg @ p)"
  shows "holds c h msg \<Longrightarrow> \<exists>c'. run_updates update c ps = Some c' \<and> holds c' h (msg @ concat ps)"
  using assms
proof (induction ps arbitrary: c msg)
  case (Cons p ps)
  obtain c1 where c1: "update c p (length p) = Some c1" "holds c1 h (msg @ p)"
    using Cons.prems(2) [OF Cons.prems(1), of p] by auto
  then obtain c2 where "run_updates update c1 ps = Some c2" "holds c2 h ((msg @ p) @ concat ps)"
    using Cons.IH [OF c1(2)] Cons.prems(2) by auto
  then show ?case using c1(1) by simp
qed simp

text \<open>The buffer \<open>pad_buffer\<close> leaves: the last block without its length field.\<close>

lemma pad_buffer_eq:
  assumes "holds c h msg"
  obtains b c' where "pad_buffer transform c = Some c'" "length (ctx_data c') = 64" "more_ok (md_ctx.more c')"
    "bitlen c' + ucast (datalen c' * 8) = of_nat (8 * length msg)"
    "\<And>l. length l = 8 \<Longrightarrow> compress (ctx_state c') (take 56 (ctx_data c') @ l) =
      md_iterate compress h (msg @ 0x80 # replicate (pad_zeros (length msg)) 0 @ l)"
proof (rule holdsE [OF assms])
  fix full tail q
  assume f: "msg = full @ tail" "length full = 64 * q" "length tail < 64" "datalen c = of_nat (length tail)"
    "unat (datalen c) = length tail" "take (length tail) (ctx_data c) = tail"
    "bitlen c = of_nat (512 * q)" "ctx_state c = md_iterate compress h full"
    "more_ok (md_ctx.more c)" "length (ctx_data c) = 64"
  define d where "d = (ctx_data c)[length tail := 0x80]"
  have d: "length d = 64" "take (length tail + 1) d = tail @ [0x80]"
    using f(3,6,10) by (simp_all add: d_def take_Suc_conv_app_nth)
  have s: "aset (ctx_data c) (unat (datalen c)) 0x80 = Some d"
    using f(3,5,10) by (simp add: array_simps d_def)
  have m: "length msg mod 64 = length tail" using f(1,2,3) by simp
  note pz = pad_zeros_def [of "length msg", unfolded m]
  have lt: "datalen c < 56 \<longleftrightarrow> length tail < 56" by (simp add: word_less_nat_alt f(5))
  have bits: "bitlen c + ucast (datalen c * 8) = of_nat (8 * length msg)"
  proof -
    have "unat (datalen c * 8) = 8 * length tail"
      using f(3) by (simp add: unat_word_ariths f(5))
    then have "(ucast (datalen c * 8) :: word64) = of_nat (8 * length tail)"
      by (metis of_nat_unat)
    then show ?thesis by (simp add: f(1,2,7) algebra_simps)
  qed
  show thesis
  proof (cases "length tail < 56")
    case True
    define x where "x = tail @ 0x80 # replicate (55 - length tail) 0"
    have x: "length x = 56" using True by (simp add: x_def)
    define d' where "d' = x @ drop 56 d"
    have z: "zero_loop d (length tail + 1) 56 = Some d'"
      using zero_loop_eq [of "length tail + 1" 56 d] True d by (simp add: d'_def x_def)
    have t: "take 56 d' = x" using x by (simp add: d'_def)
    have "compress (ctx_state c) (take 56 d' @ l) = md_iterate compress h (msg @ 0x80 # replicate (pad_zeros (length msg)) 0 @ l)"
      if "length l = 8" for l
    proof -
      have "length (take 56 d' @ l) = 64" using that x by (simp add: t)
      note 1 = md_iterate_one [OF this, of compress "ctx_state c"]
      have 2: "msg @ 0x80 # replicate (pad_zeros (length msg)) 0 @ l = full @ x @ l"
        unfolding pz using True by (simp add: f(1) x_def)
      show ?thesis unfolding 2 using 1 by (simp add: t f(8) md_iterate_append [OF f(2)])
    qed
    then show thesis
      using that [of "c\<lparr>ctx_data := d'\<rparr>"] True s z lt f(5,9) bits d(1) x
      by (simp add: pad_buffer_def d'_def)
  next
    case False
    define b where "b = tail @ 0x80 # replicate (63 - length tail) 0"
    have b: "length b = 64" using f(3) False by (simp add: b_def)
    have z: "zero_loop d (length tail + 1) 64 = Some b"
      using zero_loop_eq [of "length tail + 1" 64 d] f(3) d by (simp add: b_def)
    define d' where "d' = replicate 56 0 @ drop 56 b"
    define c' where "c' = c\<lparr>ctx_data := d', ctx_state := compress (ctx_state c) b\<rparr>"
    have "pad_buffer transform c = Some c'"
      unfolding pad_buffer_def Let_def s lt
      using False z f(5,9) b by (simp add: transform bput_def buf_write_def c'_def d'_def)
    moreover have "compress (ctx_state c') (take 56 d' @ l) = md_iterate compress h (msg @ 0x80 # replicate (pad_zeros (length msg)) 0 @ l)"
      if "length l = 8" for l
    proof -
      have "length (take 56 d' @ l) = 64" using that b by (simp add: d'_def)
      note 1 = md_iterate_one [OF this, of compress]
      have 2: "replicate (119 - length tail) (0 :: byte) = replicate (63 - length tail) 0 @ replicate 56 0"
        using f(3) by (simp add: replicate_add [symmetric])
      have 3: "msg @ 0x80 # replicate (pad_zeros (length msg)) 0 @ l = full @ b @ take 56 d' @ l"
        unfolding pz using False by (simp add: f(1) b_def d'_def 2)
      show ?thesis
        unfolding 3 using 1 md_iterate_append [of b 1 compress] md_iterate_one [OF b, of compress] b
        by (simp add: md_iterate_append [OF f(2)] c'_def f(8))
    qed
    ultimately show thesis using that [of c'] bits f(9) b by (simp add: c'_def d'_def)
  qed
qed

lemma md_finish_eq:
  assumes "holds c h msg"
  shows "\<exists>c'. md_finish transform put_len c = Some c' \<and> ctx_state c' = md_iterate compress h (md_pad len_bytes msg)"
proof (rule pad_buffer_eq [OF assms])
  fix c'
  assume p: "pad_buffer transform c = Some c'" "length (ctx_data c') = 64" "more_ok (md_ctx.more c')"
    "bitlen c' + ucast (datalen c' * 8) = of_nat (8 * length msg)"
    "\<And>l. length l = 8 \<Longrightarrow> compress (ctx_state c') (take 56 (ctx_data c') @ l) =
      md_iterate compress h (msg @ 0x80 # replicate (pad_zeros (length msg)) 0 @ l)"
  show ?thesis
    unfolding md_finish_def p(1) md_pad_def
    using p(2,3,5) by (simp add: put_len length_len_bytes transform p(4))
qed

text \<open>A message fed in pieces by the plain loop, then finished.\<close>

lemma stream_finish:
  assumes "more_ok (md_ctx.more c)" "length (ctx_data c) = 64" "datalen c = 0" "bitlen c = 0"
  shows "\<exists>c1 c2. run_updates (\<lambda>c p len. update_loop transform c p len 0) c ps = Some c1 \<and>
    md_finish transform put_len c1 = Some c2 \<and>
    ctx_state c2 = md_iterate compress (ctx_state c) (md_pad len_bytes (concat ps))"
proof -
  obtain c1 where "run_updates (\<lambda>c p len. update_loop transform c p len 0) c ps = Some c1"
    "holds c1 (ctx_state c) (concat ps)"
    using run_updates_holds [of "ctx_state c" ps "\<lambda>c p len. update_loop transform c p len 0" c "[]"]
      update_loop_holds [of _ _ _ "length p" p for p] holds_start [OF assms] by force
  then show ?thesis using md_finish_eq by blast
qed

end

section \<open>The output loop\<close>

text \<open>A list of stores at distinct places.\<close>

lemma fold_update_nth:
  "distinct (map fst ps) \<Longrightarrow> length (fold (\<lambda>(j, v) h. h[j := v]) ps h) = length h \<and>
    (\<forall>j<length h. fold (\<lambda>(j, v) h. h[j := v]) ps h ! j = (case map_of ps j of None \<Rightarrow> h ! j | Some v \<Rightarrow> v))"
proof (induction ps arbitrary: h)
  case (Cons p ps)
  obtain a v where p: "p = (a, v)" by fastforce
  have "map_of ps a = None" using Cons.prems p by (simp add: map_of_eq_None_iff image_iff)
  then show ?case using Cons.IH [of "h[a := v]"] Cons.prems p
    by (auto simp: nth_list_update split: option.splits)
qed simp

definition out_pairs :: "(nat \<Rightarrow> nat) \<Rightarrow> word32 list \<Rightarrow> nat list \<Rightarrow> nat list \<Rightarrow> (nat \<times> byte) list" where
  "out_pairs sh st ws is = concat (map (\<lambda>i. map (\<lambda>w. (i + 4 * w, byte_of (drop_bit (sh i) (st ! w) AND 0xff))) ws) is)"

lemma out_words_eq:
  "(\<And>w. w \<in> set ws \<Longrightarrow> i + 4 * w < length hash) \<Longrightarrow> out_words i s st ws hash =
    Some (fold (\<lambda>(j, v) h. h[j := v]) (map (\<lambda>w. (i + 4 * w, byte_of (drop_bit s (st ! w) AND 0xff))) ws) hash)"
  by (induction ws arbitrary: hash) (simp_all add: aset_def)

lemma length_fold_update [simp]: "length (fold (\<lambda>(j, v) h. h[j := v]) ps h) = length h"
  by (induction ps arbitrary: h) auto

lemma out_loop_eq:
  "(\<And>i w. i \<in> set is \<Longrightarrow> w \<in> set ws \<Longrightarrow> i + 4 * w < length hash) \<Longrightarrow>
    out_loop sh st ws is hash = Some (fold (\<lambda>(j, v) h. h[j := v]) (out_pairs sh st ws is) hash)"
  by (induction "is" arbitrary: hash) (simp_all add: out_words_eq out_pairs_def)

definition word_bytes :: "(nat \<Rightarrow> nat) \<Rightarrow> word32 \<Rightarrow> byte list" where
  "word_bytes sh w = map (\<lambda>i. byte_of (drop_bit (sh i) w AND 0xff)) [0, 1, 2, 3]"

lemma nth_concat_words:
  "j < 4 * length st \<Longrightarrow> concat (map (word_bytes sh) st) ! j = byte_of (drop_bit (sh (j mod 4)) (st ! (j div 4)) AND 0xff)"
proof (induction st arbitrary: j)
  case (Cons w st)
  have l: "length (word_bytes sh w) = 4" by (simp add: word_bytes_def)
  show ?case
  proof (cases "j < 4")
    case True
    then have "j = 0 \<or> j = 1 \<or> j = 2 \<or> j = 3" by auto
    then show ?thesis using l by (auto simp: nth_append) (simp_all add: word_bytes_def)
  next
    case False
    then obtain k where k: "j = k + 4" by (metis add.commute le_Suc_ex not_less)
    have "(k + 4) div 4 = Suc (k div 4)" "(k + 4) mod 4 = k mod 4" by simp_all
    then show ?thesis using Cons k l by (simp add: nth_append del: div_add_self2)
  qed
qed simp

lemma out_loop_bytes:
  assumes "n = length st" "4 * n \<le> length hash"
  shows "out_loop sh st [0..<n] [0, 1, 2, 3] hash = Some (concat (map (word_bytes sh) st) @ drop (4 * n) hash)"
proof -
  let ?ps = "out_pairs sh st [0..<n] [0, 1, 2, 3]"
  let ?h = "fold (\<lambda>(j, v) h. h[j := v]) ?ps hash"
  have fsts: "map fst ?ps = concat (map (\<lambda>i. map (\<lambda>w. i + 4 * w) [0..<n]) [0, 1, 2, 3])"
    by (simp add: out_pairs_def comp_def)
  have dist: "distinct (map fst ?ps)"
    unfolding fsts by (auto simp: distinct_map inj_on_def) presburger+
  note h = fold_update_nth [OF dist, of hash]
  have l: "length (concat (map (word_bytes sh) st)) = 4 * n"
    unfolding assms(1) by (induction st) (simp_all add: word_bytes_def)
  have "?h = concat (map (word_bytes sh) st) @ drop (4 * n) hash"
  proof (rule nth_equalityI)
    show "length ?h = length (concat (map (word_bytes sh) st) @ drop (4 * n) hash)" using l assms(2) by simp
    fix j assume "j < length ?h"
    then have j: "j < length hash" by simp
    show "?h ! j = (concat (map (word_bytes sh) st) @ drop (4 * n) hash) ! j"
    proof (cases "j < 4 * n")
      case True
      have "(j, byte_of (drop_bit (sh (j mod 4)) (st ! (j div 4)) AND 0xff)) \<in> set ?ps"
      proof -
        define i w where "i = j mod 4" and "w = j div 4"
        have "i < 4" unfolding i_def by (rule mod_less_divisor) simp
        then have i: "i = 0 \<or> i = 1 \<or> i = 2 \<or> i = 3" by arith
        have w: "w < n" unfolding w_def using True by (simp only: less_mult_imp_div_less mult.commute)
        have "j = i + 4 * w" unfolding i_def w_def by (rule mod_mult_div_eq [symmetric])
        then show ?thesis
          unfolding i_def [symmetric] w_def [symmetric] out_pairs_def using i w by auto
      qed
      then show ?thesis using h j True l nth_concat_words [of j st sh] assms(1) dist
        by (simp add: nth_append map_of_eq_Some_iff)
    next
      case False
      then have "map_of ?ps j = None" by (auto simp: map_of_eq_None_iff out_pairs_def)
      then show ?thesis using h j False l by (simp add: nth_append)
    qed
  qed
  then show ?thesis using assms(2) by (subst out_loop_eq) auto
qed

lemma word_bytes_be: "word_bytes (\<lambda>i. 24 - i * 8) = be_bytes"
proof
  fix w :: word32
  have "byte_of (x AND 0xff) = byte_of x" for x :: word32
    by (rule byte_eqI) (elim insertE emptyE; simp add: bit_simps)
  then show "word_bytes (\<lambda>i. 24 - i * 8) w = be_bytes w" by (simp add: word_bytes_def be_bytes_def)
qed

section \<open>Words\<close>

lemma rotl_shifts:
  fixes a :: word32
  assumes "0 < b" "b < 32"
  shows "push_bit b a OR drop_bit (32 - b) a = word_rotl b a"
proof (rule bit_word_eqI)
  fix n assume "n < LENGTH(32)"
  then have n: "n < 32" by simp
  show "bit (push_bit b a OR drop_bit (32 - b) a) n = bit (word_rotl b a) n"
  proof (cases "b \<le> n")
    case True
    then have "(n + (32 - b)) mod 32 = n - b" using n assms by (simp add: mod_if)
    then show ?thesis using True n assms bit_imp_le_length [of a "32 + n - b"]
      by (auto simp: bit_simps bit_word_rotl_iff)
  next
    case False
    then have "(n + (32 - b)) mod 32 = n + (32 - b)" using n assms by simp
    then show ?thesis using False n assms by (auto simp: bit_simps bit_word_rotl_iff add.commute [of n])
  qed
qed

lemma add_be_word:
  "push_bit 24 (ucast a) + push_bit 16 (ucast b) + push_bit 8 (ucast c) + ucast d = be_word a b c d"
proof -
  have h: "\<not> bit x n" if "8 \<le> n" for x :: byte and n using that by (rule bit_byte_high)
  have 1: "push_bit 24 (ucast a) + push_bit 16 (ucast b) = push_bit 24 (ucast a) OR (push_bit 16 (ucast b) :: word32)"
    by (rule disjunctive_add) (auto simp: bit_simps h)
  have 2: "(push_bit 24 (ucast a) OR push_bit 16 (ucast b)) + push_bit 8 (ucast c) = 
      (push_bit 24 (ucast a) OR push_bit 16 (ucast b)) OR (push_bit 8 (ucast c) :: word32)"
    by (rule disjunctive_add) (auto simp: bit_simps h)
  have 3: "((push_bit 24 (ucast a) OR push_bit 16 (ucast b)) OR push_bit 8 (ucast c)) + ucast d = 
      ((push_bit 24 (ucast a) OR push_bit 16 (ucast b)) OR push_bit 8 (ucast c)) OR (ucast d :: word32)"
    by (rule disjunctive_add) (auto simp: bit_simps h)
  show ?thesis unfolding 1 2 3 be_word_def by (simp only: or.assoc)
qed

text \<open>A loop that fills an array from left to right, each entry from the earlier ones.\<close>

lemma fold_fill:
  assumes "\<And>i m. a \<le> i \<Longrightarrow> i < b \<Longrightarrow> \<forall>t<i. m ! t = W t \<Longrightarrow> f i m = W i"
    and "b \<le> length m" "\<forall>t<a. m ! t = W t" "a \<le> b"
  shows "length (fold (\<lambda>i m. m[i := f i m]) [a..<b] m) = length m \<and>
    (\<forall>t<b. fold (\<lambda>i m. m[i := f i m]) [a..<b] m ! t = W t)"
  using assms(4,1,2)
proof (induction b rule: nat_induct_at_least)
  case base
  then show ?case using assms(3) by simp
next
  case (Suc n)
  let ?m = "fold (\<lambda>i m. m[i := f i m]) [a..<n] m"
  have IH: "length ?m = length m" "\<forall>t<n. ?m ! t = W t"
    using Suc.IH Suc.prems by auto
  have "f n ?m = W n" using Suc.prems(1) [of n] Suc.hyps IH(2) by simp
  then show ?case using Suc.hyps Suc.prems(2) IH by (auto simp: nth_list_update less_Suc_eq)
qed

section \<open>Constants\<close>

text \<open>
  The constants of the SHA standards: the bits behind the binary point, after the integer part has
  wrapped away, of \<open>2 ^ k\<close> times the \<open>n\<close>-th root of \<open>p\<close>.
\<close>

definition root_const :: "nat \<Rightarrow> nat \<Rightarrow> nat \<Rightarrow> word32" where
  "root_const n k p = word_of_int \<lfloor>2 ^ k * root n (real p)\<rfloor>"

definition root_check :: "nat \<Rightarrow> nat \<Rightarrow> nat \<Rightarrow> nat \<Rightarrow> word32 \<Rightarrow> bool" where
  "root_check n k p c w \<longleftrightarrow>
     (let x = c * 2 ^ 32 + unat w in x ^ n \<le> p * 2 ^ (k * n) \<and> p * 2 ^ (k * n) < (x + 1) ^ n)"

lemma root_const_check:
  assumes "0 < n" "root_check n k p c w"
  shows "root_const n k p = w"
proof -
  define x where "x = c * 2 ^ 32 + unat w"
  have x: "x ^ n \<le> p * 2 ^ (k * n)" "p * 2 ^ (k * n) < (x + 1) ^ n"
    using assms(2) by (simp_all add: root_check_def x_def Let_def)
  define r where "r = 2 ^ k * root n (real p)"
  have r0: "0 \<le> r" by (simp add: r_def assms(1))
  have "r ^ n = real (p * 2 ^ (k * n))"
    by (simp add: r_def power_mult_distrib assms(1) power_mult [symmetric] mult.commute)
  then have "real x ^ n \<le> r ^ n" "r ^ n < real (x + 1) ^ n"
    using x by (metis of_nat_le_iff of_nat_power, metis of_nat_less_iff of_nat_power)
  then have "real x \<le> r" "r < real (x + 1)"
    using r0 assms(1) by (meson power_mono_iff of_nat_0_le_iff, meson power_less_imp_less_base of_nat_0_le_iff)
  then have "\<lfloor>r\<rfloor> = int x" by (intro floor_unique) simp_all
  then have "root_const n k p = word_of_nat x" by (simp add: root_const_def r_def)
  also have "\<dots> = word_of_nat (c * 2 ^ 32) + w" unfolding x_def of_nat_add by simp
  also have "(word_of_nat (c * 2 ^ 32) :: word32) = 0" unfolding word_of_nat_eq_0_iff by simp
  finally show ?thesis by simp
qed

declare out_words.simps [simp del] out_loop.simps [simp del]

end
