(* ===== verification/Sha256.thy ===== *)
theory Sha256
  imports MdHash
begin

text \<open>
  SHA-256 of \<open>crypto-algorithms_learn/sha256.c\<close>. The compression function follows the source; the
  context, the buffer loop and the padding are those of \<open>MdHash\<close>, except that the index of the loop in
  \<open>sha256_update\<close> is a 32-bit \<open>WORD\<close> compared with a \<open>size_t\<close>, so the loop is a partial function.
  The reference is the algorithm of FIPS 180-4.
\<close>

section \<open>Definitions\<close>

type_synonym SHA256_CTX = md_ctx

definition ROTRIGHT :: "word32 \<Rightarrow> nat \<Rightarrow> word32" where
  "ROTRIGHT a b = drop_bit b a OR push_bit (32 - b) a"

definition CH :: "word32 \<Rightarrow> word32 \<Rightarrow> word32 \<Rightarrow> word32" where
  "CH x y z = (x AND y) XOR (NOT x AND z)"

definition MAJ :: "word32 \<Rightarrow> word32 \<Rightarrow> word32 \<Rightarrow> word32" where
  "MAJ x y z = (x AND y) XOR (x AND z) XOR (y AND z)"

definition EP0 :: "word32 \<Rightarrow> word32" where
  "EP0 x = ROTRIGHT x 2 XOR ROTRIGHT x 13 XOR ROTRIGHT x 22"

definition EP1 :: "word32 \<Rightarrow> word32" where
  "EP1 x = ROTRIGHT x 6 XOR ROTRIGHT x 11 XOR ROTRIGHT x 25"

definition SIG0 :: "word32 \<Rightarrow> word32" where
  "SIG0 x = ROTRIGHT x 7 XOR ROTRIGHT x 18 XOR drop_bit 3 x"

definition SIG1 :: "word32 \<Rightarrow> word32" where
  "SIG1 x = ROTRIGHT x 17 XOR ROTRIGHT x 19 XOR drop_bit 10 x"

text \<open>One list for each line of the initializer.\<close>

definition sha256_k :: "word32 list" where
  "sha256_k = concat
    [[0x428a2f98, 0x71374491, 0xb5c0fbcf, 0xe9b5dba5, 0x3956c25b, 0x59f111f1],
     [0x923f82a4, 0xab1c5ed5, 0xd807aa98, 0x12835b01, 0x243185be, 0x550c7dc3],
     [0x72be5d74, 0x80deb1fe, 0x9bdc06a7, 0xc19bf174, 0xe49b69c1, 0xefbe4786],
     [0x0fc19dc6, 0x240ca1cc, 0x2de92c6f, 0x4a7484aa, 0x5cb0a9dc, 0x76f988da],
     [0x983e5152, 0xa831c66d, 0xb00327c8, 0xbf597fc7, 0xc6e00bf3, 0xd5a79147],
     [0x06ca6351, 0x14292967, 0x27b70a85, 0x2e1b2138, 0x4d2c6dfc, 0x53380d13],
     [0x650a7354, 0x766a0abb, 0x81c2c92e, 0x92722c85, 0xa2bfe8a1, 0xa81a664b],
     [0xc24b8b70, 0xc76c51a3, 0xd192e819, 0xd6990624, 0xf40e3585, 0x106aa070],
     [0x19a4c116, 0x1e376c08, 0x2748774c, 0x34b0bcb5, 0x391c0cb3, 0x4ed8aa4a],
     [0x5b9cca4f, 0x682e6ff3, 0x748f82ee, 0x78a5636f, 0x84c87814, 0x8cc70208],
     [0x90befffa, 0xa4506ceb, 0xbef9a3f7, 0xc67178f2]]"

text \<open>The array \<open>m\<close>: the sixteen words of the block, then the expansion.\<close>

definition sha256_load :: "byte list \<Rightarrow> word32 list" where
  "sha256_load data =
     fold (\<lambda>i m. m[i := be_word (data ! (4 * i)) (data ! (4 * i + 1)) (data ! (4 * i + 2)) (data ! (4 * i + 3))])
       [0..<16] (replicate 64 0)"

definition sha256_expand :: "word32 list \<Rightarrow> word32 list" where
  "sha256_expand m =
     fold (\<lambda>i m. m[i := SIG1 (m ! (i - 2)) + m ! (i - 7) + SIG0 (m ! (i - 15)) + m ! (i - 16)]) [16..<64] m"

type_synonym vars8 = "word32 \<times> word32 \<times> word32 \<times> word32 \<times> word32 \<times> word32 \<times> word32 \<times> word32"

definition sha256_step :: "word32 list \<Rightarrow> nat \<Rightarrow> vars8 \<Rightarrow> vars8" where
  "sha256_step m i = (\<lambda>(a, b, c, d, e, f, g, h).
     let t1 = h + EP1 e + CH e f g + sha256_k ! i + m ! i;
         t2 = EP0 a + MAJ a b c
     in (t1 + t2, a, b, c, d + t1, e, f, g))"

definition sha256_transform :: "SHA256_CTX \<Rightarrow> byte list \<Rightarrow> SHA256_CTX" where
  "sha256_transform ctx data =
     (let m = sha256_expand (sha256_load data);
          s = ctx_state ctx;
          (a, b, c, d, e, f, g, h) =
            fold (sha256_step m) [0..<64] (s ! 0, s ! 1, s ! 2, s ! 3, s ! 4, s ! 5, s ! 6, s ! 7)
      in ctx\<lparr>ctx_state := [s ! 0 + a, s ! 1 + b, s ! 2 + c, s ! 3 + d, s ! 4 + e, s ! 5 + f, s ! 6 + g, s ! 7 + h]\<rparr>)"

definition sha256_init :: "SHA256_CTX \<Rightarrow> SHA256_CTX" where
  "sha256_init ctx = ctx\<lparr>datalen := 0, bitlen := 0,
     ctx_state := [0x6a09e667, 0xbb67ae85, 0x3c6ef372, 0xa54ff53a, 0x510e527f, 0x9b05688c, 0x1f83d9ab, 0x5be0cd19]\<rparr>"

partial_function (option) sha256_update_loop :: "SHA256_CTX \<Rightarrow> byte list \<Rightarrow> nat \<Rightarrow> word32 \<Rightarrow> SHA256_CTX option" where
  "sha256_update_loop ctx data len i =
     (if unat i < len then do {
        b \<leftarrow> aget data (unat i);
        ctx \<leftarrow> absorb sha256_transform ctx b;
        sha256_update_loop ctx data len (i + 1) }
      else Some ctx)"

definition sha256_update :: "SHA256_CTX \<Rightarrow> byte list \<Rightarrow> nat \<Rightarrow> SHA256_CTX option" where
  "sha256_update ctx data len = sha256_update_loop ctx data len 0"

definition sha256_final :: "SHA256_CTX \<Rightarrow> byte list \<Rightarrow> (SHA256_CTX \<times> byte list) option" where
  "sha256_final ctx hash = do {
     ctx \<leftarrow> md_finish sha256_transform put_len_be ctx;
     hash \<leftarrow> out_loop (\<lambda>i. 24 - i * 8) (ctx_state ctx) [0..<8] [0, 1, 2, 3] hash;
     Some (ctx, hash) }"

declare sha256_update_loop.simps [code]

section \<open>The standard\<close>

definition sigma0 :: "word32 \<Rightarrow> word32" where
  "sigma0 x = word_rotr 7 x XOR word_rotr 18 x XOR drop_bit 3 x"

definition sigma1 :: "word32 \<Rightarrow> word32" where
  "sigma1 x = word_rotr 17 x XOR word_rotr 19 x XOR drop_bit 10 x"

definition Sigma0 :: "word32 \<Rightarrow> word32" where
  "Sigma0 x = word_rotr 2 x XOR word_rotr 13 x XOR word_rotr 22 x"

definition Sigma1 :: "word32 \<Rightarrow> word32" where
  "Sigma1 x = word_rotr 6 x XOR word_rotr 11 x XOR word_rotr 25 x"

text \<open>The message schedule of a block by recursion on the index.\<close>

definition block_word :: "byte list \<Rightarrow> nat \<Rightarrow> word32" where
  "block_word d t = be_word (d ! (4 * t)) (d ! (4 * t + 1)) (d ! (4 * t + 2)) (d ! (4 * t + 3))"

fun sha256_W :: "byte list \<Rightarrow> nat \<Rightarrow> word32" where
  "sha256_W d t =
     (if t < 16 then block_word d t
      else sigma1 (sha256_W d (t - 2)) + sha256_W d (t - 7) + sigma0 (sha256_W d (t - 15)) + sha256_W d (t - 16))"

declare sha256_W.simps [simp del]

definition fips_Ch :: "word32 \<Rightarrow> word32 \<Rightarrow> word32 \<Rightarrow> word32" where
  "fips_Ch x y z = (x AND y) XOR (NOT x AND z)"

definition fips_Maj :: "word32 \<Rightarrow> word32 \<Rightarrow> word32 \<Rightarrow> word32" where
  "fips_Maj x y z = (x AND y) XOR (x AND z) XOR (y AND z)"

text \<open>
  The constants are the first 32 bits of the fractional parts of the cube roots of the first 64 primes,
  and the initial hash value those of the square roots of the first eight.
\<close>

definition primes64 :: "nat list" where
  "primes64 =
    [2, 3, 5, 7, 11, 13, 17, 19, 23, 29, 31, 37, 41, 43, 47, 53, 59, 61, 67, 71, 73, 79, 83, 89, 97, 101, 103, 107,
     109, 113, 127, 131, 137, 139, 149, 151, 157, 163, 167, 173, 179, 181, 191, 193, 197, 199, 211, 223, 227, 229,
     233, 239, 241, 251, 257, 263, 269, 271, 277, 281, 283, 293, 307, 311]"

definition fips_K :: "nat \<Rightarrow> word32" where
  "fips_K t = root_const 3 32 (primes64 ! t)"

definition fips_step :: "(nat \<Rightarrow> word32) \<Rightarrow> vars8 \<Rightarrow> nat \<Rightarrow> vars8" where
  "fips_step W v t = (case v of (a, b, c, d, e, f, g, h) \<Rightarrow>
     let T1 = h + Sigma1 e + fips_Ch e f g + fips_K t + W t;
         T2 = Sigma0 a + fips_Maj a b c
     in (T1 + T2, a, b, c, d + T1, e, f, g))"

definition sha256_compress :: "word32 list \<Rightarrow> byte list \<Rightarrow> word32 list" where
  "sha256_compress H d =
     (case foldl (fips_step (sha256_W d)) (H ! 0, H ! 1, H ! 2, H ! 3, H ! 4, H ! 5, H ! 6, H ! 7) [0..<64] of
        (a, b, c, d, e, f, g, h) \<Rightarrow>
          [a + H ! 0, b + H ! 1, c + H ! 2, d + H ! 3, e + H ! 4, f + H ! 5, g + H ! 6, h + H ! 7])"

definition sha256_H0 :: "word32 list" where
  "sha256_H0 = map (root_const 2 32) (take 8 primes64)"

definition sha256 :: "byte list \<Rightarrow> byte list" where
  "sha256 msg = concat (map be_bytes (md_iterate sha256_compress sha256_H0 (md_pad len_be msg)))"

section \<open>The transformation is the compression function of the standard\<close>

lemma ROTRIGHT_rotr: "b < 32 \<Longrightarrow> ROTRIGHT a b = word_rotr b a"
proof (rule bit_word_eqI)
  fix n assume b: "b < 32" and "n < LENGTH(32)"
  then have n: "n < 32" by simp
  show "bit (ROTRIGHT a b) n = bit (word_rotr b a) n"
  proof (cases "n + b < 32")
    case True
    then show ?thesis using b n by (auto simp: ROTRIGHT_def bit_simps bit_word_rotr_iff add.commute)
  next
    case False
    then have "(n + b) mod 32 = n + b - 32" using b n by (simp add: mod_if)
    then show ?thesis using b n False bit_imp_le_length [of a "n + b"]
      by (auto simp: ROTRIGHT_def bit_simps bit_word_rotr_iff add.commute)
  qed
qed

lemma macros_fips: "EP0 = Sigma0" "EP1 = Sigma1" "SIG0 = sigma0" "SIG1 = sigma1" "CH = fips_Ch" "MAJ = fips_Maj"
  by (simp_all add: fun_eq_iff EP0_def Sigma0_def EP1_def Sigma1_def SIG0_def sigma0_def SIG1_def sigma1_def
      CH_def fips_Ch_def MAJ_def fips_Maj_def ROTRIGHT_rotr)

lemma sha256_k_checked:
  "list_all2 (\<lambda>p w. root_check 3 32 p (if p < 8 then 1 else if p < 27 then 2 else if p < 64 then 3
     else if p < 125 then 4 else if p < 216 then 5 else 6) w) primes64 sha256_k"
  unfolding primes64_def sha256_k_def by (simp add: root_check_def)

lemma sha256_k_fips: "t < 64 \<Longrightarrow> sha256_k ! t = fips_K t"
proof -
  assume "t < 64"
  moreover have "length primes64 = 64" by (simp add: primes64_def)
  ultimately show ?thesis
    unfolding fips_K_def using list_all2_nthD [OF sha256_k_checked, of t] by (intro root_const_check [symmetric]) simp_all
qed

lemma sha256_H0_eq:
  "sha256_H0 = [0x6a09e667, 0xbb67ae85, 0x3c6ef372, 0xa54ff53a, 0x510e527f, 0x9b05688c, 0x1f83d9ab, 0x5be0cd19]"
proof -
  have "root_const 2 32 2 = 0x6a09e667" "root_const 2 32 3 = 0xbb67ae85"
    by (rule root_const_check [where c = 1]; simp add: root_check_def)+
  moreover have "root_const 2 32 5 = 0x3c6ef372" "root_const 2 32 7 = 0xa54ff53a"
    by (rule root_const_check [where c = 2]; simp add: root_check_def)+
  moreover have "root_const 2 32 11 = 0x510e527f" "root_const 2 32 13 = 0x9b05688c"
    by (rule root_const_check [where c = 3]; simp add: root_check_def)+
  moreover have "root_const 2 32 17 = 0x1f83d9ab" "root_const 2 32 19 = 0x5be0cd19"
    by (rule root_const_check [where c = 4]; simp add: root_check_def)+
  ultimately show ?thesis by (simp add: sha256_H0_def primes64_def)
qed

lemma schedule_eq: "t < 64 \<Longrightarrow> sha256_expand (sha256_load d) ! t = sha256_W d t"
proof -
  have 1: "length (sha256_load d) = 64 \<and> (\<forall>t<16. sha256_load d ! t = sha256_W d t)"
    using fold_fill [of 0 16 "sha256_W d" "\<lambda>i m. block_word d i" "replicate 64 0"]
    unfolding sha256_load_def block_word_def [symmetric] by (simp add: sha256_W.simps)
  have "\<forall>t<64. sha256_expand (sha256_load d) ! t = sha256_W d t"
    unfolding sha256_expand_def
    by (rule fold_fill [THEN conjunct2])
      (use 1 in \<open>simp_all add: macros_fips sha256_W.simps [of d i for i]\<close>)
  then show "t < 64 \<Longrightarrow> sha256_expand (sha256_load d) ! t = sha256_W d t" by simp
qed

lemma steps_eq:
  "n \<le> 64 \<Longrightarrow> fold (sha256_step (sha256_expand (sha256_load d))) [0..<n] v = foldl (fips_step (sha256_W d)) v [0..<n]"
proof (induction n)
  case (Suc n)
  have "sha256_step (sha256_expand (sha256_load d)) n v = fips_step (sha256_W d) v n" for v
    using Suc.prems by (simp add: sha256_step_def fips_step_def macros_fips schedule_eq sha256_k_fips)
  then show ?case using Suc by simp
qed simp

lemma sha256_transform_eq: "sha256_transform ctx d = ctx\<lparr>ctx_state := sha256_compress (ctx_state ctx) d\<rparr>"
  unfolding sha256_transform_def sha256_compress_def Let_def
  using steps_eq [of 64 d] by (simp add: add.commute split: prod.splits)

interpretation sha256: md_hash sha256_transform sha256_compress "\<lambda>_. True" put_len_be len_be
  by unfold_locales (simp_all add: sha256_transform_eq put_len_be_eq)

section \<open>The update loop\<close>

text \<open>With fewer than \<open>2 ^ 32\<close> bytes the 32-bit index reaches the end.\<close>

lemma sha256_update_holds:
  assumes "sha256.holds c h msg" "len \<le> length data" "len < 2 ^ 32"
  shows "\<exists>c'. sha256_update c data len = Some c' \<and> sha256.holds c' h (msg @ take len data)"
proof -
  have "\<exists>c'. sha256_update_loop c data len (of_nat i) = Some c' \<and> sha256.holds c' h (msg @ take len data)"
    if "sha256.holds c h (msg @ take i data)" "i \<le> len" for c i
    using that
  proof (induction "len - i" arbitrary: c i)
    case 0
    then have "i = len" by simp
    then show ?case using 0 assms(3) by (subst sha256_update_loop.simps) (simp add: unat_of_nat)
  next
    case (Suc n)
    then have i: "i < len" "n = len - (i + 1)" by simp_all
    have u: "unat (of_nat i :: word32) = i" using i(1) assms(3) by (simp add: unat_of_nat)
    obtain c1 where c1: "absorb sha256_transform c (data ! i) = Some c1" "sha256.holds c1 h ((msg @ take i data) @ [data ! i])"
      using sha256.absorb_holds [OF Suc.prems(1)] by blast
    have "sha256_update_loop c data len (of_nat i) = sha256_update_loop c1 data len (of_nat (i + 1))"
      using i(1) assms(2) c1(1) by (subst sha256_update_loop.simps) (simp add: u array_simps add.commute)
    moreover have "sha256.holds c1 h (msg @ take (i + 1) data)"
      using c1(2) i(1) assms(2) by (simp add: take_Suc_conv_app_nth)
    ultimately show ?case using Suc.hyps(1) [OF i(2)] i(1) by simp
  qed
  from this [of c 0] show ?thesis using assms(1) by (simp add: sha256_update_def)
qed

text \<open>With \<open>2 ^ 32\<close> bytes or more the index wraps around before it reaches the end.\<close>

lemma sha256_update_loop_diverges:
  assumes "sha256_update_loop c data len i = Some c'"
  shows "len < 2 ^ 32"
proof (rule sha256_update_loop.raw_induct [OF _ assms, where P = "\<lambda>_ _ len _ _. len < 2 ^ 32"])
  fix f ctx data len i y
  assume IH: "\<And>ctx data len i y. f ctx data len i = Some y \<Longrightarrow> len < 2 ^ 32"
    and run: "(if unat (i :: word32) < len then do {
        b \<leftarrow> aget data (unat i);
        ctx \<leftarrow> absorb sha256_transform ctx b;
        f ctx data len (i + 1) }
      else Some ctx) = Some y"
  show "len < 2 ^ 32"
  proof (cases "unat i < len")
    case True
    then show ?thesis using run IH by (auto simp: bind_eq_Some_conv)
  next
    case False
    moreover have "unat i < 2 ^ 32" using unsigned_less [of i] by simp
    ultimately show ?thesis by linarith
  qed
qed

lemma length_sha256_compress: "length (sha256_compress h d) = 8"
  by (simp add: sha256_compress_def split: prod.splits)

lemma sha256_init_holds:
  "length (ctx_data c) = 64 \<Longrightarrow> sha256.holds (sha256_init c) sha256_H0 []"
  using sha256.holds_start [of "sha256_init c"] by (simp add: sha256_init_def sha256_H0_eq)

lemma sha256_run_holds:
  assumes "length (ctx_data c) = 64" "\<And>p. p \<in> set ps \<Longrightarrow> length p < 2 ^ 32"
  shows "\<exists>c'. run_updates sha256_update (sha256_init c) ps = Some c' \<and> sha256.holds c' sha256_H0 (concat ps)"
  using sha256.run_updates_holds [of sha256_H0 ps sha256_update "sha256_init c" "[]"]
    sha256_init_holds [OF assms(1)] sha256_update_holds [of _ _ _ "length p" p for p] assms(2)
  by force

lemma sha256_run_short:
  "run_updates sha256_update c ps = Some c' \<Longrightarrow> p \<in> set ps \<Longrightarrow> length p < 2 ^ 32"
  by (induction ps arbitrary: c)
    (auto simp: bind_eq_Some_conv sha256_update_def dest: sha256_update_loop_diverges)

section \<open>Properties\<close>

text \<open>
  C5 (SHA-256). Whatever the buffer of the context holds at first, and in whatever pieces of fewer
  than \<open>2 ^ 32\<close> bytes the message is passed to \<open>sha256_update\<close>, \<open>sha256_final\<close> writes the 32 bytes of the
  hash that FIPS 180-4 defines for the whole message, and nothing behind them.
\<close>
theorem sha256_streaming:
  assumes "length (ctx_data c0) = 64" "\<forall>p\<in>set pieces. length p < 2 ^ 32" "32 \<le> length hash"
  shows "\<exists>c c'. run_updates sha256_update (sha256_init c0) pieces = Some c \<and>
    sha256_final c hash = Some (c', sha256 (concat pieces) @ drop 32 hash)"
proof -
  obtain c where c: "run_updates sha256_update (sha256_init c0) pieces = Some c" "sha256.holds c sha256_H0 (concat pieces)"
    using sha256_run_holds [OF assms(1), of pieces] assms(2) by blast
  obtain c' where c': "md_finish sha256_transform put_len_be c = Some c'"
    "ctx_state c' = md_iterate sha256_compress sha256_H0 (md_pad len_be (concat pieces))"
    using sha256.md_finish_eq [OF c(2)] by blast
  have "length (ctx_state c') = 8"
    unfolding c'(2) by (rule length_md_iterate) (simp_all add: length_sha256_compress sha256_H0_eq)
  then have "out_loop (\<lambda>i. 24 - i * 8) (ctx_state c') [0..<8] [0, 1, 2, 3] hash =
      Some (concat (map be_bytes (ctx_state c')) @ drop 32 hash)"
    using out_loop_bytes [of 8 "ctx_state c'" hash "\<lambda>i. 24 - i * 8"] assms(3) by (simp add: word_bytes_be)
  then show ?thesis using c(1) c' by (simp add: sha256_final_def sha256_def)
qed

theorem sha256_streaming_witness:
  "\<exists>c c'. run_updates sha256_update (sha256_init \<lparr>ctx_data = replicate 64 7, datalen = 9, bitlen = 9, ctx_state = []\<rparr>)
      [[97], [98, 99], []] = Some c \<and>
    sha256_final c (replicate 33 0) = Some (c', sha256 (concat [[97], [98, 99], []]) @ drop 32 (replicate 33 0))"
  by (rule sha256_streaming) simp_all

text \<open>
  C34 (termination of \<open>sha256_update\<close>). On every context that \<open>sha256_init\<close> and completed calls produce,
  and an array of at least \<open>len\<close> bytes, the loop of \<open>sha256_update\<close> ends exactly when \<open>len\<close> is below
  \<open>2 ^ 32\<close>; for a larger \<open>size_t\<close> the 32-bit index wraps around and the call never returns.
\<close>
theorem sha256_update_terminates:
  assumes "length (ctx_data c0) = 64" "run_updates sha256_update (sha256_init c0) pieces = Some c" "len \<le> length data"
  shows "(\<exists>c'. sha256_update c data len = Some c') \<longleftrightarrow> len < 2 ^ 32"
proof -
  have "sha256.holds c sha256_H0 (concat pieces)"
    using sha256_run_holds [OF assms(1), of pieces] sha256_run_short [OF assms(2)] assms(2) by auto
  then show ?thesis
    using sha256_update_holds [OF _ assms(3)] sha256_update_loop_diverges unfolding sha256_update_def by blast
qed

theorem sha256_update_terminates_witness:
  "(\<exists>c'. sha256_update (sha256_init \<lparr>ctx_data = replicate 64 7, datalen = 9, bitlen = 9, ctx_state = []\<rparr>) [1, 2, 3] 2 = Some c')
    \<longleftrightarrow> (2 :: nat) < 2 ^ 32"
  by (rule sha256_update_terminates [of "\<lparr>ctx_data = replicate 64 7, datalen = 9, bitlen = 9, ctx_state = []\<rparr>" "[]"]) simp_all

end
