(* ===== verification/Sha1.thy ===== *)
theory Sha1
  imports MdHash
begin

text \<open>
  SHA-1 of \<open>crypto-algorithms_learn/sha1.c\<close>. The round constants are a field of the context that
  \<open>sha1_init\<close> fills; the context, the buffer loop and the padding are those of \<open>MdHash\<close>. The reference
  is the algorithm of FIPS 180-4.
\<close>

section \<open>Definitions\<close>

record SHA1_CTX = md_ctx +
  sha1_k :: "word32 list"

definition sha1_ROTLEFT :: "word32 \<Rightarrow> nat \<Rightarrow> word32" where
  "sha1_ROTLEFT a b = push_bit b a OR drop_bit (32 - b) a"

definition sha1_load :: "byte list \<Rightarrow> word32 list" where
  "sha1_load data =
     fold (\<lambda>i m. m[i := push_bit 24 (ucast (data ! (4 * i))) + push_bit 16 (ucast (data ! (4 * i + 1))) +
       push_bit 8 (ucast (data ! (4 * i + 2))) + ucast (data ! (4 * i + 3))]) [0..<16] (replicate 80 0)"

definition sha1_expand :: "word32 list \<Rightarrow> word32 list" where
  "sha1_expand m =
     fold (\<lambda>i m. m[i := (let x = m ! (i - 3) XOR m ! (i - 8) XOR m ! (i - 14) XOR m ! (i - 16)
       in push_bit 1 x OR drop_bit 31 x)]) [16..<80] m"

type_synonym vars5 = "word32 \<times> word32 \<times> word32 \<times> word32 \<times> word32"

text \<open>The body of the four round loops, which differ in the function of \<open>b\<close>, \<open>c\<close>, \<open>d\<close> and the constant.\<close>

definition sha1_round ::
  "(word32 \<Rightarrow> word32 \<Rightarrow> word32 \<Rightarrow> word32) \<Rightarrow> word32 \<Rightarrow> word32 list \<Rightarrow> nat \<Rightarrow> vars5 \<Rightarrow> vars5" where
  "sha1_round f k m i = (\<lambda>(a, b, c, d, e).
     let t = sha1_ROTLEFT a 5 + f b c d + e + k + m ! i
     in (t, a, sha1_ROTLEFT b 30, c, d))"

definition sha1_transform :: "SHA1_CTX \<Rightarrow> byte list \<Rightarrow> SHA1_CTX" where
  "sha1_transform ctx data =
     (let m = sha1_expand (sha1_load data);
          s = ctx_state ctx;
          k = sha1_k ctx;
          v = (s ! 0, s ! 1, s ! 2, s ! 3, s ! 4);
          v = fold (sha1_round (\<lambda>b c d. (b AND c) XOR (NOT b AND d)) (k ! 0) m) [0..<20] v;
          v = fold (sha1_round (\<lambda>b c d. b XOR c XOR d) (k ! 1) m) [20..<40] v;
          v = fold (sha1_round (\<lambda>b c d. (b AND c) XOR (b AND d) XOR (c AND d)) (k ! 2) m) [40..<60] v;
          (a, b, c, d, e) = fold (sha1_round (\<lambda>b c d. b XOR c XOR d) (k ! 3) m) [60..<80] v
      in ctx\<lparr>ctx_state := [s ! 0 + a, s ! 1 + b, s ! 2 + c, s ! 3 + d, s ! 4 + e]\<rparr>)"

definition sha1_init :: "SHA1_CTX \<Rightarrow> SHA1_CTX" where
  "sha1_init ctx = ctx\<lparr>datalen := 0, bitlen := 0,
     ctx_state := [0x67452301, 0xEFCDAB89, 0x98BADCFE, 0x10325476, 0xc3d2e1f0],
     sha1_k := [0x5a827999, 0x6ed9eba1, 0x8f1bbcdc, 0xca62c1d6]\<rparr>"

definition sha1_update :: "SHA1_CTX \<Rightarrow> byte list \<Rightarrow> nat \<Rightarrow> SHA1_CTX option" where
  "sha1_update ctx data len = update_loop sha1_transform ctx data len 0"

definition sha1_final :: "SHA1_CTX \<Rightarrow> byte list \<Rightarrow> (SHA1_CTX \<times> byte list) option" where
  "sha1_final ctx hash = do {
     ctx \<leftarrow> md_finish sha1_transform put_len_be ctx;
     hash \<leftarrow> out_loop (\<lambda>i. 24 - i * 8) (ctx_state ctx) [0..<5] [0, 1, 2, 3] hash;
     Some (ctx, hash) }"

section \<open>The standard\<close>

definition sha1_f :: "nat \<Rightarrow> word32 \<Rightarrow> word32 \<Rightarrow> word32 \<Rightarrow> word32" where
  "sha1_f t x y z =
     (if t < 20 then (x AND y) XOR (NOT x AND z)
      else if t < 40 then x XOR y XOR z
      else if t < 60 then (x AND y) XOR (x AND z) XOR (y AND z)
      else x XOR y XOR z)"

text \<open>The constants are the integer parts of \<open>2 ^ 30\<close> times the square roots of 2, 3, 5 and 10.\<close>

definition sha1_K :: "nat \<Rightarrow> word32" where
  "sha1_K t = root_const 2 30 (if t < 20 then 2 else if t < 40 then 3 else if t < 60 then 5 else 10)"

definition sha1_word :: "byte list \<Rightarrow> nat \<Rightarrow> word32" where
  "sha1_word d t = be_word (d ! (4 * t)) (d ! (4 * t + 1)) (d ! (4 * t + 2)) (d ! (4 * t + 3))"

fun sha1_W :: "byte list \<Rightarrow> nat \<Rightarrow> word32" where
  "sha1_W d t =
     (if t < 16 then sha1_word d t
      else word_rotl 1 (sha1_W d (t - 3) XOR sha1_W d (t - 8) XOR sha1_W d (t - 14) XOR sha1_W d (t - 16)))"

declare sha1_W.simps [simp del]

definition sha1_step :: "(nat \<Rightarrow> word32) \<Rightarrow> vars5 \<Rightarrow> nat \<Rightarrow> vars5" where
  "sha1_step W v t = (case v of (a, b, c, d, e) \<Rightarrow>
     (word_rotl 5 a + sha1_f t b c d + e + sha1_K t + W t, a, word_rotl 30 b, c, d))"

definition sha1_compress :: "word32 list \<Rightarrow> byte list \<Rightarrow> word32 list" where
  "sha1_compress H d =
     (case foldl (sha1_step (sha1_W d)) (H ! 0, H ! 1, H ! 2, H ! 3, H ! 4) [0..<80] of
        (a, b, c, d, e) \<Rightarrow> [a + H ! 0, b + H ! 1, c + H ! 2, d + H ! 3, e + H ! 4])"

definition sha1_H0 :: "word32 list" where
  "sha1_H0 = [0x67452301, 0xEFCDAB89, 0x98BADCFE, 0x10325476, 0xc3d2e1f0]"

definition sha1 :: "byte list \<Rightarrow> byte list" where
  "sha1 msg = concat (map be_bytes (md_iterate sha1_compress sha1_H0 (md_pad len_be msg)))"

section \<open>The transformation is the compression function of the standard\<close>

lemma sha1_ROTLEFT_rotl: "0 < b \<Longrightarrow> b < 32 \<Longrightarrow> sha1_ROTLEFT a b = word_rotl b a"
  unfolding sha1_ROTLEFT_def by (rule rotl_shifts)

lemma sha1_schedule_eq: "t < 80 \<Longrightarrow> sha1_expand (sha1_load d) ! t = sha1_W d t"
proof -
  have 1: "length (sha1_load d) = 80 \<and> (\<forall>t<16. sha1_load d ! t = sha1_W d t)"
    using fold_fill [of 0 16 "sha1_W d" "\<lambda>i m. sha1_word d i" "replicate 80 0"]
    unfolding sha1_load_def add_be_word sha1_word_def [symmetric] by (simp add: sha1_W.simps)
  have r: "push_bit 1 x OR drop_bit 31 x = word_rotl 1 x" for x :: word32
    using rotl_shifts [of 1 x] by simp
  have "\<forall>t<80. sha1_expand (sha1_load d) ! t = sha1_W d t"
    unfolding sha1_expand_def Let_def r
    by (rule fold_fill [THEN conjunct2]) (use 1 in \<open>simp_all add: sha1_W.simps [of d i for i]\<close>)
  then show "t < 80 \<Longrightarrow> sha1_expand (sha1_load d) ! t = sha1_W d t" by simp
qed

text \<open>One of the four loops runs the steps of the standard for its range of indices.\<close>

lemma sha1_loop_eq:
  assumes "b \<le> 80" "\<And>t. a \<le> t \<Longrightarrow> t < b \<Longrightarrow> sha1_f t = f \<and> sha1_K t = k"
  shows "fold (sha1_round f k (sha1_expand (sha1_load d))) [a..<b] v = foldl (sha1_step (sha1_W d)) v [a..<b]"
proof -
  have "fold (sha1_round f k (sha1_expand (sha1_load d))) ts v = foldl (sha1_step (sha1_W d)) v ts"
    if "set ts \<subseteq> {a..<b}" for ts
    using that
  proof (induction ts arbitrary: v)
    case (Cons t ts)
    have "sha1_round f k (sha1_expand (sha1_load d)) t v = sha1_step (sha1_W d) v t"
      using Cons.prems assms by (simp add: sha1_round_def sha1_step_def sha1_ROTLEFT_rotl sha1_schedule_eq Let_def)
    then show ?case using Cons by simp
  qed simp
  then show ?thesis by simp
qed

lemma sha1_root_consts: "root_const 2 30 2 = 0x5a827999" "root_const 2 30 3 = 0x6ed9eba1"
  "root_const 2 30 5 = 0x8f1bbcdc" "root_const 2 30 10 = 0xca62c1d6"
  by (rule root_const_check [where c = 0]; simp add: root_check_def)+

definition sha1_consts :: "word32 list" where
  "sha1_consts = [0x5a827999, 0x6ed9eba1, 0x8f1bbcdc, 0xca62c1d6]"

lemma sha1_transform_eq:
  assumes "sha1_k ctx = sha1_consts"
  shows "sha1_transform ctx d = ctx\<lparr>ctx_state := sha1_compress (ctx_state ctx) d\<rparr>"
proof -
  let ?m = "sha1_expand (sha1_load d)" and ?W = "sha1_W d"
  have u: "[0..<80] = [0..<20] @ [20..<40] @ [40..<60] @ [60..<80]"
    using upt_add_eq_append [of 0 20 60] upt_add_eq_append [of 20 40 40] upt_add_eq_append [of 40 60 20] by simp
  have k: "sha1_consts ! 0 = 0x5a827999" "sha1_consts ! 1 = 0x6ed9eba1" "sha1_consts ! 2 = 0x8f1bbcdc" "sha1_consts ! 3 = 0xca62c1d6"
    by (simp_all add: sha1_consts_def)
  have l: "fold (sha1_round (\<lambda>b c d. (b AND c) XOR (NOT b AND d)) (sha1_consts ! 0) ?m) [0..<20] v = foldl (sha1_step ?W) v [0..<20]"
    "fold (sha1_round (\<lambda>b c d. b XOR c XOR d) (sha1_consts ! 1) ?m) [20..<40] v = foldl (sha1_step ?W) v [20..<40]"
    "fold (sha1_round (\<lambda>b c d. (b AND c) XOR (b AND d) XOR (c AND d)) (sha1_consts ! 2) ?m) [40..<60] v = foldl (sha1_step ?W) v [40..<60]"
    "fold (sha1_round (\<lambda>b c d. b XOR c XOR d) (sha1_consts ! 3) ?m) [60..<80] v = foldl (sha1_step ?W) v [60..<80]" for v
    unfolding k by (rule sha1_loop_eq; simp add: sha1_f_def sha1_K_def sha1_root_consts fun_eq_iff)+
  show ?thesis
    unfolding sha1_transform_def sha1_compress_def Let_def assms u l foldl_append
    by (simp only: add.commute split: prod.splits) simp
qed

text \<open>The extension of a context in which \<open>sha1_init\<close> has stored the constants.\<close>

definition sha1_more_ok where
  "sha1_more_ok m \<longleftrightarrow> m = md_ctx.more \<lparr>ctx_data = [], datalen = 0, bitlen = 0, ctx_state = [], sha1_k = sha1_consts\<rparr>"

lemma sha1_more_ok_iff: "sha1_more_ok (md_ctx.more c) \<longleftrightarrow> sha1_k c = sha1_consts"
  by (cases c) (simp add: sha1_more_ok_def)

interpretation sha1: md_hash sha1_transform sha1_compress sha1_more_ok put_len_be len_be
  by unfold_locales (simp_all add: sha1_transform_eq sha1_more_ok_iff put_len_be_eq)

lemma length_sha1_compress: "length (sha1_compress h d) = 5"
  by (simp add: sha1_compress_def split: prod.splits)

section \<open>Property\<close>

text \<open>
  C14 (SHA-1). Whatever the context holds at first, and in whatever pieces the message is passed to
  \<open>sha1_update\<close>, \<open>sha1_final\<close> writes the 20 bytes of the hash that FIPS 180-4 defines for the whole
  message, and nothing behind them.
\<close>
theorem sha1_streaming:
  assumes "length (ctx_data c0) = 64" "20 \<le> length hash"
  shows "\<exists>c c'. run_updates sha1_update (sha1_init c0) pieces = Some c \<and>
    sha1_final c hash = Some (c', sha1 (concat pieces) @ drop 20 hash)"
proof -
  have i: "sha1_update = (\<lambda>c p len. update_loop sha1_transform c p len 0)" "ctx_state (sha1_init c0) = sha1_H0"
    "sha1_k (sha1_init c0) = sha1_consts"
    by (simp_all add: fun_eq_iff sha1_update_def sha1_init_def sha1_H0_def sha1_consts_def)
  obtain c c' where c: "run_updates sha1_update (sha1_init c0) pieces = Some c"
    "md_finish sha1_transform put_len_be c = Some c'"
    "ctx_state c' = md_iterate sha1_compress sha1_H0 (md_pad len_be (concat pieces))"
    using sha1.stream_finish [of "sha1_init c0" pieces] assms(1) i
    by (auto simp: sha1_more_ok_iff) (auto simp: sha1_init_def)
  have "length (ctx_state c') = 5"
    unfolding c(3) by (rule length_md_iterate) (simp_all add: length_sha1_compress sha1_H0_def)
  then have "out_loop (\<lambda>i. 24 - i * 8) (ctx_state c') [0..<5] [0, 1, 2, 3] hash =
      Some (concat (map be_bytes (ctx_state c')) @ drop 20 hash)"
    using out_loop_bytes [of 5 "ctx_state c'" hash "\<lambda>i. 24 - i * 8"] assms(2) by (simp add: word_bytes_be)
  then show ?thesis using c by (simp add: sha1_final_def sha1_def)
qed

theorem sha1_streaming_witness:
  "\<exists>c c'. run_updates sha1_update
      (sha1_init \<lparr>ctx_data = replicate 64 7, datalen = 9, bitlen = 9, ctx_state = [], sha1_k = []\<rparr>) [[97], [98, 99]] = Some c \<and>
    sha1_final c (replicate 21 0) = Some (c', sha1 (concat [[97], [98, 99]]) @ drop 20 (replicate 21 0))"
  by (rule sha1_streaming) simp_all

end
