(* ===== verification/Md5.thy ===== *)
theory Md5
  imports MdHash
begin

text \<open>
  MD5 of \<open>crypto-algorithms_learn/md5.c\<close>. The 64 macro calls of \<open>md5_transform\<close> are written four at a
  time, because every four calls bring the variables back to their places; the context, the buffer
  loop and the padding are those of \<open>MdHash\<close>. The reference is the algorithm of RFC 1321.
\<close>

section \<open>Definitions\<close>

type_synonym MD5_CTX = md_ctx

definition md5_ROTLEFT :: "word32 \<Rightarrow> nat \<Rightarrow> word32" where
  "md5_ROTLEFT a b = push_bit b a OR drop_bit (32 - b) a"

definition md5_F :: "word32 \<Rightarrow> word32 \<Rightarrow> word32 \<Rightarrow> word32" where
  "md5_F x y z = (x AND y) OR (NOT x AND z)"

definition md5_G :: "word32 \<Rightarrow> word32 \<Rightarrow> word32 \<Rightarrow> word32" where
  "md5_G x y z = (x AND z) OR (y AND NOT z)"

definition md5_H :: "word32 \<Rightarrow> word32 \<Rightarrow> word32 \<Rightarrow> word32" where
  "md5_H x y z = x XOR y XOR z"

definition md5_I :: "word32 \<Rightarrow> word32 \<Rightarrow> word32 \<Rightarrow> word32" where
  "md5_I x y z = y XOR (x OR NOT z)"

text \<open>The macros return the new value of their first argument.\<close>

definition md5_FF :: "word32 \<Rightarrow> word32 \<Rightarrow> word32 \<Rightarrow> word32 \<Rightarrow> word32 \<Rightarrow> nat \<Rightarrow> word32 \<Rightarrow> word32" where
  "md5_FF a b c d m s t = (let a = a + (md5_F b c d + m + t) in b + md5_ROTLEFT a s)"

definition md5_GG :: "word32 \<Rightarrow> word32 \<Rightarrow> word32 \<Rightarrow> word32 \<Rightarrow> word32 \<Rightarrow> nat \<Rightarrow> word32 \<Rightarrow> word32" where
  "md5_GG a b c d m s t = (let a = a + (md5_G b c d + m + t) in b + md5_ROTLEFT a s)"

definition md5_HH :: "word32 \<Rightarrow> word32 \<Rightarrow> word32 \<Rightarrow> word32 \<Rightarrow> word32 \<Rightarrow> nat \<Rightarrow> word32 \<Rightarrow> word32" where
  "md5_HH a b c d m s t = (let a = a + (md5_H b c d + m + t) in b + md5_ROTLEFT a s)"

definition md5_II :: "word32 \<Rightarrow> word32 \<Rightarrow> word32 \<Rightarrow> word32 \<Rightarrow> word32 \<Rightarrow> nat \<Rightarrow> word32 \<Rightarrow> word32" where
  "md5_II a b c d m s t = (let a = a + (md5_I b c d + m + t) in b + md5_ROTLEFT a s)"

type_synonym vars4 = "word32 \<times> word32 \<times> word32 \<times> word32"

text \<open>
  Four calls in a row, the first argument being \<open>a\<close>, \<open>d\<close>, \<open>c\<close> and \<open>b\<close>, with the shifts of the round
  and, for each call, the index into \<open>m\<close> and the constant.
\<close>

definition md5_four ::
  "(word32 \<Rightarrow> word32 \<Rightarrow> word32 \<Rightarrow> word32 \<Rightarrow> word32 \<Rightarrow> nat \<Rightarrow> word32 \<Rightarrow> word32) \<Rightarrow> nat \<times> nat \<times> nat \<times> nat \<Rightarrow>
    word32 list \<Rightarrow> nat \<times> word32 \<Rightarrow> nat \<times> word32 \<Rightarrow> nat \<times> word32 \<Rightarrow> nat \<times> word32 \<Rightarrow> vars4 \<Rightarrow> vars4" where
  "md5_four op = (\<lambda>(s0, s1, s2, s3) m (i0, t0) (i1, t1) (i2, t2) (i3, t3) (a, b, c, d).
     let a = op a b c d (m ! i0) s0 t0;
         d = op d a b c (m ! i1) s1 t1;
         c = op c d a b (m ! i2) s2 t2;
         b = op b c d a (m ! i3) s3 t3
     in (a, b, c, d))"

definition md5_load :: "byte list \<Rightarrow> word32 list" where
  "md5_load data =
     fold (\<lambda>i m. m[i := ucast (data ! (4 * i)) + push_bit 8 (ucast (data ! (4 * i + 1))) +
       push_bit 16 (ucast (data ! (4 * i + 2))) + push_bit 24 (ucast (data ! (4 * i + 3)))]) [0..<16] (replicate 16 0)"

definition md5_transform :: "MD5_CTX \<Rightarrow> byte list \<Rightarrow> MD5_CTX" where
  "md5_transform ctx data =
     (let m = md5_load data;
          st = ctx_state ctx;
          v = (st ! 0, st ! 1, st ! 2, st ! 3);
          v = md5_four md5_FF (7, 12, 17, 22) m (0, 0xd76aa478) (1, 0xe8c7b756) (2, 0x242070db) (3, 0xc1bdceee) v;
          v = md5_four md5_FF (7, 12, 17, 22) m (4, 0xf57c0faf) (5, 0x4787c62a) (6, 0xa8304613) (7, 0xfd469501) v;
          v = md5_four md5_FF (7, 12, 17, 22) m (8, 0x698098d8) (9, 0x8b44f7af) (10, 0xffff5bb1) (11, 0x895cd7be) v;
          v = md5_four md5_FF (7, 12, 17, 22) m (12, 0x6b901122) (13, 0xfd987193) (14, 0xa679438e) (15, 0x49b40821) v;
          v = md5_four md5_GG (5, 9, 14, 20) m (1, 0xf61e2562) (6, 0xc040b340) (11, 0x265e5a51) (0, 0xe9b6c7aa) v;
          v = md5_four md5_GG (5, 9, 14, 20) m (5, 0xd62f105d) (10, 0x02441453) (15, 0xd8a1e681) (4, 0xe7d3fbc8) v;
          v = md5_four md5_GG (5, 9, 14, 20) m (9, 0x21e1cde6) (14, 0xc33707d6) (3, 0xf4d50d87) (8, 0x455a14ed) v;
          v = md5_four md5_GG (5, 9, 14, 20) m (13, 0xa9e3e905) (2, 0xfcefa3f8) (7, 0x676f02d9) (12, 0x8d2a4c8a) v;
          v = md5_four md5_HH (4, 11, 16, 23) m (5, 0xfffa3942) (8, 0x8771f681) (11, 0x6d9d6122) (14, 0xfde5380c) v;
          v = md5_four md5_HH (4, 11, 16, 23) m (1, 0xa4beea44) (4, 0x4bdecfa9) (7, 0xf6bb4b60) (10, 0xbebfbc70) v;
          v = md5_four md5_HH (4, 11, 16, 23) m (13, 0x289b7ec6) (0, 0xeaa127fa) (3, 0xd4ef3085) (6, 0x04881d05) v;
          v = md5_four md5_HH (4, 11, 16, 23) m (9, 0xd9d4d039) (12, 0xe6db99e5) (15, 0x1fa27cf8) (2, 0xc4ac5665) v;
          v = md5_four md5_II (6, 10, 15, 21) m (0, 0xf4292244) (7, 0x432aff97) (14, 0xab9423a7) (5, 0xfc93a039) v;
          v = md5_four md5_II (6, 10, 15, 21) m (12, 0x655b59c3) (3, 0x8f0ccc92) (10, 0xffeff47d) (1, 0x85845dd1) v;
          v = md5_four md5_II (6, 10, 15, 21) m (8, 0x6fa87e4f) (15, 0xfe2ce6e0) (6, 0xa3014314) (13, 0x4e0811a1) v;
          v = md5_four md5_II (6, 10, 15, 21) m (4, 0xf7537e82) (11, 0xbd3af235) (2, 0x2ad7d2bb) (9, 0xeb86d391) v;
          (a, b, c, d) = v
      in ctx\<lparr>ctx_state := [st ! 0 + a, st ! 1 + b, st ! 2 + c, st ! 3 + d]\<rparr>)"

definition md5_init :: "MD5_CTX \<Rightarrow> MD5_CTX" where
  "md5_init ctx = ctx\<lparr>datalen := 0, bitlen := 0,
     ctx_state := [0x67452301, 0xEFCDAB89, 0x98BADCFE, 0x10325476]\<rparr>"

definition md5_update :: "MD5_CTX \<Rightarrow> byte list \<Rightarrow> nat \<Rightarrow> MD5_CTX option" where
  "md5_update ctx data len = update_loop md5_transform ctx data len 0"

definition md5_final :: "MD5_CTX \<Rightarrow> byte list \<Rightarrow> (MD5_CTX \<times> byte list) option" where
  "md5_final ctx hash = do {
     ctx \<leftarrow> md_finish md5_transform put_len_le ctx;
     hash \<leftarrow> out_loop (\<lambda>i. i * 8) (ctx_state ctx) [0..<4] [0, 1, 2, 3] hash;
     Some (ctx, hash) }"

section \<open>The reference\<close>

text \<open>The integer part of \<open>2 ^ 32\<close> times the absolute value of the sine of \<open>i + 1\<close>.\<close>

definition md5_T :: "word32 list" where
  "md5_T =
    [0xd76aa478, 0xe8c7b756, 0x242070db, 0xc1bdceee, 0xf57c0faf, 0x4787c62a, 0xa8304613, 0xfd469501,
     0x698098d8, 0x8b44f7af, 0xffff5bb1, 0x895cd7be, 0x6b901122, 0xfd987193, 0xa679438e, 0x49b40821,
     0xf61e2562, 0xc040b340, 0x265e5a51, 0xe9b6c7aa, 0xd62f105d, 0x02441453, 0xd8a1e681, 0xe7d3fbc8,
     0x21e1cde6, 0xc33707d6, 0xf4d50d87, 0x455a14ed, 0xa9e3e905, 0xfcefa3f8, 0x676f02d9, 0x8d2a4c8a,
     0xfffa3942, 0x8771f681, 0x6d9d6122, 0xfde5380c, 0xa4beea44, 0x4bdecfa9, 0xf6bb4b60, 0xbebfbc70,
     0x289b7ec6, 0xeaa127fa, 0xd4ef3085, 0x04881d05, 0xd9d4d039, 0xe6db99e5, 0x1fa27cf8, 0xc4ac5665,
     0xf4292244, 0x432aff97, 0xab9423a7, 0xfc93a039, 0x655b59c3, 0x8f0ccc92, 0xffeff47d, 0x85845dd1,
     0x6fa87e4f, 0xfe2ce6e0, 0xa3014314, 0x4e0811a1, 0xf7537e82, 0xbd3af235, 0x2ad7d2bb, 0xeb86d391]"

definition md5_fun :: "nat \<Rightarrow> word32 \<Rightarrow> word32 \<Rightarrow> word32 \<Rightarrow> word32" where
  "md5_fun i x y z =
     (if i < 16 then (x AND y) OR (NOT x AND z) else if i < 32 then (x AND z) OR (y AND NOT z)
      else if i < 48 then x XOR y XOR z else y XOR (x OR NOT z))"

definition md5_index :: "nat \<Rightarrow> nat" where
  "md5_index i = (if i < 16 then i else if i < 32 then (5 * i + 1) mod 16
     else if i < 48 then (3 * i + 5) mod 16 else 7 * i mod 16)"

definition md5_shift :: "nat \<Rightarrow> nat" where
  "md5_shift i = (if i < 16 then [7, 12, 17, 22] else if i < 32 then [5, 9, 14, 20]
     else if i < 48 then [4, 11, 16, 23] else [6, 10, 15, 21]) ! (i mod 4)"

text \<open>Words are stored with the low byte first.\<close>

definition le_bytes :: "word32 \<Rightarrow> byte list" where
  "le_bytes w = rev (be_bytes w)"

definition md5_word :: "byte list \<Rightarrow> nat \<Rightarrow> word32" where
  "md5_word d t = be_word (d ! (4 * t + 3)) (d ! (4 * t + 2)) (d ! (4 * t + 1)) (d ! (4 * t))"

definition md5_step :: "byte list \<Rightarrow> vars4 \<Rightarrow> nat \<Rightarrow> vars4" where
  "md5_step data v i = (case v of (a, b, c, d) \<Rightarrow>
     (d, b + word_rotl (md5_shift i) (a + md5_fun i b c d + md5_word data (md5_index i) + md5_T ! i), b, c))"

definition md5_compress :: "word32 list \<Rightarrow> byte list \<Rightarrow> word32 list" where
  "md5_compress H data =
     (case foldl (md5_step data) (H ! 0, H ! 1, H ! 2, H ! 3) [0..<64] of
        (a, b, c, d) \<Rightarrow> [H ! 0 + a, H ! 1 + b, H ! 2 + c, H ! 3 + d])"

definition md5_H0 :: "word32 list" where
  "md5_H0 = [0x67452301, 0xefcdab89, 0x98badcfe, 0x10325476]"

definition md5 :: "byte list \<Rightarrow> byte list" where
  "md5 msg = concat (map le_bytes (md_iterate md5_compress md5_H0 (md_pad len_le msg)))"

section \<open>The transformation is the compression function of the reference\<close>

lemma md5_fun_macros:
  "md5_fun i = (if i < 16 then md5_F else if i < 32 then md5_G else if i < 48 then md5_H else md5_I)"
  by (simp add: fun_eq_iff md5_fun_def md5_F_def md5_G_def md5_H_def md5_I_def)

text \<open>A step with its function, word, shift and constant, and four of them in a row.\<close>

definition md5_gen :: "(word32 \<Rightarrow> word32 \<Rightarrow> word32 \<Rightarrow> word32) \<Rightarrow> word32 \<Rightarrow> word32 \<Rightarrow> word32 \<Rightarrow> word32 \<Rightarrow> word32 \<Rightarrow> nat \<Rightarrow> word32 \<Rightarrow> word32" where
  "md5_gen f a b c d m s t = b + word_rotl s (a + f b c d + m + t)"

lemma md5_macros:
  assumes "0 < s" "s < 32"
  shows "md5_FF a b c d m s t = md5_gen md5_F a b c d m s t" "md5_GG a b c d m s t = md5_gen md5_G a b c d m s t"
    "md5_HH a b c d m s t = md5_gen md5_H a b c d m s t" "md5_II a b c d m s t = md5_gen md5_I a b c d m s t"
  by (simp_all add: md5_FF_def md5_GG_def md5_HH_def md5_II_def md5_gen_def md5_ROTLEFT_def rotl_shifts [OF assms] Let_def add.assoc)

definition md5_apply :: "(nat \<Rightarrow> word32) \<Rightarrow> vars4 \<Rightarrow> (word32 \<Rightarrow> word32 \<Rightarrow> word32 \<Rightarrow> word32) \<times> nat \<times> nat \<times> word32 \<Rightarrow> vars4" where
  "md5_apply M v = (\<lambda>(f, k, s, t). case v of (a, b, c, d) \<Rightarrow> (d, md5_gen f a b c d (M k) s t, b, c))"

lemma md5_four_eq:
  assumes "\<And>a b c d m s t. s \<in> {s0, s1, s2, s3} \<Longrightarrow> op a b c d m s t = md5_gen f a b c d m s t"
    and "\<And>k. k \<in> {i0, i1, i2, i3} \<Longrightarrow> m ! k = M k"
  shows "md5_four op (s0, s1, s2, s3) m (i0, t0) (i1, t1) (i2, t2) (i3, t3) v =
    foldl (md5_apply M) v [(f, i0, s0, t0), (f, i1, s1, t1), (f, i2, s2, t2), (f, i3, s3, t3)]"
  using assms by (cases v) (simp add: md5_four_def md5_apply_def Let_def)

lemma md5_load_eq: "k < 16 \<Longrightarrow> md5_load d ! k = md5_word d k"
proof -
  have w: "ucast (d ! (4 * i)) + push_bit 8 (ucast (d ! (4 * i + 1))) + push_bit 16 (ucast (d ! (4 * i + 2))) +
      push_bit 24 (ucast (d ! (4 * i + 3))) = md5_word d i" for i
    unfolding md5_word_def add_be_word [symmetric] by (simp only: ac_simps)
  have "\<forall>k<16. md5_load d ! k = md5_word d k"
    unfolding md5_load_def w by (rule fold_fill [THEN conjunct2]) simp_all
  then show "k < 16 \<Longrightarrow> md5_load d ! k = md5_word d k" by simp
qed

definition md5_param :: "nat \<Rightarrow> (word32 \<Rightarrow> word32 \<Rightarrow> word32 \<Rightarrow> word32) \<times> nat \<times> nat \<times> word32" where
  "md5_param i = (md5_fun i, md5_index i, md5_shift i, md5_T ! i)"

lemma md5_steps_params: "foldl (md5_step data) v is = foldl (md5_apply (md5_word data)) v (map md5_param is)"
proof -
  have "md5_step data v i = md5_apply (md5_word data) v (md5_param i)" for v i
    by (simp add: md5_step_def md5_apply_def md5_param_def md5_gen_def)
  then show ?thesis by (induction "is" arbitrary: v) simp_all
qed

lemma upt_64: "[0..<64] = [0, 1, 2, 3, 4, 5, 6, 7, 8, 9, 10, 11, 12, 13, 14, 15, 16, 17, 18, 19, 20, 21, 22, 23, 24, 25, 26,
    27, 28, 29, 30, 31, 32, 33, 34, 35, 36, 37, 38, 39, 40, 41, 42, 43, 44, 45, 46, 47, 48, 49, 50, 51, 52, 53, 54, 55,
    56, 57, 58, 59, 60, 61, 62, 63]"
  by (simp add: upt_rec)

lemma md5_four_load:
  assumes "0 < s0" "s0 < 32" "0 < s1" "s1 < 32" "0 < s2" "s2 < 32" "0 < s3" "s3 < 32" "i0 < 16" "i1 < 16" "i2 < 16" "i3 < 16"
  shows "md5_four md5_FF (s0, s1, s2, s3) (md5_load d) (i0, t0) (i1, t1) (i2, t2) (i3, t3) v =
      foldl (md5_apply (md5_word d)) v [(md5_F, i0, s0, t0), (md5_F, i1, s1, t1), (md5_F, i2, s2, t2), (md5_F, i3, s3, t3)]"
    and "md5_four md5_GG (s0, s1, s2, s3) (md5_load d) (i0, t0) (i1, t1) (i2, t2) (i3, t3) v =
      foldl (md5_apply (md5_word d)) v [(md5_G, i0, s0, t0), (md5_G, i1, s1, t1), (md5_G, i2, s2, t2), (md5_G, i3, s3, t3)]"
    and "md5_four md5_HH (s0, s1, s2, s3) (md5_load d) (i0, t0) (i1, t1) (i2, t2) (i3, t3) v =
      foldl (md5_apply (md5_word d)) v [(md5_H, i0, s0, t0), (md5_H, i1, s1, t1), (md5_H, i2, s2, t2), (md5_H, i3, s3, t3)]"
    and "md5_four md5_II (s0, s1, s2, s3) (md5_load d) (i0, t0) (i1, t1) (i2, t2) (i3, t3) v =
      foldl (md5_apply (md5_word d)) v [(md5_I, i0, s0, t0), (md5_I, i1, s1, t1), (md5_I, i2, s2, t2), (md5_I, i3, s3, t3)]"
  by (rule md5_four_eq; use assms in \<open>auto simp: md5_macros md5_load_eq\<close>)+

lemma md5_transform_eq: "md5_transform ctx d = ctx\<lparr>ctx_state := md5_compress (ctx_state ctx) d\<rparr>"
  unfolding md5_transform_def md5_compress_def md5_steps_params upt_64 Let_def
  by (simp add: md5_four_load md5_param_def md5_fun_macros md5_index_def md5_shift_def md5_T_def split: prod.splits)

interpretation md5: md_hash md5_transform md5_compress "\<lambda>_. True" put_len_le len_le
  by unfold_locales (simp_all add: md5_transform_eq put_len_le_eq)

lemma length_md5_compress: "length (md5_compress h d) = 4"
  by (simp add: md5_compress_def split: prod.splits)

lemma word_bytes_le: "word_bytes (\<lambda>i. i * 8) = le_bytes"
proof
  fix w :: word32
  have "byte_of (x AND 0xff) = byte_of x" for x :: word32
    by (rule byte_eqI) (elim insertE emptyE; simp add: bit_simps)
  then show "word_bytes (\<lambda>i. i * 8) w = le_bytes w" by (simp add: word_bytes_def le_bytes_def be_bytes_def)
qed

section \<open>Property\<close>

text \<open>
  C15 (MD5). Whatever the context holds at first, and in whatever pieces the message is passed to
  \<open>md5_update\<close>, \<open>md5_final\<close> writes the 16 bytes of the hash that RFC 1321 defines for the whole message,
  and nothing behind them.
\<close>
theorem md5_streaming:
  assumes "length (ctx_data c0) = 64" "16 \<le> length hash"
  shows "\<exists>c c'. run_updates md5_update (md5_init c0) pieces = Some c \<and>
    md5_final c hash = Some (c', md5 (concat pieces) @ drop 16 hash)"
proof -
  have i: "md5_update = (\<lambda>c p len. update_loop md5_transform c p len 0)" "ctx_state (md5_init c0) = md5_H0"
    by (simp_all add: fun_eq_iff md5_update_def md5_init_def md5_H0_def)
  obtain c c' where c: "run_updates md5_update (md5_init c0) pieces = Some c"
    "md_finish md5_transform put_len_le c = Some c'"
    "ctx_state c' = md_iterate md5_compress md5_H0 (md_pad len_le (concat pieces))"
    using md5.stream_finish [of "md5_init c0" pieces] assms(1) i by (auto simp: md5_init_def)
  have "length (ctx_state c') = 4"
    unfolding c(3) by (rule length_md_iterate) (simp_all add: length_md5_compress md5_H0_def)
  then have "out_loop (\<lambda>i. i * 8) (ctx_state c') [0..<4] [0, 1, 2, 3] hash =
      Some (concat (map le_bytes (ctx_state c')) @ drop 16 hash)"
    using out_loop_bytes [of 4 "ctx_state c'" hash "\<lambda>i. i * 8"] assms(2) by (simp add: word_bytes_le)
  then show ?thesis using c by (simp add: md5_final_def md5_def)
qed

theorem md5_streaming_witness:
  "\<exists>c c'. run_updates md5_update
      (md5_init \<lparr>ctx_data = replicate 64 7, datalen = 9, bitlen = 9, ctx_state = []\<rparr>) [[97], [98, 99]] = Some c \<and>
    md5_final c (replicate 17 0) = Some (c', md5 (concat [[97], [98, 99]]) @ drop 16 (replicate 17 0))"
  by (rule md5_streaming) simp_all

end
