(* ===== verification/Md2.thy ===== *)
theory Md2
  imports MdHash
begin

text \<open>
  MD2 of \<open>crypto-algorithms_learn/md2.c\<close>: a 16-byte buffer, the 48-byte state and the running
  checksum, which \<open>md2_transform\<close> updates together. The reference is the algorithm of RFC 1319, which
  pads the message, appends the checksum of the padded message, and then processes all blocks.
\<close>

section \<open>Definitions\<close>

record MD2_CTX =
  md2_data :: "byte list"
  md2_state :: "byte list"
  md2_checksum :: "byte list"
  md2_len :: nat

definition md2_s :: "byte list" where
  "md2_s =
    [41, 46, 67, 201, 162, 216, 124, 1, 61, 54, 84, 161, 236, 240, 6, 19,
     98, 167, 5, 243, 192, 199, 115, 140, 152, 147, 43, 217, 188, 76, 130, 202,
     30, 155, 87, 60, 253, 212, 224, 22, 103, 66, 111, 24, 138, 23, 229, 18,
     190, 78, 196, 214, 218, 158, 222, 73, 160, 251, 245, 142, 187, 47, 238, 122,
     169, 104, 121, 145, 21, 178, 7, 63, 148, 194, 16, 137, 11, 34, 95, 33,
     128, 127, 93, 154, 90, 144, 50, 39, 53, 62, 204, 231, 191, 247, 151, 3,
     255, 25, 48, 179, 72, 165, 181, 209, 215, 94, 146, 42, 172, 86, 170, 198,
     79, 184, 56, 210, 150, 164, 125, 182, 118, 252, 107, 226, 156, 116, 4, 241,
     69, 157, 112, 89, 100, 113, 135, 32, 134, 91, 207, 101, 230, 45, 168, 2,
     27, 96, 37, 173, 174, 176, 185, 246, 28, 70, 97, 105, 52, 64, 126, 15,
     85, 71, 163, 35, 221, 81, 175, 58, 195, 92, 249, 206, 186, 197, 234, 38,
     44, 83, 13, 110, 133, 40, 132, 9, 211, 223, 205, 244, 65, 129, 77, 82,
     106, 220, 55, 200, 108, 193, 171, 250, 36, 225, 123, 8, 12, 189, 177, 74,
     120, 136, 149, 139, 227, 99, 232, 109, 233, 203, 213, 254, 59, 0, 29, 57,
     242, 239, 183, 14, 102, 88, 208, 228, 166, 119, 114, 248, 235, 117, 75, 10,
     49, 68, 80, 180, 143, 237, 31, 26, 219, 153, 141, 51, 159, 17, 131, 20]"

text \<open>The loop that copies the block behind the state and its exclusive or behind that.\<close>

definition md2_fill :: "byte list \<Rightarrow> byte list \<Rightarrow> byte list" where
  "md2_fill state data =
     fold (\<lambda>j state. let state = state[j + 16 := data ! j] in state[j + 32 := state ! (j + 16) XOR state ! j])
       [0..<16] state"

text \<open>The inner loop over \<open>k\<close>, which carries \<open>t\<close>, and the outer loop over \<open>j\<close>.\<close>

definition md2_inner :: "byte list \<times> byte \<Rightarrow> byte list \<times> byte" where
  "md2_inner st =
     fold (\<lambda>k (state, t). let state = state[k := state ! k XOR md2_s ! unat t] in (state, state ! k)) [0..<48] st"

definition md2_outer :: "byte list \<Rightarrow> byte list" where
  "md2_outer state =
     fst (fold (\<lambda>j st. let (state, t) = md2_inner st in (state, (t + of_nat j) AND 0xFF)) [0..<18] (state, 0))"

definition md2_check :: "byte list \<Rightarrow> byte list \<Rightarrow> byte list" where
  "md2_check checksum data =
     fst (fold (\<lambda>j (checksum, t). let checksum = checksum[j := checksum ! j XOR md2_s ! unat (data ! j XOR t)]
       in (checksum, checksum ! j)) [0..<16] (checksum, checksum ! 15))"

text \<open>
  In \<open>md2_final\<close> the block is the checksum array itself; its entry \<open>j\<close> is read before it is
  overwritten, so the value passed here is the one the loop reads.
\<close>

definition md2_transform :: "MD2_CTX \<Rightarrow> byte list \<Rightarrow> MD2_CTX" where
  "md2_transform ctx data =
     ctx\<lparr>md2_state := md2_outer (md2_fill (md2_state ctx) data), md2_checksum := md2_check (md2_checksum ctx) data\<rparr>"

definition md2_init :: "MD2_CTX \<Rightarrow> MD2_CTX" where
  "md2_init ctx = ctx\<lparr>md2_state := replicate 48 0, md2_checksum := replicate 16 0, md2_len := 0\<rparr>"

definition md2_absorb :: "MD2_CTX \<Rightarrow> byte \<Rightarrow> MD2_CTX option" where
  "md2_absorb ctx b = do {
     d \<leftarrow> aset (md2_data ctx) (md2_len ctx) b;
     let ctx = ctx\<lparr>md2_data := d, md2_len := md2_len ctx + 1\<rparr>;
     if md2_len ctx = 16 then Some ((md2_transform ctx (md2_data ctx))\<lparr>md2_len := 0\<rparr>)
     else Some ctx }"

function md2_update_loop :: "MD2_CTX \<Rightarrow> byte list \<Rightarrow> nat \<Rightarrow> nat \<Rightarrow> MD2_CTX option" where
  "md2_update_loop ctx data len i =
     (if i < len then do {
        b \<leftarrow> aget data i;
        ctx \<leftarrow> md2_absorb ctx b;
        md2_update_loop ctx data len (i + 1) }
      else Some ctx)"
  by pat_completeness auto
termination
  by (relation "measure (\<lambda>(ctx, data, len, i). len - i)") auto

definition md2_update :: "MD2_CTX \<Rightarrow> byte list \<Rightarrow> nat \<Rightarrow> MD2_CTX option" where
  "md2_update ctx data len = md2_update_loop ctx data len 0"

function md2_pad_loop :: "MD2_CTX \<Rightarrow> byte \<Rightarrow> MD2_CTX option" where
  "md2_pad_loop ctx to_pad =
     (if md2_len ctx < 16 then do {
        d \<leftarrow> aset (md2_data ctx) (md2_len ctx) to_pad;
        md2_pad_loop (ctx\<lparr>md2_data := d, md2_len := md2_len ctx + 1\<rparr>) to_pad }
      else Some ctx)"
  by pat_completeness auto
termination
  by (relation "measure (\<lambda>(ctx, to_pad). 16 - md2_len ctx)") auto

definition md2_final :: "MD2_CTX \<Rightarrow> byte list \<Rightarrow> (MD2_CTX \<times> byte list) option" where
  "md2_final ctx hash = do {
     let to_pad = of_nat (16 - md2_len ctx);
     ctx \<leftarrow> md2_pad_loop ctx to_pad;
     let ctx = md2_transform ctx (md2_data ctx);
     let ctx = md2_transform ctx (md2_checksum ctx);
     hash \<leftarrow> bput hash 0 (take 16 (md2_state ctx));
     Some (ctx, hash) }"

declare md2_update_loop.simps [simp del] md2_pad_loop.simps [simp del]

section \<open>The reference\<close>

text \<open>One pass over the state: every byte is mixed with the substituted previous one.\<close>

fun md2_pass :: "byte \<Rightarrow> byte list \<Rightarrow> byte list \<times> byte" where
  "md2_pass t [] = ([], t)"
| "md2_pass t (x # xs) = (let y = x XOR md2_s ! unat t; (ys, u) = md2_pass y xs in (y # ys, u))"

primrec md2_passes :: "nat \<Rightarrow> nat \<Rightarrow> byte list \<Rightarrow> byte \<Rightarrow> byte list" where
  "md2_passes 0 j xs t = xs"
| "md2_passes (Suc n) j xs t = (let (ys, u) = md2_pass t xs in md2_passes n (j + 1) ys (u + of_nat j))"

definition md2_block :: "byte list \<Rightarrow> byte list \<Rightarrow> byte list" where
  "md2_block X d = md2_passes 18 0 (take 16 X @ d @ map2 (XOR) d (take 16 X)) 0"

fun md2_sum :: "byte \<Rightarrow> byte list \<Rightarrow> byte list \<Rightarrow> byte list" where
  "md2_sum L (c # cs) (d # ds) = (let y = c XOR md2_s ! unat (d XOR L) in y # md2_sum y cs ds)"
| "md2_sum L cs ds = cs"

definition md2_sum_block :: "byte list \<Rightarrow> byte list \<Rightarrow> byte list" where
  "md2_sum_block C d = md2_sum (last C) C d"

definition md2_padded :: "byte list \<Rightarrow> byte list" where
  "md2_padded msg = (let n = 16 - length msg mod 16 in msg @ replicate n (of_nat n))"

definition md2_checksum_of :: "byte list \<Rightarrow> byte list" where
  "md2_checksum_of p = foldl md2_sum_block (replicate 16 0) (blocks 16 p)"

definition md2 :: "byte list \<Rightarrow> byte list" where
  "md2 msg = (let p = md2_padded msg in
     take 16 (foldl md2_block (replicate 48 0) (blocks 16 (p @ md2_checksum_of p))))"

section \<open>The transform is the compression step\<close>

lemma byte_and_255: "x AND 0xFF = (x :: byte)"
  by (rule byte_eqI) (elim insertE emptyE; simp add: bit_simps)

lemma md2_inner_pass:
  "fold (\<lambda>k (state, t). let state = state[k := state ! k XOR md2_s ! unat t] in (state, state ! k))
     [length pre..<length pre + length xs] (pre @ xs, t) = (pre @ fst (md2_pass t xs), snd (md2_pass t xs))"
proof (induction xs arbitrary: pre t)
  case (Cons x xs)
  let ?y = "x XOR md2_s ! unat t"
  have "[length pre..<length pre + length (x # xs)] =
      length pre # [length (pre @ [?y])..<length (pre @ [?y]) + length xs]"
    by (simp add: upt_conv_Cons del: upt_Suc)
  then show ?case using Cons.IH [of "pre @ [?y]" ?y]
    by (simp add: Let_def case_prod_beta list_update_append)
qed simp

lemma md2_inner_eq: "length xs = 48 \<Longrightarrow> md2_inner (xs, t) = md2_pass t xs"
  using md2_inner_pass [of "[]" xs t] by (simp add: md2_inner_def)

lemma length_md2_pass [simp]: "length (fst (md2_pass t xs)) = length xs"
  by (induction xs arbitrary: t) (simp_all add: Let_def case_prod_beta)

lemma md2_outer_passes:
  "length xs = 48 \<Longrightarrow>
    fst (fold (\<lambda>j st. let (state, t) = md2_inner st in (state, (t + of_nat j) AND 0xFF)) [j..<j + n] (xs, t)) =
      md2_passes n j xs t"
proof (induction n arbitrary: j xs t)
  case (Suc n)
  have "[j..<j + Suc n] = j # [j + 1..<(j + 1) + n]" by (simp add: upt_conv_Cons del: upt_Suc)
  then show ?case
    using Suc.IH [of "fst (md2_pass t xs)" "j + 1" "snd (md2_pass t xs) + of_nat j"] Suc.prems
    by (simp add: md2_inner_eq Let_def case_prod_beta byte_and_255)
qed simp

lemma length_md2_passes [simp]: "length (md2_passes n j xs t) = length xs"
  by (induction n arbitrary: j xs t) (simp_all add: Let_def case_prod_beta)

lemma md2_fill_nth:
  assumes "length X = 48" "n \<le> 16"
  shows "length (fold (\<lambda>j X. let X = X[j + 16 := d ! j] in X[j + 32 := X ! (j + 16) XOR X ! j]) [0..<n] X) = 48 \<and>
    (\<forall>i<48. fold (\<lambda>j X. let X = X[j + 16 := d ! j] in X[j + 32 := X ! (j + 16) XOR X ! j]) [0..<n] X ! i =
      (if 16 \<le> i \<and> i < 16 + n then d ! (i - 16)
       else if 32 \<le> i \<and> i < 32 + n then d ! (i - 32) XOR X ! (i - 32) else X ! i))"
  using assms(2)
proof (induction n)
  case 0
  then show ?case using assms(1) by auto
next
  case (Suc n)
  define Y where "Y = fold (\<lambda>j X. let X = X[j + 16 := d ! j] in X[j + 32 := X ! (j + 16) XOR X ! j]) [0..<n] X"
  have Y: "length Y = 48" "\<And>i. i < 48 \<Longrightarrow> Y ! i = (if 16 \<le> i \<and> i < 16 + n then d ! (i - 16)
       else if 32 \<le> i \<and> i < 32 + n then d ! (i - 32) XOR X ! (i - 32) else X ! i)"
    using Suc unfolding Y_def by auto
  have "fold (\<lambda>j X. let X = X[j + 16 := d ! j] in X[j + 32 := X ! (j + 16) XOR X ! j]) [0..<Suc n] X =
      (let Y = Y[n + 16 := d ! n] in Y[n + 32 := Y ! (n + 16) XOR Y ! n])"
    unfolding Y_def by simp
  also have "\<dots> = Y[n + 16 := d ! n, n + 32 := d ! n XOR X ! n]"
    using Suc.prems Y by (simp add: Let_def)
  finally show ?case using Suc.prems Y(1) by (auto simp: nth_list_update Y(2))
qed

lemma md2_fill_eq:
  assumes "length X = 48" "length d = 16"
  shows "md2_fill X d = take 16 X @ d @ map2 (XOR) d (take 16 X)"
proof (rule nth_equalityI)
  note f = md2_fill_nth [OF assms(1) order_refl, of d, folded md2_fill_def]
  show "length (md2_fill X d) = length (take 16 X @ d @ map2 (XOR) d (take 16 X))" using f assms by simp
  fix i assume "i < length (md2_fill X d)"
  then show "md2_fill X d ! i = (take 16 X @ d @ map2 (XOR) d (take 16 X)) ! i"
    using f assms by (auto simp: nth_append)
qed

lemma md2_check_sum:
  "length cs = length ds \<Longrightarrow>
    fst (fold (\<lambda>j (checksum, t). let checksum = checksum[j := checksum ! j XOR md2_s ! unat ((pd @ ds) ! j XOR t)]
       in (checksum, checksum ! j)) [length pre..<length pre + length cs] (pre @ cs, t)) = pre @ md2_sum t cs ds"
  if "length pd = length pre"
  using that
proof (induction cs arbitrary: pre pd ds t)
  case (Cons c cs)
  then obtain d ds' where d: "ds = d # ds'" "length cs = length ds'" by (cases ds) auto
  let ?y = "c XOR md2_s ! unat (d XOR t)"
  have "[length pre..<length pre + length (c # cs)] =
      length pre # [length (pre @ [?y])..<length (pre @ [?y]) + length cs]"
    by (simp add: upt_conv_Cons del: upt_Suc)
  then show ?case using Cons.IH [of ds' "pd @ [d]" "pre @ [?y]" ?y] Cons.prems d
    by (simp add: Let_def case_prod_beta list_update_append nth_append)
qed simp

lemma md2_check_eq: "length C = 16 \<Longrightarrow> length d = 16 \<Longrightarrow> md2_check C d = md2_sum_block C d"
  using md2_check_sum [of "[]" "[]" C d "C ! 15"] last_conv_nth [of C]
  by (cases "C = []") (simp_all add: md2_check_def md2_sum_block_def)

lemma length_md2_sum [simp]: "length (md2_sum L cs ds) = length cs"
  by (induction L cs ds rule: md2_sum.induct) (simp_all add: Let_def)

lemma length_md2_step [simp]: "length (md2_sum_block C d) = length C"
  "length X = 48 \<Longrightarrow> length d = 16 \<Longrightarrow> length (md2_block X d) = 48"
  by (simp_all add: md2_sum_block_def md2_block_def)

lemma md2_transform_eq:
  assumes "length (md2_state c) = 48" "length (md2_checksum c) = 16" "length d = 16"
  shows "md2_transform c d =
    c\<lparr>md2_state := md2_block (md2_state c) d, md2_checksum := md2_sum_block (md2_checksum c) d\<rparr>"
  using assms md2_outer_passes [of "md2_fill (md2_state c) d" 0 18 0]
  by (simp add: md2_transform_def md2_check_eq md2_outer_def md2_block_def md2_fill_eq del: upt_Suc)

section \<open>Streaming\<close>

definition md2_X :: "byte list \<Rightarrow> byte list" where
  "md2_X p = foldl md2_block (replicate 48 0) (blocks 16 p)"

lemma md2_X_append: "length p = 16 * q \<Longrightarrow> length d = 16 \<Longrightarrow> md2_X (p @ d) = md2_block (md2_X p) d"
  and md2_checksum_append:
    "length p = 16 * q \<Longrightarrow> length d = 16 \<Longrightarrow> md2_checksum_of (p @ d) = md2_sum_block (md2_checksum_of p) d"
  using blocks_one [of 16 d "[]"]
  by (simp_all add: md2_X_def md2_checksum_of_def blocks_append blocks_short)

lemma md2_lengths:
  "length p = 16 * q \<Longrightarrow> length (md2_X p) = 48 \<and> length (md2_checksum_of p) = 16"
proof (induction q arbitrary: p)
  case 0
  then show ?case by (simp add: md2_X_def md2_checksum_of_def blocks_short)
next
  case (Suc q)
  define a b where "a = take (16 * q) p" and "b = drop (16 * q) p"
  have l: "length a = 16 * q" "length b = 16" "p = a @ b" using Suc.prems by (simp_all add: a_def b_def)
  show ?case unfolding l(3) using Suc.IH [OF l(1)] l(2) by (simp add: md2_X_append [OF l(1)] md2_checksum_append [OF l(1)])
qed

text \<open>The context after the bytes \<open>msg\<close>.\<close>

definition md2_holds :: "MD2_CTX \<Rightarrow> byte list \<Rightarrow> bool" where
  "md2_holds c msg \<longleftrightarrow> length (md2_data c) = 16 \<and>
     (\<exists>full tail q. msg = full @ tail \<and> length full = 16 * q \<and> length tail < 16 \<and> md2_len c = length tail \<and>
        take (length tail) (md2_data c) = tail \<and> md2_state c = md2_X full \<and> md2_checksum c = md2_checksum_of full)"

lemma md2_holds_init: "length (md2_data c) = 16 \<Longrightarrow> md2_holds (md2_init c) []"
  by (simp add: md2_holds_def md2_init_def md2_X_def md2_checksum_of_def blocks_short)

lemma md2_absorb_holds:
  assumes "md2_holds c msg"
  shows "\<exists>c'. md2_absorb c b = Some c' \<and> md2_holds c' (msg @ [b])"
proof -
  obtain full tail q where f: "msg = full @ tail" "length full = 16 * q" "length tail < 16" "md2_len c = length tail"
    "take (length tail) (md2_data c) = tail" "md2_state c = md2_X full" "md2_checksum c = md2_checksum_of full"
    "length (md2_data c) = 16"
    using assms unfolding md2_holds_def by blast
  define d where "d = (md2_data c)[length tail := b]"
  have d: "length d = 16" "take (length tail + 1) d = tail @ [b]"
    using f(3,5,8) by (simp_all add: d_def take_Suc_conv_app_nth)
  have s: "aset (md2_data c) (md2_len c) b = Some d" using f(3,4,8) by (simp add: array_simps d_def)
  show ?thesis
  proof (cases "length tail + 1 = 16")
    case True
    then have t: "tail @ [b] = d" using d by (metis take_all_iff order_refl)
    have m: "msg @ [b] = (full @ d) @ []" by (simp add: f(1) t [symmetric])
    let ?c = "c\<lparr>md2_data := d, md2_state := md2_X (full @ d), md2_checksum := md2_checksum_of (full @ d), md2_len := 0\<rparr>"
    have "md2_absorb c b = Some ?c"
      unfolding md2_absorb_def s using True d(1) f(4,6,7) md2_lengths [OF f(2)]
      by (simp add: md2_transform_eq md2_X_append [OF f(2)] md2_checksum_append [OF f(2)])
    moreover have "md2_holds ?c (msg @ [b])"
      unfolding md2_holds_def m using d(1) f(2) by (intro conjI exI [of _ "full @ d"] exI [of _ "[]"] exI [of _ "q + 1"]) simp_all
    ultimately show ?thesis by blast
  next
    case False
    let ?c = "c\<lparr>md2_data := d, md2_len := length tail + 1\<rparr>"
    have "md2_absorb c b = Some ?c" unfolding md2_absorb_def s using False f(4) by simp
    moreover have "md2_holds ?c (msg @ [b])"
      unfolding md2_holds_def using False d f
      by (intro conjI exI [of _ full] exI [of _ "tail @ [b]"] exI [of _ q]) simp_all
    ultimately show ?thesis by blast
  qed
qed

lemma md2_update_loop_holds:
  "md2_holds c msg \<Longrightarrow> \<exists>c'. md2_update_loop c (pre @ xs) (length pre + length xs) (length pre) = Some c' \<and>
    md2_holds c' (msg @ xs)"
proof (induction xs arbitrary: c msg pre)
  case Nil
  then show ?case by (subst md2_update_loop.simps) simp
next
  case (Cons x xs)
  obtain c1 where c1: "md2_absorb c x = Some c1" "md2_holds c1 (msg @ [x])"
    using md2_absorb_holds [OF Cons.prems] by blast
  have "md2_update_loop c (pre @ x # xs) (length pre + length (x # xs)) (length pre) =
      md2_update_loop c1 ((pre @ [x]) @ xs) (length (pre @ [x]) + length xs) (length (pre @ [x]))"
    by (subst md2_update_loop.simps) (simp add: c1(1) aget_at)
  then show ?case using Cons.IH [OF c1(2), of "pre @ [x]"] by simp
qed

lemma md2_run_updates_holds:
  "md2_holds c msg \<Longrightarrow> \<exists>c'. run_updates md2_update c ps = Some c' \<and> md2_holds c' (msg @ concat ps)"
proof (induction ps arbitrary: c msg)
  case (Cons p ps)
  obtain c1 where c1: "md2_update c p (length p) = Some c1" "md2_holds c1 (msg @ p)"
    using md2_update_loop_holds [OF Cons.prems, of "[]" p] by (auto simp: md2_update_def)
  then show ?case using Cons.IH [OF c1(2)] by auto
qed simp

lemma md2_pad_loop_eq:
  assumes "length (md2_data c) = 16" "md2_len c = 16 - n" "n \<le> 16"
  shows "md2_pad_loop c b = Some (c\<lparr>md2_data := take (16 - n) (md2_data c) @ replicate n b, md2_len := 16\<rparr>)"
  using assms
proof (induction n arbitrary: c)
  case 0
  then show ?case by (subst md2_pad_loop.simps) simp
next
  case (Suc n)
  have n: "16 - n = Suc (16 - Suc n)" using Suc.prems by simp
  have "md2_pad_loop c b = md2_pad_loop (c\<lparr>md2_data := (md2_data c)[16 - Suc n := b], md2_len := 16 - n\<rparr>) b"
    using Suc.prems by (subst md2_pad_loop.simps) (auto simp: array_simps n)
  moreover have "take (16 - n) ((md2_data c)[16 - Suc n := b]) = take (16 - Suc n) (md2_data c) @ [b]"
    using Suc.prems by (simp add: n take_Suc_conv_app_nth)
  ultimately show ?case using Suc.prems Suc.IH [of "c\<lparr>md2_data := (md2_data c)[16 - Suc n := b], md2_len := 16 - n\<rparr>"]
    by simp
qed

lemma md2_final_eq:
  assumes "md2_holds c msg" "16 \<le> length hash"
  shows "\<exists>c'. md2_final c hash = Some (c', md2 msg @ drop 16 hash)"
proof -
  obtain full tail q where f: "msg = full @ tail" "length full = 16 * q" "length tail < 16" "md2_len c = length tail"
    "take (length tail) (md2_data c) = tail" "md2_state c = md2_X full" "md2_checksum c = md2_checksum_of full"
    "length (md2_data c) = 16"
    using assms unfolding md2_holds_def by blast
  define n where "n = 16 - length tail"
  have n: "n \<le> 16" "length tail = 16 - n" "16 - md2_len c = n" using f(3,4) by (simp_all add: n_def)
  define d where "d = tail @ replicate n (of_nat n)"
  have d: "length d = 16" using n(1,2) by (simp add: d_def)
  have pad: "md2_pad_loop c (of_nat n) = Some (c\<lparr>md2_data := d, md2_len := 16\<rparr>)"
    using md2_pad_loop_eq [of c n "of_nat n"] f(4,5,8) n by (simp add: d_def)
  have p: "md2_padded msg = full @ d"
    using f(1,2,3) by (simp add: md2_padded_def Let_def d_def n_def)
  have l: "length (full @ d) = 16 * (q + 1)" using f(2) d by simp
  note L = md2_lengths [OF f(2)] md2_lengths [OF l]
  have m: "md2 msg = take 16 (md2_block (md2_X (full @ d)) (md2_checksum_of (full @ d)))"
    using md2_X_append [OF l] L(2) by (simp add: md2_def Let_def p md2_X_def)
  show ?thesis
    unfolding md2_final_def Let_def n(3) pad m
    using d f(6,7) L assms(2)
    by (simp add: md2_transform_eq md2_X_append [OF f(2) d] md2_checksum_append [OF f(2) d] bput_def buf_write_def)
qed

text \<open>
  C16 (MD2 is the hash of RFC 1319). From any context, \<open>md2_init\<close>, any sequence of \<open>md2_update\<close> calls
  and \<open>md2_final\<close> stay inside the arrays and leave the hash of the joined pieces in the first 16 bytes
  of the output, although the checksum is computed block by block along the way.
\<close>
theorem md2_streaming:
  assumes "length (md2_data c0) = 16" "16 \<le> length hash"
  shows "\<exists>c c'. run_updates md2_update (md2_init c0) pieces = Some c \<and>
    md2_final c hash = Some (c', md2 (concat pieces) @ drop 16 hash)"
  using md2_run_updates_holds [OF md2_holds_init [OF assms(1)], of pieces] md2_final_eq [OF _ assms(2)] by force

theorem md2_streaming_witness:
  "\<exists>c c'. run_updates md2_update
      (md2_init \<lparr>md2_data = replicate 16 7, md2_state = [], md2_checksum = [], md2_len = 3\<rparr>) [[97], [98, 99]] = Some c \<and>
    md2_final c (replicate 17 0) = Some (c', md2 (concat [[97], [98, 99]]) @ drop 16 (replicate 17 0))"
  by (rule md2_streaming) simp_all

end
